(* ===== verification/Udx_Prelude.thy ===== *)
theory Udx_Prelude
  imports Main "HOL-Library.Word" "HOL-Library.Monad_Syntax" "HOL-Library.AList"
    "HOL-Library.Sublist"
begin

text \<open>
  Shared vocabulary of the development: the machine integers of the Rust code, the
  arithmetic and slicing primitives that can panic, little-endian bytes, the dictionary
  interface behind \<open>HashMap\<close> and \<open>BTreeMap\<close>, half-open ranges of \<open>u32\<close>, and weighted sums
  over dictionaries. Two generic contracts are stated as locales: fixed-width codecs
  and transition systems with an invariant.

  A computation that may panic has type \<open>'a option\<close>; \<open>None\<close> is the panic of a build with
  overflow checks (the profile \<open>cargo test\<close> uses). A proof that a value is \<open>Some\<close> therefore
  also shows that no wrapped value is ever produced in a build without the checks.

  \<open>usize\<close> is a natural number. Its subtraction is checked, since an underflow is a real
  possibility in the code. Its additions only count bytes and packets of one process and
  are exact: 64 bits are not exhausted by them. \<open>u32\<close> values keep their width, and an
  increment past the maximum is a panic.
\<close>

unbundle bit_operations_syntax

section \<open>Machine integers\<close>

type_synonym u8 = "8 word"
type_synonym u16 = "16 word"
type_synonym u32 = "32 word"
type_synonym usize = nat

named_theorems panic_simps \<open>when the checked primitives return a value\<close>

definition u32_max :: u32 where
  "u32_max = 4294967295"

definition u32_inc :: "u32 \<Rightarrow> u32 option" where
  "u32_inc x = (if x = u32_max then None else Some (x + 1))"

definition usize_sub :: "usize \<Rightarrow> usize \<Rightarrow> usize option" where
  "usize_sub a b = (if b \<le> a then Some (a - b) else None)"

definition saturating_sub :: "usize \<Rightarrow> usize \<Rightarrow> usize" where
  "saturating_sub a b = (if b \<le> a then a - b else 0)"

definition u32_range :: "u32 \<Rightarrow> u32 \<Rightarrow> u32 list" where
  "u32_range a b = map word_of_nat [unat a..<unat b]"

lemma unat_u32_max [simp]: "unat u32_max = 4294967295"
  by (simp add: u32_max_def)

lemma u32_max_ge [simp]: "x \<le> u32_max"
proof -
  have "unat x < 2 ^ LENGTH(32)" by (rule unsigned_less)
  then show ?thesis by (simp add: word_le_nat_alt)
qed

lemma u32_less_max [simp]: "x < u32_max \<longleftrightarrow> x \<noteq> u32_max"
  by (simp add: order.strict_iff_order)

lemma unat_u32_le: "unat (x :: u32) \<le> 4294967295"
  using u32_max_ge [of x] by (simp add: word_le_nat_alt)

lemma unat_u32_inc: "x \<noteq> u32_max \<Longrightarrow> unat (x + 1) = Suc (unat x)"
proof -
  assume "x \<noteq> u32_max"
  then have "unat x \<noteq> unat u32_max" by (simp add: word_unat_eq_iff)
  then have "unat x + 1 < 2 ^ LENGTH(32)" using unat_u32_le [of x] by simp
  then show ?thesis by (simp add: unat_word_ariths)
qed

lemma unat_less_max: "x \<noteq> u32_max \<Longrightarrow> unat x < 4294967295"
  using u32_less_max [of x] by (simp add: word_less_nat_alt)

lemma u32_inc_eq_Some [panic_simps]:
  "u32_inc x = Some y \<longleftrightarrow> x \<noteq> u32_max \<and> y = x + 1"
  by (auto simp: u32_inc_def)

lemma u32_inc_eq_None [panic_simps]: "u32_inc x = None \<longleftrightarrow> x = u32_max"
  by (simp add: u32_inc_def)

lemma usize_sub_eq_Some [panic_simps]:
  "usize_sub a b = Some c \<longleftrightarrow> b \<le> a \<and> c = a - b"
  by (auto simp: usize_sub_def)

lemma usize_sub_eq_None [panic_simps]: "usize_sub a b = None \<longleftrightarrow> a < b"
  by (auto simp: usize_sub_def)

lemma set_u32_range [simp]: "set (u32_range a b) = {i. a \<le> i \<and> i < b}"
proof -
  have "i \<in> word_of_nat ` {unat a..<unat b}" if "a \<le> i" "i < b" for i :: u32
    using that by (intro image_eqI [of _ _ "unat i"]) (auto simp: word_le_nat_alt word_less_nat_alt)
  moreover have "a \<le> word_of_nat n \<and> word_of_nat n < b" if "unat a \<le> n" "n < unat b" for n
  proof -
    have "n < 2 ^ LENGTH(32)" using that(2) unat_u32_le [of b] by simp
    then have "unat (word_of_nat n :: u32) = n" by (simp add: unat_of_nat)
    with that show ?thesis by (simp add: word_le_nat_alt word_less_nat_alt)
  qed
  ultimately show ?thesis by (auto simp: u32_range_def)
qed

lemma u32_range_empty [simp]: "b \<le> a \<Longrightarrow> u32_range a b = []"
  by (simp add: u32_range_def word_le_nat_alt)

lemma u32_range_Cons: "a < b \<Longrightarrow> u32_range a b = a # u32_range (a + 1) b"
proof -
  assume ab: "a < b"
  then have "a \<noteq> u32_max" using u32_max_ge [of b] by (metis leD)
  with ab show ?thesis
    by (simp add: u32_range_def word_less_nat_alt unat_u32_inc upt_conv_Cons)
qed


lemma u32_range_append:
  "a \<le> b \<Longrightarrow> b \<le> c \<Longrightarrow> u32_range a c = u32_range a b @ u32_range b c"
  using upt_add_eq_append [of "unat a" "unat b" "unat c - unat b"]
  by (simp add: u32_range_def word_le_nat_alt flip: map_append)

lemma length_u32_range [simp]: "length (u32_range a b) = unat b - unat a"
  by (simp add: u32_range_def)

lemma distinct_u32_range [simp]: "distinct (u32_range a b)"
proof (cases "a < b")
  case True
  have "inj_on (word_of_nat :: nat \<Rightarrow> u32) {unat a..<unat b}"
    using unat_u32_le [of b] by (intro inj_onI) (auto simp: word_unat_eq_iff unat_of_nat)
  then show ?thesis by (simp add: u32_range_def distinct_map)
qed simp

section \<open>Slices\<close>

text \<open>\<open>slice xs a b\<close> is Rust's \<open>&xs[a..b]\<close>: it panics when the range is reversed or ends
  beyond the buffer. \<open>copy_at\<close> is \<open>buf[off..off + n].copy_from_slice(bytes)\<close> for \<open>bytes\<close> of
  length \<open>n\<close>, on a buffer that is long enough.\<close>

definition slice :: "'a list \<Rightarrow> usize \<Rightarrow> usize \<Rightarrow> 'a list option" where
  "slice xs a b = (if a \<le> b \<and> b \<le> length xs then Some (take (b - a) (drop a xs)) else None)"

definition copy_at :: "usize \<Rightarrow> 'a list \<Rightarrow> 'a list \<Rightarrow> 'a list" where
  "copy_at off bytes buf = take off buf @ bytes @ drop (off + length bytes) buf"

lemma slice_eq_Some [panic_simps]:
  "slice xs a b = Some ys \<longleftrightarrow> a \<le> b \<and> b \<le> length xs \<and> ys = take (b - a) (drop a xs)"
  by (auto simp: slice_def)

lemma length_copy_at [simp]:
  "off + length bytes \<le> length buf \<Longrightarrow> length (copy_at off bytes buf) = length buf"
  by (simp add: copy_at_def)

section \<open>Little-endian bytes\<close>

definition u32_to_le_bytes :: "u32 \<Rightarrow> u8 list" where
  "u32_to_le_bytes x =
     [ucast x, ucast (drop_bit 8 x), ucast (drop_bit 16 x), ucast (drop_bit 24 x)]"

fun u32_from_le_bytes :: "u8 list \<Rightarrow> u32 option" where
  "u32_from_le_bytes [b0, b1, b2, b3] =
     Some (ucast b0 OR push_bit 8 (ucast b1) OR push_bit 16 (ucast b2) OR push_bit 24 (ucast b3))"
| "u32_from_le_bytes _ = None"

lemma length_u32_to_le_bytes [simp]: "length (u32_to_le_bytes x) = 4"
  by (simp add: u32_to_le_bytes_def)

lemma u32_from_to_le_bytes [simp]: "u32_from_le_bytes (u32_to_le_bytes x) = Some x"
proof -
  have "n - 16 < 8" if "bit x n" "\<not> bit x (24 + (n - 24))" for n
    using that by (cases "24 \<le> n") auto
  then show ?thesis
    by (auto simp: u32_to_le_bytes_def bit_simps intro!: bit_word_eqI)
qed

lemma not_bit_u8: "8 \<le> n \<Longrightarrow> \<not> bit (b :: u8) n"
  by (auto dest: bit_imp_le_length)

lemma u32_to_le_bytes_of_from:
  assumes "u32_from_le_bytes bs = Some x"
  shows "u32_to_le_bytes x = bs"
proof -
  from assms obtain b0 b1 b2 b3 where "bs = [b0, b1, b2, b3]"
    by (cases bs rule: u32_from_le_bytes.cases) auto
  with assms show ?thesis
    by (auto simp: u32_to_le_bytes_def bit_simps not_bit_u8 intro!: bit_word_eqI)
qed

section \<open>Dictionaries\<close>

text \<open>
  \<open>HashMap\<close> and \<open>BTreeMap\<close> are association lists: \<open>map_of\<close> is \<open>get\<close>, \<open>AList.update\<close> is
  \<open>insert\<close> and \<open>AList.delete\<close> is \<open>remove\<close>; the code only uses keyed access. \<open>wsum w m\<close> adds
  up the weight of every stored value. The locale states what the clients of a dictionary
  rely on, and the facts about ledgers kept over one are proved from that contract.
\<close>

definition wsum :: "('v \<Rightarrow> nat) \<Rightarrow> ('k \<times> 'v) list \<Rightarrow> nat" where
  "wsum w m = sum_list (map (w \<circ> snd) m)"

abbreviation keys :: "('k \<times> 'v) list \<Rightarrow> 'k set" where
  "keys m \<equiv> fst ` set m"

abbreviation uniq_keys :: "('k \<times> 'v) list \<Rightarrow> bool" where
  "uniq_keys m \<equiv> distinct (map fst m)"

locale dictionary =
  fixes get :: "'d \<Rightarrow> 'k \<Rightarrow> 'v option"
    and insert :: "'k \<Rightarrow> 'v \<Rightarrow> 'd \<Rightarrow> 'd"
    and remove :: "'k \<Rightarrow> 'd \<Rightarrow> 'd"
    and wf :: "'d \<Rightarrow> bool"
    and total :: "('v \<Rightarrow> nat) \<Rightarrow> 'd \<Rightarrow> nat"
  assumes get_insert: "get (insert k v d) = (get d)(k \<mapsto> v)"
    and get_remove: "wf d \<Longrightarrow> get (remove k d) = (get d)(k := None)"
    and wf_insert: "wf d \<Longrightarrow> wf (insert k v d)"
    and wf_remove: "wf d \<Longrightarrow> wf (remove k d)"
    and total_insert: "get d k = None \<Longrightarrow> total w (insert k v d) = total w d + w v"
    and total_remove: "wf d \<Longrightarrow> get d k = Some v \<Longrightarrow> total w d = total w (remove k d) + w v"
    and total_cong: "wf d \<Longrightarrow> (\<And>k v. get d k = Some v \<Longrightarrow> w v = w' v) \<Longrightarrow> total w d = total w' d"
begin

lemma total_ge: "wf d \<Longrightarrow> get d k = Some v \<Longrightarrow> w v \<le> total w d"
  by (simp add: total_remove)

text \<open>Changing the weight of the one value stored under \<open>k\<close> moves the total by the difference.\<close>

lemma total_reweigh:
  assumes wf: "wf d" and k: "get d k = Some v"
    and others: "\<And>k' v'. get d k' = Some v' \<Longrightarrow> k' \<noteq> k \<Longrightarrow> w' v' = w v'"
  shows "total w' d + w v = total w d + w' v"
proof -
  have "total w' (remove k d) = total w (remove k d)"
    using others by (intro total_cong) (auto simp: wf wf_remove get_remove split: if_splits)
  then show ?thesis
    using total_remove [OF wf k, of w] total_remove [OF wf k, of w'] by simp
qed

end

lemma wsum_simps [simp]:
  "wsum w [] = 0" "wsum w ((k, v) # m) = w v + wsum w m"
  by (simp_all add: wsum_def)

lemma wsum_update_fresh: "map_of m k = None \<Longrightarrow> wsum w (AList.update k v m) = wsum w m + w v"
  by (induction m) (auto split: if_splits)

lemma delete_idem_key: "\<forall>x\<in>set m. k \<noteq> fst x \<Longrightarrow> AList.delete k m = m"
  by (induction m) auto

lemma wsum_delete:
  "uniq_keys m \<Longrightarrow> map_of m k = Some v \<Longrightarrow> wsum w m = wsum w (AList.delete k m) + w v"
proof (induction m)
  case (Cons kv m)
  then show ?case
    by (cases kv) (auto split: if_splits simp: image_iff delete_idem_key)
qed simp

lemma wsum_cong:
  "uniq_keys m \<Longrightarrow> (\<And>k v. map_of m k = Some v \<Longrightarrow> w v = w' v) \<Longrightarrow> wsum w m = wsum w' m"
  unfolding wsum_def by (intro arg_cong [where f = sum_list] map_cong) auto

interpretation alist: dictionary map_of AList.update AList.delete uniq_keys wsum
proof unfold_locales
  show "map_of (AList.update k v d) = (map_of d)(k \<mapsto> v)" for k :: 'a and v :: 'b and d
    by (rule update_conv')
qed (auto simp: delete_conv' distinct_update distinct_delete wsum_update_fresh wsum_delete
    intro: wsum_cong)


section \<open>Fixed-width codecs\<close>

text \<open>
  A value with a fixed-width wire form at the start of a buffer. \<open>ok\<close> restricts the values
  that survive the encoding (a field may be narrower on the wire than in memory).
\<close>

locale prefix_codec =
  fixes enc :: "'a \<Rightarrow> u8 list"
    and dec :: "u8 list \<Rightarrow> 'a option"
    and width :: nat
    and ok :: "'a \<Rightarrow> bool"
  assumes enc_width: "length (enc a) = width"
    and dec_enc: "ok a \<Longrightarrow> dec (enc a @ rest) = Some a"
    and dec_sound: "dec bs = Some a \<Longrightarrow> ok a \<and> width \<le> length bs \<and> take width bs = enc a"
begin

lemma dec_split: "dec bs = Some a \<Longrightarrow> bs = enc a @ drop width bs"
  by (metis append_take_drop_id dec_sound)

lemma enc_inj: "ok a \<Longrightarrow> ok b \<Longrightarrow> enc a = enc b \<Longrightarrow> a = b"
  by (metis dec_enc option.inject)

lemma dec_iff: "dec bs = Some a \<longleftrightarrow> ok a \<and> (\<exists>rest. bs = enc a @ rest)"
  by (metis dec_enc dec_sound dec_split)

end

section \<open>Transition systems\<close>

inductive reach :: "('s \<Rightarrow> bool) \<Rightarrow> ('s \<Rightarrow> 's \<Rightarrow> bool) \<Rightarrow> 's \<Rightarrow> bool"
  for init :: "'s \<Rightarrow> bool" and step :: "'s \<Rightarrow> 's \<Rightarrow> bool" where
  reach_init: "init s \<Longrightarrow> reach init step s"
| reach_step: "reach init step s \<Longrightarrow> step s t \<Longrightarrow> reach init step t"

locale machine =
  fixes init :: "'s \<Rightarrow> bool" and step :: "'s \<Rightarrow> 's \<Rightarrow> bool" and inv :: "'s \<Rightarrow> bool"
  assumes inv_init: "init s \<Longrightarrow> inv s"
    and inv_step: "inv s \<Longrightarrow> step s t \<Longrightarrow> inv t"
begin

lemma reach_inv: "reach init step s \<Longrightarrow> inv s"
  by (induction rule: reach.induct) (auto intro: inv_init inv_step)

end

end
