(* ===== verification/Udx_Error.thy ===== *)
theory Udx_Error
  imports Udx_Prelude
begin

text \<open>
  Model of \<open>src/error.rs\<close> and of the part of \<open>std::io::Error\<close> the crate uses. An I/O error
  is its kind and what \<open>Display\<close> prints for it: the message for an error built with
  \<open>io::Error::new\<close>, the description of the kind for one built from a bare kind.
\<close>

datatype error_kind =
    ConnectionReset | UnexpectedEof | BrokenPipe | TimedOut | InvalidData
  | Interrupted | WouldBlock | PermissionDenied | OtherKind

record io_error =
  io_kind :: error_kind
  io_display :: string

record udx_error =
  ue_kind :: error_kind
  ue_reason :: string

definition io_error_new :: "error_kind \<Rightarrow> string \<Rightarrow> io_error" where
  "io_error_new k msg = \<lparr>io_kind = k, io_display = msg\<rparr>"

fun kind_description :: "error_kind \<Rightarrow> string" where
  "kind_description ConnectionReset = ''connection reset''"
| "kind_description UnexpectedEof = ''unexpected end of file''"
| "kind_description BrokenPipe = ''broken pipe''"
| "kind_description TimedOut = ''timed out''"
| "kind_description InvalidData = ''invalid data''"
| "kind_description Interrupted = ''operation interrupted''"
| "kind_description WouldBlock = ''operation would block''"
| "kind_description PermissionDenied = ''permission denied''"
| "kind_description OtherKind = ''other error''"

definition udx_error_new :: "error_kind \<Rightarrow> string \<Rightarrow> udx_error" where
  "udx_error_new k r = \<lparr>ue_kind = k, ue_reason = r\<rparr>"

definition close_graceful :: udx_error where
  "close_graceful = udx_error_new ConnectionReset ''''"

definition closed_by_remote :: udx_error where
  "closed_by_remote = udx_error_new UnexpectedEof ''''"

definition udx_error_from_io :: "io_error \<Rightarrow> udx_error" where
  "udx_error_from_io e = udx_error_new (io_kind e) (io_display e)"

text \<open>The conversion from a reference, which is not consumed.\<close>

definition udx_error_from_io_ref :: "io_error \<Rightarrow> udx_error" where
  "udx_error_from_io_ref e = udx_error_new (io_kind e) (io_display e)"

definition io_error_from_udx :: "udx_error \<Rightarrow> io_error" where
  "io_error_from_udx e = io_error_new (ue_kind e) (ue_reason e)"

definition udx_error_display :: "udx_error \<Rightarrow> string" where
  "udx_error_display e = kind_description (ue_kind e) @ '' '' @ ue_reason e"

text \<open>The two conversions lose nothing, so an error that a driver stores and a reader or
  writer later reports is the error that occurred.\<close>

lemma io_error_roundtrip [simp]: "io_error_from_udx (udx_error_from_io e) = e"
  by (simp add: io_error_from_udx_def udx_error_from_io_def udx_error_new_def io_error_new_def)

lemma udx_error_roundtrip [simp]: "udx_error_from_io (io_error_from_udx e) = e"
  by (simp add: io_error_from_udx_def udx_error_from_io_def udx_error_new_def io_error_new_def)

lemma udx_error_from_io_ref [simp]: "udx_error_from_io_ref e = udx_error_from_io e"
  by (simp add: udx_error_from_io_ref_def udx_error_from_io_def)

lemma udx_error_kinds [simp]:
  "ue_kind close_graceful = ConnectionReset" "ue_kind closed_by_remote = UnexpectedEof"
  "ue_kind (udx_error_from_io e) = io_kind e" "io_kind (io_error_from_udx u) = ue_kind u"
  by (simp_all add: close_graceful_def closed_by_remote_def udx_error_new_def
      udx_error_from_io_def io_error_from_udx_def io_error_new_def)

end
