(* ===== verification/Udx_Proto.thy ===== *)
theory Udx_Proto
  imports Udx_Error
begin

text \<open>
  Model of \<open>udx-udp/src/proto.rs\<close> and the data types of \<open>udx-udp/src/lib.rs\<close>: addresses,
  congestion codepoints, outgoing transmits and receive metadata. Addresses carry every
  field of \<open>std::net::SocketAddr\<close>.
\<close>

datatype ip_addr = IpV4 "32 word" | IpV6 "128 word"

datatype socket_addr =
    SocketAddrV4 "32 word" u16
  | SocketAddrV6 "128 word" u16 u32 u32

fun is_ipv4 :: "socket_addr \<Rightarrow> bool" where
  "is_ipv4 (SocketAddrV4 _ _) = True"
| "is_ipv4 (SocketAddrV6 _ _ _ _) = False"

datatype ecn_codepoint = Ect0 | Ect1 | Ce

fun ecn_bits :: "ecn_codepoint \<Rightarrow> u8" where
  "ecn_bits Ect0 = 2"
| "ecn_bits Ect1 = 1"
| "ecn_bits Ce = 3"

definition ecn_from_bits :: "u8 \<Rightarrow> ecn_codepoint option" where
  "ecn_from_bits x =
     (if x AND 3 = 2 then Some Ect0
      else if x AND 3 = 1 then Some Ect1
      else if x AND 3 = 3 then Some Ce
      else None)"

record transmit =
  t_destination :: socket_addr
  t_ecn :: "ecn_codepoint option"
  t_contents :: "u8 list"
  t_segment_size :: "usize option"
  t_src_ip :: "ip_addr option"

text \<open>A segment size of zero divides by zero, which panics.\<close>

definition num_segments :: "transmit \<Rightarrow> usize option" where
  "num_segments t =
     (case t_segment_size t of
        None \<Rightarrow> Some 1
      | Some sz \<Rightarrow> if sz = 0 then None else Some (length (t_contents t) div sz))"

record recv_meta =
  rm_addr :: socket_addr
  rm_len :: usize
  rm_ecn :: "ecn_codepoint option"
  rm_dst_ip :: "ip_addr option"

definition recv_meta_default :: recv_meta where
  "recv_meta_default =
     \<lparr>rm_addr = SocketAddrV6 0 0 0 0, rm_len = 0, rm_ecn = None, rm_dst_ip = None\<rparr>"

lemma ecn_from_bits_bits [simp]: "ecn_from_bits (ecn_bits c) = Some c"
  by (cases c) (simp_all add: ecn_from_bits_def)

lemma ecn_bits_from_bits: "ecn_from_bits x = Some c \<Longrightarrow> ecn_bits c = x AND 3"
  by (auto simp: ecn_from_bits_def split: if_splits)

lemma ecn_from_bits_mask: "ecn_from_bits (x AND 3) = ecn_from_bits x"
  by (simp add: ecn_from_bits_def and.assoc)

end
