(* ===== verification/Udx_Packet.thy ===== *)
theory Udx_Packet
  imports Udx_Proto
begin

text \<open>
  Model of \<open>src/packet.rs\<close> and of the constants of \<open>src/constants.rs\<close> that the code uses:
  the 20-byte header and its codec, packet buffers, packets with their atomic fields,
  packet sets and datagrams.

  An \<open>Arc<Packet>\<close> is an index into a list of packets, the cells that a stream and its
  socket share; the atomic fields of a cell change in place and both sides see it.
\<close>

section \<open>Constants\<close>

definition UDX_HEADER_DATA :: u32 where "UDX_HEADER_DATA = 1"
definition UDX_HEADER_END :: u32 where "UDX_HEADER_END = 2"
definition UDX_HEADER_SACK :: u32 where "UDX_HEADER_SACK = 4"
definition UDX_MAX_TRANSMITS :: u8 where "UDX_MAX_TRANSMITS = 5"
definition UDX_HEADER_SIZE :: usize where "UDX_HEADER_SIZE = 20"
definition UDX_MAX_DATA_SIZE :: usize where "UDX_MAX_DATA_SIZE = 1380"
definition UDX_MAGIC_BYTE :: u8 where "UDX_MAGIC_BYTE = 255"
definition UDX_VERSION :: u8 where "UDX_VERSION = 1"
definition UDX_MTU :: usize where "UDX_MTU = 1400"

type_synonym duration = nat \<comment> \<open>nanoseconds\<close>
type_synonym instant = nat \<comment> \<open>nanoseconds since an arbitrary origin\<close>

definition from_millis :: "nat \<Rightarrow> duration" where
  "from_millis ms = ms * 1000000"

definition UDX_CLOCK_GRANULARITY_MS :: duration where
  "UDX_CLOCK_GRANULARITY_MS = from_millis 20"

lemmas udx_constants =
  UDX_HEADER_DATA_def UDX_HEADER_END_def UDX_HEADER_SACK_def UDX_MAX_TRANSMITS_def
  UDX_HEADER_SIZE_def UDX_MAX_DATA_SIZE_def UDX_MAGIC_BYTE_def UDX_VERSION_def UDX_MTU_def
  from_millis_def UDX_CLOCK_GRANULARITY_MS_def

section \<open>The header\<close>

record header =
  hdr_typ :: u32
  hdr_data_offset :: usize
  hdr_stream_id :: u32
  hdr_recv_win :: u32
  hdr_seq :: u32
  hdr_ack :: u32

definition read_u32_le :: "u8 list \<Rightarrow> u32 option" where
  "read_u32_le buf = u32_from_le_bytes buf"

text \<open>The outer option is a panic (of a slice or of \<open>read_u32_le\<close>), the sum the \<open>Result\<close>.\<close>

definition header_from_bytes :: "u8 list \<Rightarrow> (io_error + header) option" where
  "header_from_bytes buf =
     (if length buf < UDX_HEADER_SIZE \<or> buf ! 0 \<noteq> UDX_MAGIC_BYTE \<or> buf ! 1 \<noteq> UDX_VERSION
      then Some (Inl (io_error_new InvalidData ''Bad header''))
      else do {
        let typ = ucast (buf ! 2);
        let data_offset = unat (buf ! 3);
        id_bytes \<leftarrow> slice buf 4 8;
        local_id \<leftarrow> read_u32_le id_bytes;
        win_bytes \<leftarrow> slice buf 8 12;
        recv_win \<leftarrow> read_u32_le win_bytes;
        seq_bytes \<leftarrow> slice buf 12 16;
        seq \<leftarrow> read_u32_le seq_bytes;
        ack_bytes \<leftarrow> slice buf 16 20;
        ack \<leftarrow> read_u32_le ack_bytes;
        Some (Inr \<lparr>hdr_typ = typ, hdr_data_offset = data_offset, hdr_stream_id = local_id,
                   hdr_recv_win = recv_win, hdr_seq = seq, hdr_ack = ack\<rparr>)
      })"

text \<open>\<open>encode\<close> writes into the buffer it is given: the result is the new content of the
  buffer and the returned flag.\<close>

definition header_encode :: "header \<Rightarrow> u8 list \<Rightarrow> u8 list \<times> bool" where
  "header_encode h buf =
     (if length buf < UDX_HEADER_SIZE then (buf, False)
      else let
        buf = buf[0 := UDX_MAGIC_BYTE];
        buf = buf[1 := UDX_VERSION];
        buf = copy_at 2 [ucast (hdr_typ h)] buf;
        buf = copy_at 3 [word_of_nat (hdr_data_offset h)] buf;
        buf = copy_at 4 (u32_to_le_bytes (hdr_stream_id h)) buf;
        buf = copy_at 8 (u32_to_le_bytes (hdr_recv_win h)) buf;
        buf = copy_at 12 (u32_to_le_bytes (hdr_seq h)) buf;
        buf = copy_at 16 (u32_to_le_bytes (hdr_ack h)) buf
      in (buf, True))"

section \<open>Packets\<close>

datatype packet_buf = Data "u8 list" | HeaderOnly "u8 list"

fun as_slice :: "packet_buf \<Rightarrow> u8 list" where
  "as_slice (Data vec) = vec"
| "as_slice (HeaderOnly array) = array"

fun map_mut_slice :: "(u8 list \<Rightarrow> u8 list) \<Rightarrow> packet_buf \<Rightarrow> packet_buf" where
  "map_mut_slice f (Data vec) = Data (f vec)"
| "map_mut_slice f (HeaderOnly array) = HeaderOnly (f array)"

definition packet_buf_len :: "packet_buf \<Rightarrow> usize" where
  "packet_buf_len b = length (as_slice b)"

fun packet_buf_into_vec :: "packet_buf \<Rightarrow> u8 list" where
  "packet_buf_into_vec (Data buf) = buf"
| "packet_buf_into_vec (HeaderOnly buf) = buf"

record packet =
  p_waiting :: bool
  p_skip :: bool
  p_time_sent :: "instant option"
  p_transmits :: usize
  p_dest :: socket_addr
  p_header :: header
  p_buf :: packet_buf

definition packet_new :: "socket_addr \<Rightarrow> header \<Rightarrow> u8 list \<Rightarrow> packet" where
  "packet_new dest header body =
     (let buf = (if body = [] then HeaderOnly (replicate 20 0)
                 else let len = UDX_HEADER_SIZE + length body in Data (replicate len 0));
          buf = map_mut_slice (\<lambda>b. fst (header_encode header (take UDX_HEADER_SIZE b))
                                    @ drop UDX_HEADER_SIZE b) buf;
          buf = (if body \<noteq> [] then map_mut_slice (copy_at UDX_HEADER_SIZE body) buf else buf)
      in \<lparr>p_waiting = False, p_skip = False, p_time_sent = None, p_transmits = 0,
          p_dest = dest, p_header = header, p_buf = buf\<rparr>)"

definition packet_seq :: "packet \<Rightarrow> u32" where
  "packet_seq p = hdr_seq (p_header p)"

definition packet_len :: "packet \<Rightarrow> usize" where
  "packet_len p = packet_buf_len (p_buf p)"

definition packet_data_len :: "packet \<Rightarrow> usize" where
  "packet_data_len p = saturating_sub (packet_buf_len (p_buf p)) UDX_HEADER_SIZE"

definition packet_to_transmit :: "packet \<Rightarrow> transmit" where
  "packet_to_transmit p =
     \<lparr>t_destination = p_dest p, t_ecn = None, t_contents = as_slice (p_buf p),
      t_segment_size = None, t_src_ip = None\<rparr>"

definition transmit_from_packet :: "packet \<Rightarrow> transmit" where
  "transmit_from_packet p =
     \<lparr>t_destination = p_dest p, t_ecn = None, t_contents = packet_buf_into_vec (p_buf p),
      t_segment_size = None, t_src_ip = None\<rparr>"

section \<open>Packet references and packet sets\<close>

type_synonym arc = nat
type_synonym heap = "packet list"

datatype packet_ref = Owned packet | Shared arc

fun deref :: "heap \<Rightarrow> packet_ref \<Rightarrow> packet" where
  "deref h (Owned p) = p"
| "deref h (Shared a) = h ! a"

record packet_set =
  ps_dest :: socket_addr
  ps_segment_size :: "usize option"
  ps_packets :: "packet_ref list"

definition packet_set_new :: "socket_addr \<Rightarrow> packet_ref list \<Rightarrow> usize \<Rightarrow> packet_set" where
  "packet_set_new dest packets segment_size =
     \<lparr>ps_dest = dest, ps_segment_size = Some segment_size, ps_packets = packets\<rparr>"

definition packet_set_len :: "packet_set \<Rightarrow> usize" where
  "packet_set_len ps = length (ps_packets ps)"

definition iter_shared :: "packet_set \<Rightarrow> arc list" where
  "iter_shared ps =
     List.map_filter (\<lambda>r. case r of Shared a \<Rightarrow> Some a | Owned _ \<Rightarrow> None) (ps_packets ps)"

definition packet_set_to_transmit :: "heap \<Rightarrow> packet_set \<Rightarrow> transmit option" where
  "packet_set_to_transmit h ps =
     (case ps_segment_size ps of
        None \<Rightarrow>
          (case ps_packets ps of
             [r] \<Rightarrow> Some (packet_to_transmit (deref h r))
           | _ \<Rightarrow> None)
      | Some segment_size \<Rightarrow>
          let segments = length (ps_packets ps);
              buf = concat (map (as_slice \<circ> p_buf)
                      (filter (\<lambda>p. \<not> p_skip p) (map (deref h) (ps_packets ps))))
          in Some \<lparr>t_destination = ps_dest ps, t_ecn = None, t_contents = buf,
                   t_segment_size = (if segments = 1 then None else Some segment_size),
                   t_src_ip = None\<rparr>)"

section \<open>Datagrams and incoming packets\<close>

record dgram =
  dg_buf :: "u8 list"
  dg_dest :: socket_addr

definition dgram_new :: "socket_addr \<Rightarrow> u8 list \<Rightarrow> dgram" where
  "dgram_new dest buf = \<lparr>dg_buf = buf, dg_dest = dest\<rparr>"

definition dgram_into_transmit :: "dgram \<Rightarrow> transmit" where
  "dgram_into_transmit d =
     \<lparr>t_destination = dg_dest d, t_ecn = None, t_contents = dg_buf d,
      t_segment_size = None, t_src_ip = None\<rparr>"

record incoming_packet =
  ip_header :: header
  ip_buf :: "u8 list"
  ip_read_offset :: usize
  ip_from :: socket_addr

definition has_type :: "incoming_packet \<Rightarrow> u32 \<Rightarrow> bool" where
  "has_type p typ \<longleftrightarrow> hdr_typ (ip_header p) AND typ \<noteq> 0"

abbreviation incoming_ack :: "incoming_packet \<Rightarrow> u32" where
  "incoming_ack p \<equiv> hdr_ack (ip_header p)"

abbreviation incoming_seq :: "incoming_packet \<Rightarrow> u32" where
  "incoming_seq p \<equiv> hdr_seq (ip_header p)"

definition incoming_data_len :: "incoming_packet \<Rightarrow> usize" where
  "incoming_data_len p = length (ip_buf p)"


section \<open>The wire form of a header\<close>

text \<open>\<open>header_bytes\<close> is the reference layout: magic, version, type, data offset, then the
  four \<open>u32\<close> fields in little-endian order. \<open>header_fits\<close> holds of the headers whose two
  one-byte fields are not truncated on the wire.\<close>

definition header_bytes :: "header \<Rightarrow> u8 list" where
  "header_bytes h =
     [255, 1, ucast (hdr_typ h), word_of_nat (hdr_data_offset h)]
     @ u32_to_le_bytes (hdr_stream_id h) @ u32_to_le_bytes (hdr_recv_win h)
     @ u32_to_le_bytes (hdr_seq h) @ u32_to_le_bytes (hdr_ack h)"

definition header_fits :: "header \<Rightarrow> bool" where
  "header_fits h \<longleftrightarrow> unat (hdr_typ h) < 256 \<and> hdr_data_offset h < 256"

lemma length_header_bytes [simp]: "length (header_bytes h) = 20"
  by (simp add: header_bytes_def)

lemma list_update_front2: "2 \<le> length buf \<Longrightarrow> buf[0 := a, Suc 0 := b] = a # b # drop 2 buf"
  by (cases buf; cases "tl buf") auto

lemma copy_at_prefix:
  "length xs = off \<Longrightarrow> n = off + length bytes
     \<Longrightarrow> copy_at off bytes (xs @ drop off buf) = (xs @ bytes) @ drop n buf"
  by (simp add: copy_at_def add.commute)

lemma header_encode_eq:
  assumes "20 \<le> length buf"
  shows "header_encode h buf = (header_bytes h @ drop 20 buf, True)"
proof -
  have "buf[0 := 255, 1 := 1] = [255, 1] @ drop 2 buf"
    using assms by (simp add: list_update_front2)
  then show ?thesis
    using assms unfolding header_encode_def header_bytes_def udx_constants Let_def
    by (simp only: copy_at_prefix [of _ 2 3] copy_at_prefix [of _ 3 4] copy_at_prefix [of _ 4 8]
        copy_at_prefix [of _ 8 12] copy_at_prefix [of _ 12 16] copy_at_prefix [of _ 16 20]
        list.size length_append length_u32_to_le_bytes if_not_P not_less) simp
qed

lemma header_encode_short: "length buf < 20 \<Longrightarrow> header_encode h buf = (buf, False)"
  by (simp add: header_encode_def udx_constants)

lemma ucast_u8_u32: "unat (w :: u32) < 256 \<Longrightarrow> ucast (ucast w :: u8) = w"
  by (simp add: word_unat_eq_iff unsigned_ucast_eq unsigned_take_bit_eq take_bit_nat_eq_self)

lemma unat_u8_less: "unat (b :: u8) < 256"
  using unsigned_less [of b, where 'a = nat] by simp

lemma ucast_u32_u8 [simp]: "ucast (ucast b :: u32) = (b :: u8)"
  by (rule bit_word_eqI) (simp add: bit_simps)

lemma unat_ucast_u8_u32 [simp]: "unat (ucast (b :: u8) :: u32) = unat b"
  using unat_u8_less [of b] by (simp add: unsigned_ucast_eq take_bit_nat_eq_self)

lemma header_from_bytes_header_bytes:
  "header_fits h \<Longrightarrow> header_from_bytes (header_bytes h @ rest) = Some (Inr h)"
  by (simp add: header_fits_def header_from_bytes_def udx_constants header_bytes_def slice_def
      read_u32_le_def ucast_u8_u32 unat_of_nat)

lemma take_4_nth: "4 \<le> length xs \<Longrightarrow> take 4 xs = [xs ! 0, xs ! 1, xs ! 2, xs ! 3]"
  by (auto simp: Suc_le_length_iff numeral_eq_Suc)

lemma take_20_fields:
  assumes "20 \<le> length buf"
  shows "take 20 buf = [buf ! 0, buf ! 1, buf ! 2, buf ! 3] @ take 4 (drop 4 buf)
     @ take 4 (drop 8 buf) @ take 4 (drop 12 buf) @ take 4 (drop 16 buf)"
proof -
  have "take 20 buf = take 4 buf @ take 4 (drop 4 buf) @ take 4 (drop 8 buf)
      @ take 4 (drop 12 buf) @ take 4 (drop 16 buf)"
    using take_add [of 16 4 buf] take_add [of 12 4 buf] take_add [of 8 4 buf] take_add [of 4 4 buf]
    by simp
  moreover have "take 4 buf = [buf ! 0, buf ! 1, buf ! 2, buf ! 3]"
    using take_4_nth [of buf] assms by simp
  ultimately show ?thesis by simp
qed

lemma u32_from_le_bytes_total: "length bs = 4 \<Longrightarrow> \<exists>x. u32_from_le_bytes bs = Some x"
  by (auto simp: eval_nat_numeral length_Suc_conv)

lemma header_from_bytes_total: "header_from_bytes buf \<noteq> None"
proof -
  have "\<exists>x. u32_from_le_bytes (take 4 (drop k buf)) = Some x" if "k + 4 \<le> length buf" for k
    using that by (intro u32_from_le_bytes_total) simp
  from this [of 4] this [of 8] this [of 12] this [of 16] show ?thesis
    by (auto simp: header_from_bytes_def udx_constants slice_def read_u32_le_def)
qed

lemma header_from_bytes_Inr:
  assumes "header_from_bytes buf = Some (Inr h)"
  shows "20 \<le> length buf \<and> buf ! 0 = 255 \<and> buf ! 1 = 1
     \<and> hdr_typ h = ucast (buf ! 2) \<and> hdr_data_offset h = unat (buf ! 3)
     \<and> u32_from_le_bytes (take 4 (drop 4 buf)) = Some (hdr_stream_id h)
     \<and> u32_from_le_bytes (take 4 (drop 8 buf)) = Some (hdr_recv_win h)
     \<and> u32_from_le_bytes (take 4 (drop 12 buf)) = Some (hdr_seq h)
     \<and> u32_from_le_bytes (take 4 (drop 16 buf)) = Some (hdr_ack h)"
proof (cases "length buf < 20 \<or> buf ! 0 \<noteq> 255 \<or> buf ! 1 \<noteq> 1")
  case True
  then show ?thesis using assms by (simp add: header_from_bytes_def udx_constants)
next
  case False
  then show ?thesis using assms
    by (clarsimp simp: header_from_bytes_def udx_constants slice_def read_u32_le_def
        bind_eq_Some_conv)
qed

lemma header_from_bytes_sound:
  assumes "header_from_bytes buf = Some (Inr h)"
  shows "header_fits h \<and> 20 \<le> length buf \<and> take 20 buf = header_bytes h"
proof -
  note h = header_from_bytes_Inr [OF assms]
  then have "take 4 (drop 4 buf) = u32_to_le_bytes (hdr_stream_id h)"
    and "take 4 (drop 8 buf) = u32_to_le_bytes (hdr_recv_win h)"
    and "take 4 (drop 12 buf) = u32_to_le_bytes (hdr_seq h)"
    and "take 4 (drop 16 buf) = u32_to_le_bytes (hdr_ack h)"
    by (auto dest: u32_to_le_bytes_of_from)
  with h show ?thesis
    by (simp add: header_fits_def header_bytes_def take_20_fields unat_u8_less)
qed


definition header_dec :: "u8 list \<Rightarrow> header option" where
  "header_dec bs = (case header_from_bytes bs of Some (Inr h) \<Rightarrow> Some h | _ \<Rightarrow> None)"

lemma header_dec_eq_Some: "header_dec bs = Some h \<longleftrightarrow> header_from_bytes bs = Some (Inr h)"
  by (auto simp: header_dec_def split: option.splits sum.splits)

interpretation u32_le: prefix_codec u32_to_le_bytes "\<lambda>bs. read_u32_le (take 4 bs)" 4 "\<lambda>_. True"
proof unfold_locales
  fix bs x
  assume "read_u32_le (take 4 bs) = Some x"
  then have eq: "u32_to_le_bytes x = take 4 bs"
    by (auto simp: read_u32_le_def dest: u32_to_le_bytes_of_from)
  then have "length (take 4 bs) = 4" by (metis length_u32_to_le_bytes)
  with eq show "True \<and> 4 \<le> length bs \<and> take 4 bs = u32_to_le_bytes x" by simp
qed (simp_all add: read_u32_le_def)

interpretation hdr: prefix_codec header_bytes header_dec 20 header_fits
  by unfold_locales
    (auto simp: header_dec_eq_Some header_from_bytes_header_bytes dest: header_from_bytes_sound)

section \<open>Packet buffers\<close>

lemma packet_new_bytes [simp]:
  "as_slice (p_buf (packet_new d h body)) = header_bytes h @ body"
  by (simp add: packet_new_def udx_constants header_encode_eq copy_at_def Let_def)

lemma packet_new_simps [simp]:
  "p_waiting (packet_new d h body) = False" "p_skip (packet_new d h body) = False"
  "p_time_sent (packet_new d h body) = None" "p_transmits (packet_new d h body) = 0"
  "p_dest (packet_new d h body) = d" "p_header (packet_new d h body) = h"
  by (simp_all add: packet_new_def Let_def)

lemma packet_new_len [simp]:
  "packet_len (packet_new d h body) = 20 + length body"
  "packet_buf_len (p_buf (packet_new d h body)) = 20 + length body"
  by (simp_all add: packet_len_def packet_buf_len_def)

lemma packet_new_data_len [simp]: "packet_data_len (packet_new d h body) = length body"
  by (simp add: packet_data_len_def saturating_sub_def udx_constants)

lemma packet_new_seq [simp]: "packet_seq (packet_new d h body) = hdr_seq h"
  by (simp add: packet_seq_def)

section \<open>Properties of the codec\<close>

text \<open>C21: Encoding a header into any buffer of at least 20 bytes succeeds, leaves the length and
  the bytes behind the header alone, and decoding the buffer gives the header back, provided
  that its type and data offset fit into the one byte they have on the wire.\<close>

theorem header_round_trip:
  assumes "header_fits h" "UDX_HEADER_SIZE \<le> length buf"
  shows "\<exists>out. header_encode h buf = (out, True) \<and> length out = length buf
     \<and> drop UDX_HEADER_SIZE out = drop UDX_HEADER_SIZE buf
     \<and> header_from_bytes out = Some (Inr h)"
  using assms header_from_bytes_header_bytes [of h "drop 20 buf"]
  by (simp add: header_encode_eq udx_constants)

theorem header_round_trip_witness:
  "\<exists>out. header_encode \<lparr>hdr_typ = 3, hdr_data_offset = 0, hdr_stream_id = 7, hdr_recv_win = 4294967295,
        hdr_seq = 258, hdr_ack = 65536\<rparr> (replicate 22 9) = (out, True)
     \<and> length out = length (replicate 22 (9 :: u8))
     \<and> drop UDX_HEADER_SIZE out = drop UDX_HEADER_SIZE (replicate 22 9)
     \<and> header_from_bytes out = Some (Inr \<lparr>hdr_typ = 3, hdr_data_offset = 0, hdr_stream_id = 7,
        hdr_recv_win = 4294967295, hdr_seq = 258, hdr_ack = 65536\<rparr>)"
  by (rule header_round_trip) (simp_all add: header_fits_def udx_constants)

text \<open>C22: Decoding never panics. It accepts exactly the buffers of at least 20 bytes that begin
  with the magic byte and the version, reports \<open>InvalidData\<close> on every other buffer, and what it
  accepts is reproduced byte for byte when the decoded header is encoded into the buffer.\<close>

theorem header_from_bytes_correct:
  "if UDX_HEADER_SIZE \<le> length buf \<and> buf ! 0 = UDX_MAGIC_BYTE \<and> buf ! 1 = UDX_VERSION
   then \<exists>h. header_from_bytes buf = Some (Inr h) \<and> header_fits h \<and> header_encode h buf = (buf, True)
   else \<exists>e. header_from_bytes buf = Some (Inl e) \<and> io_kind e = InvalidData"
proof (cases "20 \<le> length buf \<and> buf ! 0 = 255 \<and> buf ! 1 = 1")
  case True
  then have "header_from_bytes buf \<noteq> Some (Inl e)" for e
    by (auto simp: header_from_bytes_def udx_constants bind_eq_Some_conv slice_def)
  with header_from_bytes_total [of buf] obtain h where h: "header_from_bytes buf = Some (Inr h)"
    by (metis not_None_eq sum.exhaust)
  from header_from_bytes_sound [OF h] have "header_encode h buf = (buf, True)"
    by (metis append_take_drop_id header_encode_eq)
  with True h header_from_bytes_sound [OF h] show ?thesis by (simp add: udx_constants)
next
  case False
  then show ?thesis by (auto simp: header_from_bytes_def udx_constants io_error_new_def)
qed

end
