(* ===== verification/Udx_Stream.thy ===== *)
theory Udx_Stream
  imports Udx_Packet
begin

text \<open>
  Model of \<open>src/stream.rs\<close>: the connection state of one stream and every operation on it.

  One record holds \<open>UdxStreamInner\<close>. Four of its fields stand for what the stream shares
  with its surroundings: \<open>s_heap\<close> the cells behind the \<open>Arc<Packet>\<close>s, \<open>s_send_tx\<close> the
  events this stream has put into the channel to the socket, \<open>s_woken\<close> the tasks whose
  waker was called and \<open>s_close_sent\<close> the close listeners that were notified, both oldest
  first. A \<open>Waker\<close> and a \<open>oneshot::Sender\<close> are names of the task and the listener.

  What the runtime decides is an argument of type \<open>env\<close>: the clock, whether the retransmit
  timer has expired, how many messages the receive channel yields before it reports
  \<open>Pending\<close>, and the waker of the polling task.
\<close>

section \<open>Data\<close>

datatype stream_state = Open | LocalClosed | RemoteClosed | BothClosed

fun close_local :: "stream_state \<Rightarrow> stream_state" where
  "close_local RemoteClosed = BothClosed"
| "close_local BothClosed = BothClosed"
| "close_local _ = LocalClosed"

fun close_remote :: "stream_state \<Rightarrow> stream_state" where
  "close_remote LocalClosed = BothClosed"
| "close_remote BothClosed = BothClosed"
| "close_remote _ = RemoteClosed"

definition local_closed :: "stream_state \<Rightarrow> bool" where
  "local_closed st \<longleftrightarrow> st = LocalClosed \<or> st = BothClosed"

definition remote_closed :: "stream_state \<Rightarrow> bool" where
  "remote_closed st \<longleftrightarrow> st = RemoteClosed \<or> st = BothClosed"

definition state_closed :: "stream_state \<Rightarrow> bool" where
  "state_closed st \<longleftrightarrow> local_closed st \<or> remote_closed st"

record stream_stats =
  st_tx_packets :: usize
  st_tx_bytes :: usize
  st_rx_bytes :: usize
  st_rx_packets :: usize
  st_inflight_packets :: usize
  st_inflight_bytes :: usize

datatype event_incoming = EventPacket incoming_packet

datatype event_outgoing =
    Transmit packet_set
  | TransmitDgram dgram
  | StreamDropped u32

datatype 'a poll = Pending | Ready 'a

type_synonym waker = nat
type_synonym oneshot = nat

record env =
  e_now :: instant
  e_elapsed :: "instant \<Rightarrow> duration"
  e_sleep_ready :: "instant \<Rightarrow> bool"
  e_recv_budget :: nat
  e_waker :: waker

record udx_stream =
  s_heap :: heap
  s_send_tx :: "event_outgoing list"
  s_send_open :: bool
  s_recv_rx :: "event_incoming list"
  s_recv_open :: bool
  s_incoming :: "(u32 \<times> incoming_packet) list"
  s_outgoing :: "(u32 \<times> arc) list"
  s_send_queue :: "packet_ref list"
  s_remote_id :: u32
  s_local_id :: u32
  s_remote_addr :: socket_addr
  s_seq :: u32
  s_seq_flushed :: u32
  s_ack :: u32
  s_remote_acked :: u32
  s_inflight :: usize
  s_cwnd :: usize
  s_rto :: duration
  s_rto_timeout :: instant
  s_rttvar :: duration
  s_srtt :: duration
  s_read_cursor :: u32
  s_read_waker :: "waker option"
  s_write_waker :: "waker option"
  s_drive_waker :: "waker option"
  s_error :: "udx_error option"
  s_on_close :: "oneshot option"
  s_on_firewall :: "(socket_addr \<Rightarrow> bool) option"
  s_stats :: stream_stats
  s_state :: stream_state
  s_max_gso_segments :: usize
  s_woken :: "waker list"
  s_close_sent :: "oneshot list"

definition SSTHRESH :: usize where "SSTHRESH = 0xffff"
definition MAX_SEGMENTS :: usize where "MAX_SEGMENTS = 10"

definition stream_stats_default :: stream_stats where
  "stream_stats_default =
     \<lparr>st_tx_packets = 0, st_tx_bytes = 0, st_rx_bytes = 0, st_rx_packets = 0,
      st_inflight_packets = 0, st_inflight_bytes = 0\<rparr>"

text \<open>\<open>UdxStream::connect\<close>: \<open>now\<close> is the clock, \<open>h\<close> the packet cells that exist already and
  \<open>gso\<close> the current value of \<open>udp_state\<close>.\<close>

definition stream_connect ::
  "instant \<Rightarrow> heap \<Rightarrow> usize \<Rightarrow> socket_addr \<Rightarrow> u32 \<Rightarrow> u32 \<Rightarrow> udx_stream" where
  "stream_connect now h gso dest remote_id local_id =
     (let rto = from_millis 1000 in
      \<lparr>s_heap = h, s_send_tx = [], s_send_open = True, s_recv_rx = [], s_recv_open = True,
       s_incoming = [], s_outgoing = [], s_send_queue = [],
       s_remote_id = remote_id, s_local_id = local_id, s_remote_addr = dest,
       s_seq = 0, s_seq_flushed = 0, s_ack = 0, s_remote_acked = 0,
       s_inflight = 0, s_cwnd = 2 * UDX_MTU,
       s_rto = rto, s_rto_timeout = now + rto, s_rttvar = 0, s_srtt = 0,
       s_read_cursor = 0, s_read_waker = None, s_write_waker = None, s_drive_waker = None,
       s_error = None, s_on_close = None, s_on_firewall = None,
       s_stats = stream_stats_default, s_state = Open, s_max_gso_segments = gso,
       s_woken = [], s_close_sent = []\<rparr>)"

section \<open>Wakers\<close>

definition wake_reader :: "udx_stream \<Rightarrow> udx_stream" where
  "wake_reader s =
     (case s_read_waker s of
        None \<Rightarrow> s
      | Some w \<Rightarrow> s\<lparr>s_read_waker := None, s_woken := s_woken s @ [w]\<rparr>)"

definition wake_writer :: "udx_stream \<Rightarrow> udx_stream" where
  "wake_writer s =
     (case s_write_waker s of
        None \<Rightarrow> s
      | Some w \<Rightarrow> s\<lparr>s_write_waker := None, s_woken := s_woken s @ [w]\<rparr>)"

definition wake_driver :: "udx_stream \<Rightarrow> udx_stream" where
  "wake_driver s =
     (case s_drive_waker s of
        None \<Rightarrow> s
      | Some w \<Rightarrow> s\<lparr>s_drive_waker := None, s_woken := s_woken s @ [w]\<rparr>)"

section \<open>Creating packets, closing\<close>

definition create_header :: "udx_stream \<Rightarrow> u32 \<Rightarrow> header" where
  "create_header s typ =
     (let typ = (if local_closed (s_state s) then typ AND UDX_HEADER_END else typ) in
      \<lparr>hdr_typ = typ, hdr_data_offset = 0, hdr_stream_id = s_remote_id s,
       hdr_recv_win = u32_max, hdr_seq = s_seq s, hdr_ack = s_ack s\<rparr>)"

definition create_packet :: "udx_stream \<Rightarrow> u32 \<Rightarrow> u8 list \<Rightarrow> packet" where
  "create_packet s typ body = packet_new (s_remote_addr s) (create_header s typ) body"

definition send_state_packet :: "udx_stream \<Rightarrow> udx_stream" where
  "send_state_packet s =
     (let typ = (if s_error s \<noteq> None then 0 OR UDX_HEADER_END else 0);
          packet = create_packet s typ [];
          s = s\<lparr>s_send_queue := s_send_queue s @ [Owned packet]\<rparr>;
          s = wake_driver s
      in s\<lparr>s_stats := (s_stats s)\<lparr>st_tx_packets := st_tx_packets (s_stats s) + 1\<rparr>\<rparr>)"

definition terminate :: "udx_error \<Rightarrow> udx_stream \<Rightarrow> udx_stream" where
  "terminate e s =
     (let s = s\<lparr>s_error := Some e\<rparr>;
          s = s\<lparr>s_state := close_local (s_state s)\<rparr>;
          s = send_state_packet s;
          s = wake_reader s;
          s = wake_writer s
      in wake_driver s)"

definition closed_and_drained :: "udx_stream \<Rightarrow> bool" where
  "closed_and_drained s \<longleftrightarrow> s_error s \<noteq> None \<and> s_send_queue s = [] \<and> s_outgoing s = []"

text \<open>\<open>UdxStream::close\<close> with the listener \<open>tx\<close>, and the \<open>Drop\<close> of a handle when
  \<open>strong_count\<close> references were left.\<close>

definition stream_close :: "oneshot \<Rightarrow> udx_stream \<Rightarrow> udx_stream" where
  "stream_close tx s = (terminate close_graceful s)\<lparr>s_on_close := Some tx\<rparr>"

definition stream_drop :: "nat \<Rightarrow> udx_stream \<Rightarrow> udx_stream" where
  "stream_drop strong_count s =
     (if strong_count \<le> 2 then terminate close_graceful s else s)"

text \<open>\<open>UdxStream::closed\<close>.\<close>

definition stream_closed :: "udx_stream \<Rightarrow> bool" where
  "stream_closed s = state_closed (s_state s)"

section \<open>Retransmission timeout and the congestion window\<close>

text \<open>The loop over \<open>remote_acked..seq\<close> that considers every packet in flight lost.\<close>

fun mark_lost :: "u32 list \<Rightarrow> udx_stream \<Rightarrow> (udx_stream \<times> (io_error + unit)) option" where
  "mark_lost [] s = Some (s, Inr ())"
| "mark_lost (i # is) s =
     (case map_of (s_outgoing s) i of
        None \<Rightarrow> mark_lost is s
      | Some a \<Rightarrow>
          let p = s_heap s ! a in
          if p_waiting p then mark_lost is s
          else if p_transmits p > unat UDX_MAX_TRANSMITS
          then Some (s, Inl (io_error_new TimedOut ''Max retransmits reached without ack''))
          else do {
            let p' = p\<lparr>p_transmits := p_transmits p + 1, p_waiting := True\<rparr>;
            inflight \<leftarrow> usize_sub (s_inflight s) (packet_len p);
            mark_lost is (s\<lparr>s_heap := (s_heap s)[a := p'], s_inflight := inflight\<rparr>)
          })"

definition poll_check_timeouts ::
  "env \<Rightarrow> udx_stream \<Rightarrow> (udx_stream \<times> (io_error + unit)) option" where
  "poll_check_timeouts env s =
     (if \<not> e_sleep_ready env (s_rto_timeout s) then Some (s, Inr ())
      else if s_remote_acked s = s_seq s then Some (s, Inr ())
      else
        let s = s\<lparr>s_rto_timeout := e_now env + 2 * s_rto s\<rparr>;
            s = s\<lparr>s_cwnd := max UDX_MTU (s_cwnd s div 2)\<rparr>
        in mark_lost (u32_range (s_remote_acked s) (s_seq s)) s)"

fun flush_loop :: "u32 list \<Rightarrow> udx_stream \<Rightarrow> udx_stream" where
  "flush_loop [] s = s"
| "flush_loop (i # is) s =
     (case map_of (s_outgoing s) i of
        None \<Rightarrow> flush_loop is s
      | Some a \<Rightarrow>
          let p = s_heap s ! a in
          if \<not> p_waiting p then flush_loop is s
          else if s_inflight s + packet_len p > s_cwnd s then s
          else flush_loop is
            (s\<lparr>s_heap := (s_heap s)[a := p\<lparr>p_waiting := False\<rparr>],
               s_inflight := s_inflight s + packet_len p,
               s_send_queue := s_send_queue s @ [Shared a]\<rparr>))"

definition flush_waiting_packets :: "udx_stream \<Rightarrow> udx_stream" where
  "flush_waiting_packets s = flush_loop (u32_range (s_remote_acked s) (s_seq s)) s"

section \<open>Handing packets to the socket\<close>

text \<open>A failing \<open>send\<close> inside the loop is \<open>unimplemented!()\<close>, a panic; a failing \<open>send\<close> of the
  last set is only logged.\<close>

function transmit_loop ::
  "usize \<Rightarrow> usize \<Rightarrow> packet_ref list \<Rightarrow> udx_stream
     \<Rightarrow> (usize \<times> packet_ref list \<times> udx_stream) option" where
  "transmit_loop max_segments segment_size queue s =
     (case s_send_queue s of
        [] \<Rightarrow> Some (segment_size, queue, s)
      | r # rest \<Rightarrow>
          let s = s\<lparr>s_send_queue := rest\<rparr>;
              len = packet_buf_len (p_buf (deref (s_heap s) r))
          in
          if len \<noteq> segment_size \<or> length queue = max_segments then
            if queue \<noteq> [] then
              let pset = packet_set_new (s_remote_addr s) queue segment_size in
              if \<not> s_send_open s then None
              else transmit_loop max_segments len [r]
                     (s\<lparr>s_send_tx := s_send_tx s @ [Transmit pset]\<rparr>)
            else transmit_loop max_segments len [r] s
          else transmit_loop max_segments segment_size (queue @ [r]) s)"
  by pat_completeness auto
termination
  by (relation "measure (\<lambda>(m, g, q, s). length (s_send_queue s))") auto

declare transmit_loop.simps [simp del]

definition poll_transmit :: "udx_stream \<Rightarrow> udx_stream option" where
  "poll_transmit s = do {
     let max_segments = min (s_max_gso_segments s) MAX_SEGMENTS;
     (segment_size, queue, s) \<leftarrow> transmit_loop max_segments 0 [] s;
     if queue \<noteq> [] then
       let pset = packet_set_new (s_remote_addr s) queue segment_size in
       if s_send_open s then Some (s\<lparr>s_send_tx := s_send_tx s @ [Transmit pset]\<rparr>)
       else Some s
     else Some s
   }"


section \<open>Acknowledgements\<close>

text \<open>\<open>rtt_sample\<close> is the body of the timing update on the three fields it writes: smoothed
  round trip time, its variation and the timeout.\<close>

definition rtt_sample ::
  "duration \<Rightarrow> duration \<times> duration \<times> duration \<Rightarrow> duration \<times> duration \<times> duration" where
  "rtt_sample rtt = (\<lambda>(srtt, rttvar, rto).
     let (srtt, rttvar, rto) =
       (if srtt = 0 then
          let srtt = rtt;
              rttvar = rtt div 2;
              rto = srtt + max UDX_CLOCK_GRANULARITY_MS (4 * rttvar)
          in (srtt, rttvar, rto)
        else
          let delta = (if rtt < srtt then srtt - rtt else rtt - srtt);
              rttvar = (3 * rttvar + delta) div 4;
              srtt = (7 * srtt + rtt) div 8
          in (srtt, rttvar, rto));
       rto = max (from_millis 1000) (srtt + max UDX_CLOCK_GRANULARITY_MS (4 * rttvar))
     in (srtt, rttvar, rto))"

definition update_rtt :: "env \<Rightarrow> packet \<Rightarrow> udx_stream \<Rightarrow> udx_stream" where
  "update_rtt env p s =
     (case p_time_sent p of
        None \<Rightarrow> s
      | Some t \<Rightarrow>
          if p_transmits p = 1 then
            let (srtt, rttvar, rto) = rtt_sample (e_elapsed env t) (s_srtt s, s_rttvar s, s_rto s)
            in s\<lparr>s_srtt := srtt, s_rttvar := rttvar, s_rto := rto\<rparr>
          else s)"

definition handle_remote_ack_for_packet :: "env \<Rightarrow> arc \<Rightarrow> udx_stream \<Rightarrow> udx_stream option" where
  "handle_remote_ack_for_packet env a s = do {
     let p = s_heap s ! a;
     s \<leftarrow> (if \<not> p_waiting p then do {
             inflight \<leftarrow> usize_sub (s_inflight s) (packet_buf_len (p_buf p));
             Some (s\<lparr>s_inflight := inflight\<rparr>)
           } else Some s);
     bytes \<leftarrow> usize_sub (st_inflight_bytes (s_stats s)) (packet_data_len p);
     packets \<leftarrow> usize_sub (st_inflight_packets (s_stats s)) 1;
     let s = s\<lparr>s_stats := (s_stats s)\<lparr>st_inflight_bytes := bytes, st_inflight_packets := packets\<rparr>\<rparr>;
     let s = update_rtt env p s;
     Some (s\<lparr>s_heap := (s_heap s)[a := p\<lparr>p_skip := True\<rparr>]\<rparr>)
   }"

lemma update_rtt_remote_acked: "s_remote_acked (update_rtt env p s) = s_remote_acked s"
  by (simp add: update_rtt_def split: option.splits prod.splits)

lemma handle_remote_ack_remote_acked:
  "handle_remote_ack_for_packet env a s = Some t \<Longrightarrow> s_remote_acked t = s_remote_acked s"
  by (auto simp: handle_remote_ack_for_packet_def Let_def bind_eq_Some_conv
      update_rtt_remote_acked split: if_splits)

text \<open>\<open>while self.remote_acked < ack\<close>: drop every packet below the acknowledged number.\<close>

definition ack_body :: "env \<Rightarrow> udx_stream \<Rightarrow> udx_stream option" where
  "ack_body env s = do {
     n \<leftarrow> u32_inc (s_remote_acked s);
     let s = s\<lparr>s_remote_acked := n\<rparr>;
     let i = s_remote_acked s - 1;
     case map_of (s_outgoing s) i of
       Some a \<Rightarrow> handle_remote_ack_for_packet env a (s\<lparr>s_outgoing := AList.delete i (s_outgoing s)\<rparr>)
     | None \<Rightarrow> Some s
   }"

lemma ack_body_remote_acked:
  "ack_body env s = Some t
     \<Longrightarrow> s_remote_acked s \<noteq> u32_max \<and> s_remote_acked t = s_remote_acked s + 1"
  by (auto simp: ack_body_def Let_def bind_eq_Some_conv panic_simps
      dest: handle_remote_ack_remote_acked split: option.splits)

function ack_loop :: "env \<Rightarrow> u32 \<Rightarrow> udx_stream \<Rightarrow> udx_stream option" where
  "ack_loop env ack s =
     (if s_remote_acked s < ack then do {
        s \<leftarrow> ack_body env s;
        ack_loop env ack s
      } else Some s)"
  by pat_completeness auto
termination
  by (relation "measure (\<lambda>(env, ack, s). unat ack - unat (s_remote_acked s))")
    (auto simp: word_less_nat_alt unat_u32_inc dest!: ack_body_remote_acked)

declare ack_loop.simps [simp del]

definition handle_incoming_max_remote_ack ::
  "env \<Rightarrow> u32 \<Rightarrow> udx_stream \<Rightarrow> udx_stream option" where
  "handle_incoming_max_remote_ack env ack s =
     (if ack \<le> s_remote_acked s then Some s
      else do {
        s \<leftarrow> ack_loop env ack s;
        let s = (if s_inflight s + UDX_MTU \<le> s_cwnd s then wake_writer s else s);
        Some (s\<lparr>s_rto_timeout := e_now env + s_rto s\<rparr>)
      })"

fun sack_range :: "env \<Rightarrow> u32 list \<Rightarrow> udx_stream \<Rightarrow> udx_stream option" where
  "sack_range env [] s = Some s"
| "sack_range env (i # is) s =
     (case map_of (s_outgoing s) i of
        None \<Rightarrow> sack_range env is s
      | Some a \<Rightarrow> do {
          s \<leftarrow> handle_remote_ack_for_packet env a
                (s\<lparr>s_outgoing := AList.delete i (s_outgoing s)\<rparr>);
          sack_range env is s
        })"

function sack_loop :: "env \<Rightarrow> u8 list \<Rightarrow> usize \<Rightarrow> udx_stream \<Rightarrow> udx_stream option" where
  "sack_loop env buf i s =
     (if i + 8 < length buf then do {
        start_bytes \<leftarrow> slice buf i (i + 4);
        start \<leftarrow> read_u32_le start_bytes;
        let i = i + 4;
        end_bytes \<leftarrow> slice buf i (i + 4);
        end_seq \<leftarrow> read_u32_le end_bytes;
        let i = i + 4;
        s \<leftarrow> sack_range env (u32_range start end_seq) s;
        sack_loop env buf i s
      } else Some s)"
  by pat_completeness auto
termination
  by (relation "measure (\<lambda>(env, buf, i, s). length buf - i)") auto

declare sack_loop.simps [simp del]

definition handle_incoming_sacks :: "env \<Rightarrow> incoming_packet \<Rightarrow> udx_stream \<Rightarrow> udx_stream option" where
  "handle_incoming_sacks env packet s = sack_loop env (ip_buf packet) 0 s"

section \<open>Incoming packets\<close>

text \<open>\<open>while self.incoming.contains_key(&self.ack) { self.ack += 1 }\<close>\<close>

function advance_ack :: "udx_stream \<Rightarrow> udx_stream option" where
  "advance_ack s =
     (if map_of (s_incoming s) (s_ack s) \<noteq> None then do {
        n \<leftarrow> u32_inc (s_ack s);
        advance_ack (s\<lparr>s_ack := n\<rparr>)
      } else Some s)"
  by pat_completeness auto
termination
  by (relation "measure (\<lambda>s. unat u32_max - unat (s_ack s))")
    (auto simp: panic_simps unat_u32_inc dest!: unat_less_max)

declare advance_ack.simps [simp del]

definition receive_data :: "incoming_packet \<Rightarrow> udx_stream \<Rightarrow> udx_stream option" where
  "receive_data packet s = do {
     let s = s\<lparr>s_stats := (s_stats s)\<lparr>st_rx_bytes :=
                 st_rx_bytes (s_stats s) + incoming_data_len packet\<rparr>\<rparr>;
     let seq = incoming_seq packet;
     let s = (if seq \<ge> s_ack s then s\<lparr>s_incoming := AList.update seq packet (s_incoming s)\<rparr>
              else s);
     s \<leftarrow> advance_ack s;
     let s = (if seq \<le> s_ack s then wake_reader s else s);
     Some (send_state_packet s)
   }"

definition grow_cwnd :: "udx_stream \<Rightarrow> udx_stream" where
  "grow_cwnd s =
     (if s_cwnd s < SSTHRESH then s\<lparr>s_cwnd := s_cwnd s + UDX_MTU\<rparr>
      else s\<lparr>s_cwnd := s_cwnd s + max ((UDX_MTU * UDX_MTU) div s_cwnd s) 1\<rparr>)"

definition handle_incoming :: "env \<Rightarrow> incoming_packet \<Rightarrow> udx_stream \<Rightarrow> udx_stream option" where
  "handle_incoming env packet s =
     (let pass = (case s_on_firewall s of
                    None \<Rightarrow> True
                  | Some on_firewall \<Rightarrow> on_firewall (ip_from packet))
      in if \<not> pass then Some s
      else do {
        let s = s\<lparr>s_stats := (s_stats s)\<lparr>st_rx_packets := st_rx_packets (s_stats s) + 1\<rparr>\<rparr>;
        s \<leftarrow> (if has_type packet UDX_HEADER_SACK then handle_incoming_sacks env packet s
              else Some s);
        let header = ip_header packet;
        let s = (if has_type packet UDX_HEADER_END
                 then terminate closed_by_remote (s\<lparr>s_state := close_remote (s_state s)\<rparr>)
                 else s);
        s \<leftarrow> (if has_type packet UDX_HEADER_DATA then receive_data packet s else Some s);
        if hdr_ack header > s_seq s then Some s
        else if hdr_ack header > s_remote_acked s then Some (grow_cwnd s)
        else Some s
      })"

fun incoming_loop ::
  "env \<Rightarrow> nat \<Rightarrow> u32 \<Rightarrow> udx_stream \<Rightarrow> (udx_stream \<times> (io_error + u32)) option" where
  "incoming_loop env 0 remote_ack s = Some (s, Inr remote_ack)"
| "incoming_loop env (Suc n) remote_ack s =
     (case s_recv_rx s of
        [] \<Rightarrow>
          if s_recv_open s then Some (s, Inr remote_ack)
          else Some (s, Inl (io_error_new BrokenPipe ''Socket driver future was dropped''))
      | EventPacket packet # rest \<Rightarrow> do {
          let s = s\<lparr>s_recv_rx := rest\<rparr>;
          let remote_ack = max remote_ack (incoming_ack packet);
          s \<leftarrow> handle_incoming env packet s;
          incoming_loop env n remote_ack s
        })"

definition poll_incoming :: "env \<Rightarrow> udx_stream \<Rightarrow> (udx_stream \<times> (io_error + unit)) option" where
  "poll_incoming env s = do {
     (s, r) \<leftarrow> incoming_loop env (e_recv_budget env) 0 s;
     case r of
       Inl e \<Rightarrow> Some (s, Inl e)
     | Inr remote_ack \<Rightarrow> do {
         s \<leftarrow> handle_incoming_max_remote_ack env remote_ack s;
         Some (s, Inr ())
       }
   }"

section \<open>Driving the stream\<close>

definition poll_drive :: "env \<Rightarrow> udx_stream \<Rightarrow> (udx_stream \<times> (io_error + bool)) option" where
  "poll_drive env s = do {
     (s, r) \<leftarrow> poll_incoming env s;
     case r of
       Inl e \<Rightarrow> Some (s, Inl e)
     | Inr _ \<Rightarrow> do {
         (s, r) \<leftarrow> poll_check_timeouts env s;
         case r of
           Inl e \<Rightarrow> Some (s, Inl e)
         | Inr _ \<Rightarrow> do {
             let s = flush_waiting_packets s;
             s \<leftarrow> poll_transmit s;
             Some (s, Inr False)
           }
       }
   }"

definition stream_driver_poll :: "env \<Rightarrow> udx_stream \<Rightarrow> (udx_stream \<times> unit poll) option" where
  "stream_driver_poll env s = (
     let s = s\<lparr>s_drive_waker := None\<rparr> in
     if closed_and_drained s then
       let s = (case s_on_close s of
                  None \<Rightarrow> s
                | Some tx \<Rightarrow> s\<lparr>s_on_close := None, s_close_sent := s_close_sent s @ [tx]\<rparr>);
           s = (if s_send_open s
                then s\<lparr>s_send_tx := s_send_tx s @ [StreamDropped (s_local_id s)]\<rparr> else s)
       in Some (s, Ready ())
     else do {
       (s, r) \<leftarrow> poll_drive env s;
       let (s, should_continue) =
         (case r of
            Inr should_continue \<Rightarrow> (s, should_continue)
          | Inl err \<Rightarrow> (terminate (udx_error_from_io err) s, True));
       if should_continue then Some (s\<lparr>s_woken := s_woken s @ [e_waker env]\<rparr>, Pending)
       else Some (s\<lparr>s_drive_waker := Some (e_waker env)\<rparr>, Pending)
     })"


section \<open>Reading and writing\<close>

text \<open>A \<open>ReadBuf\<close> is what has been filled in and its capacity.\<close>

record read_buf =
  rb_filled :: "u8 list"
  rb_capacity :: usize

definition rb_remaining :: "read_buf \<Rightarrow> usize" where
  "rb_remaining rb = rb_capacity rb - length (rb_filled rb)"

definition put_slice :: "u8 list \<Rightarrow> read_buf \<Rightarrow> read_buf option" where
  "put_slice bytes rb =
     (if length bytes \<le> rb_remaining rb then Some (rb\<lparr>rb_filled := rb_filled rb @ bytes\<rparr>)
      else None)"

lemma length_delete_less: "map_of m k \<noteq> None \<Longrightarrow> length (AList.delete k m) < length m"
proof (induction m)
  case (Cons kv m)
  then show ?case
    by (cases kv) (use length_delete_le [of k m] in \<open>auto simp: less_Suc_eq_le split: if_splits\<close>)
qed simp

function read_next ::
  "read_buf \<Rightarrow> bool \<Rightarrow> udx_stream \<Rightarrow> (udx_stream \<times> read_buf \<times> bool) option" where
  "read_next buf did_read s =
     (case map_of (s_incoming s) (s_read_cursor s) of
        None \<Rightarrow> Some (s, buf, did_read)
      | Some packet \<Rightarrow> do {
          let s = s\<lparr>s_incoming := AList.delete (s_read_cursor s) (s_incoming s)\<rparr>;
          let start = ip_read_offset packet;
          len \<leftarrow> usize_sub (length (ip_buf packet)) start;
          if len > rb_remaining buf then do {
            let end_off = start + rb_remaining buf;
            bytes \<leftarrow> slice (ip_buf packet) start end_off;
            buf \<leftarrow> put_slice bytes buf;
            let packet = packet\<lparr>ip_read_offset := end_off\<rparr>;
            Some (s\<lparr>s_incoming := AList.update (incoming_seq packet) packet (s_incoming s)\<rparr>,
                  buf, did_read)
          } else do {
            bytes \<leftarrow> slice (ip_buf packet) start (length (ip_buf packet));
            buf \<leftarrow> put_slice bytes buf;
            n \<leftarrow> u32_inc (s_read_cursor s);
            read_next buf True (s\<lparr>s_read_cursor := n\<rparr>)
          }
        })"
  by pat_completeness auto
termination
  by (relation "measure (\<lambda>(buf, did_read, s). length (s_incoming s))")
    (auto simp: length_delete_less)

declare read_next.simps [simp del]

definition poll_read ::
  "env \<Rightarrow> read_buf \<Rightarrow> udx_stream \<Rightarrow> (udx_stream \<times> read_buf \<times> (io_error + unit) poll) option" where
  "poll_read env buf s = do {
     (s, buf, did_read) \<leftarrow> read_next buf False s;
     if \<not> did_read then
       case s_error s of
         Some error \<Rightarrow> Some (s, buf, Ready (Inl (io_error_from_udx error)))
       | None \<Rightarrow> Some (s\<lparr>s_read_waker := Some (e_waker env)\<rparr>, buf, Pending)
     else Some (s, buf, Ready (Inr ()))
   }"

definition send_data_packet :: "u8 list \<Rightarrow> udx_stream \<Rightarrow> (udx_stream \<times> usize) option" where
  "send_data_packet buf s = (
     let len = min (length buf) UDX_MAX_DATA_SIZE in
     if s_inflight s + len > s_cwnd s then Some (s, 0)
     else do {
       let packet = create_packet s UDX_HEADER_DATA (take len buf);
       let arc = length (s_heap s);
       let s = s\<lparr>s_heap := s_heap s @ [packet]\<rparr>;
       seq \<leftarrow> u32_inc (s_seq s);
       let s = s\<lparr>s_seq := seq\<rparr>;
       let st = s_stats s;
       let s = s\<lparr>s_stats := st\<lparr>st_inflight_bytes := st_inflight_bytes st + packet_data_len packet,
                               st_tx_bytes := st_tx_bytes st + packet_data_len packet,
                               st_tx_packets := st_tx_packets st + 1,
                               st_inflight_packets := st_inflight_packets st + 1\<rparr>\<rparr>;
       let s = s\<lparr>s_outgoing := AList.update (packet_seq packet) arc (s_outgoing s)\<rparr>;
       let s = s\<lparr>s_inflight := s_inflight s + packet_buf_len (p_buf packet)\<rparr>;
       let s = s\<lparr>s_send_queue := s_send_queue s @ [Shared arc]\<rparr>;
       Some (wake_driver s, len)
     })"

function write_loop ::
  "env \<Rightarrow> u8 list \<Rightarrow> usize \<Rightarrow> udx_stream \<Rightarrow> (udx_stream \<times> (io_error + usize) poll) option" where
  "write_loop env buf written s =
     (if written \<ge> length buf then Some (s, Ready (Inr written))
      else do {
        (s, n) \<leftarrow> send_data_packet (drop written buf) s;
        if n = 0 then
          if written = 0 then Some (s\<lparr>s_write_waker := Some (e_waker env)\<rparr>, Pending)
          else Some (s, Ready (Inr written))
        else write_loop env buf (written + n) s
      })"
  by pat_completeness auto
termination
  by (relation "measure (\<lambda>(env, buf, written, s). length buf - written)") auto

declare write_loop.simps [simp del]

definition poll_write ::
  "env \<Rightarrow> u8 list \<Rightarrow> udx_stream \<Rightarrow> (udx_stream \<times> (io_error + usize) poll) option" where
  "poll_write env buf s =
     (case s_error s of
        Some error \<Rightarrow> Some (s, Ready (Inl (io_error_from_udx error)))
      | None \<Rightarrow>
          if buf = [] then Some (s, Ready (Inr 0))
          else write_loop env buf 0 s)"

definition poll_flush :: "udx_stream \<Rightarrow> udx_stream \<times> (io_error + unit) poll" where
  "poll_flush s = (s, Ready (Inr ()))"

definition poll_shutdown :: "udx_stream \<Rightarrow> udx_stream \<times> (io_error + unit) poll" where
  "poll_shutdown s = (s, Ready (Inr ()))"

end
