(* ===== verification/Udx_Udp.thy ===== *)
theory Udx_Udp
  imports Udx_Stream
begin

text \<open>
  Model of the crate \<open>udx-udp\<close>: control messages (\<open>cmsg.rs\<close>), preparing and decoding messages,
  the send and receive loops of the three platforms (\<open>unix.rs\<close> with and without batching,
  \<open>fallback.rs\<close>), socket options and the detection of segmentation offload.

  The kernel and \<open>libc\<close> are arguments. A system call's results are given as the list of what
  its successive invocations return, readiness of the socket as the list of what successive
  polls report; a call whose retries exhaust the list does not return, which is \<open>None\<close> like
  a panic. The control message macros of \<open>libc\<close> are the fields of \<open>cmsg_abi\<close>, what their
  documentation promises is \<open>abi_ok\<close>. Control message levels and types are symbolic.
\<close>

section \<open>Targets and control messages\<close>

record target =
  tg_linux :: bool
  tg_macos :: bool
  tg_freebsd :: bool

record cmsg_abi =
  abi_space :: "usize \<Rightarrow> usize" \<comment> \<open>\<open>CMSG_SPACE\<close>\<close>
  abi_len :: "usize \<Rightarrow> usize" \<comment> \<open>\<open>CMSG_LEN\<close>\<close>
  abi_align :: usize \<comment> \<open>\<open>align_of::<cmsghdr>()\<close>\<close>

datatype cmsg_level = IPPROTO_IP | IPPROTO_IPV6 | SOL_UDP | OtherLevel nat
datatype cmsg_type =
  IP_TOS | IP_RECVTOS | IP_PKTINFO | IPV6_TCLASS | IPV6_PKTINFO | UDP_SEGMENT | OtherType nat

record cmsg =
  cm_level :: cmsg_level
  cm_type :: cmsg_type
  cm_len :: usize
  cm_data :: "u8 list"

record encoder =
  en_controllen :: usize
  en_cmsg :: "usize option" \<comment> \<open>offset of the next free header\<close>
  en_len :: usize
  en_msgs :: "cmsg list"

definition CMSG_LEN_CONST :: usize where "CMSG_LEN_CONST = 88"

text \<open>\<open>CMSG_FIRSTHDR\<close> and \<open>CMSG_NXTHDR\<close>: a header at an offset, if one still fits.\<close>

definition header_at :: "cmsg_abi \<Rightarrow> usize \<Rightarrow> usize \<Rightarrow> usize option" where
  "header_at abi controllen off = (if off + abi_len abi 0 \<le> controllen then Some off else None)"

definition encoder_new :: "cmsg_abi \<Rightarrow> usize \<Rightarrow> encoder" where
  "encoder_new abi controllen =
     \<lparr>en_controllen = controllen, en_cmsg = header_at abi controllen 0, en_len = 0, en_msgs = []\<rparr>"

text \<open>\<open>Encoder::push\<close> of a value with the given alignment and bytes.\<close>

definition push :: "cmsg_abi \<Rightarrow> cmsg_level \<Rightarrow> cmsg_type \<Rightarrow> usize \<Rightarrow> u8 list \<Rightarrow> encoder \<Rightarrow> encoder option" where
  "push abi level ty align value enc =
     (if align > abi_align abi then None
      else let space = abi_space abi (length value) in
      if en_controllen enc < en_len enc + space then None
      else case en_cmsg enc of
        None \<Rightarrow> None
      | Some off \<Rightarrow> Some (enc\<lparr>
          en_msgs := en_msgs enc @ [\<lparr>cm_level = level, cm_type = ty,
            cm_len = abi_len abi (length value), cm_data = value\<rparr>],
          en_len := en_len enc + space,
          en_cmsg := header_at abi (en_controllen enc) (off + space)\<rparr>))"

text \<open>\<open>finish\<close>: what is left in the message header is the length written and the messages.\<close>

definition encoder_finish :: "encoder \<Rightarrow> usize \<times> cmsg list" where
  "encoder_finish enc = (en_len enc, en_msgs enc)"

text \<open>\<open>cmsg::decode\<close>: the bytes of a payload that must have exactly this size.\<close>

definition decode :: "cmsg_abi \<Rightarrow> usize \<Rightarrow> usize \<Rightarrow> cmsg \<Rightarrow> u8 list option" where
  "decode abi align sz cm =
     (if align > abi_align abi then None
      else if cm_len cm \<noteq> abi_len abi sz then None
      else slice (cm_data cm) 0 sz)"

section \<open>Preparing a message\<close>

definition v4_octets :: "32 word \<Rightarrow> u8 list" where
  "v4_octets x = map (\<lambda>i. ucast (drop_bit (24 - 8 * i) x)) [0..<4]"

definition v6_octets :: "128 word \<Rightarrow> u8 list" where
  "v6_octets x = map (\<lambda>i. ucast (drop_bit (120 - 8 * i) x)) [0..<16]"

definition u16_to_le_bytes :: "u16 \<Rightarrow> u8 list" where
  "u16_to_le_bytes x = [ucast x, ucast (drop_bit 8 x)]"

record msg =
  m_dest :: socket_addr
  m_payload :: "u8 list"
  m_controllen :: usize
  m_control :: "cmsg list"

definition set_segment_size :: "target \<Rightarrow> cmsg_abi \<Rightarrow> u16 \<Rightarrow> encoder \<Rightarrow> encoder option" where
  "set_segment_size tg abi sz enc =
     (if tg_linux tg then push abi SOL_UDP UDP_SEGMENT 2 (u16_to_le_bytes sz) enc else None)"

definition prepare_msg :: "target \<Rightarrow> cmsg_abi \<Rightarrow> transmit \<Rightarrow> msg option" where
  "prepare_msg tg abi t = do {
     let enc = encoder_new abi CMSG_LEN_CONST;
     let ecn = (case t_ecn t of None \<Rightarrow> 0 | Some c \<Rightarrow> ecn_bits c);
     enc \<leftarrow> (if is_ipv4 (t_destination t) then
               (if tg_freebsd tg then push abi IPPROTO_IP IP_TOS 1 [ecn] enc
                else push abi IPPROTO_IP IP_TOS 4 (u32_to_le_bytes (ucast ecn)) enc)
             else push abi IPPROTO_IPV6 IPV6_TCLASS 4 (u32_to_le_bytes (ucast ecn)) enc);
     enc \<leftarrow> (case t_segment_size t of
               None \<Rightarrow> Some enc
             | Some sz \<Rightarrow> set_segment_size tg abi (word_of_nat sz) enc);
     enc \<leftarrow> (case t_src_ip t of
               None \<Rightarrow> Some enc
             | Some ip \<Rightarrow>
                 if \<not> tg_linux tg then Some enc
                 else (case ip of
                   IpV4 v4 \<Rightarrow> push abi IPPROTO_IP IP_PKTINFO 4
                     (replicate 4 0 @ v4_octets v4 @ replicate 4 0) enc
                 | IpV6 v6 \<Rightarrow> push abi IPPROTO_IPV6 IPV6_PKTINFO 4 (v6_octets v6 @ replicate 4 0) enc));
     let (len, msgs) = encoder_finish enc;
     Some \<lparr>m_dest = t_destination t, m_payload = t_contents t, m_controllen = len, m_control = msgs\<rparr>
   }"

section \<open>Sending\<close>

record os_error =
  os_kind :: error_kind
  os_display :: string
  os_raw :: nat

definition EIO :: nat where "EIO = 5"

definition io_of_os :: "os_error \<Rightarrow> io_error" where
  "io_of_os e = io_error_new (os_kind e) (os_display e)"

datatype sys_result = SysOk usize | SysErr os_error

datatype 'r readiness = NotReady | ReadyError io_error | IsReady "'r list"

definition BATCH_SIZE_UNIX :: usize where "BATCH_SIZE_UNIX = 32"
definition BATCH_SIZE_SINGLE :: usize where "BATCH_SIZE_SINGLE = 1"

definition IO_ERROR_LOG_INTERVAL :: duration where
  "IO_ERROR_LOG_INTERVAL = from_millis 60000"

definition log_sendmsg_error :: "instant \<Rightarrow> instant \<Rightarrow> instant" where
  "log_sendmsg_error now last_send_error =
     (if now - last_send_error > IO_ERROR_LOG_INTERVAL then now else last_send_error)"

text \<open>The outcome of sending: the segmentation limit, the time of the last logged error, the
  transmits the kernel took, and the result.\<close>

type_synonym sent = "usize \<times> instant \<times> transmit list"

fun send_loop ::
  "target \<Rightarrow> instant \<Rightarrow> transmit list \<Rightarrow> usize \<Rightarrow> usize \<Rightarrow> instant \<Rightarrow> sys_result list
     \<Rightarrow> (sent \<times> (io_error + usize)) option" where
  "send_loop tg now transmits num gso lse [] = None"
| "send_loop tg now transmits num gso lse (SysOk n # calls) =
     Some ((gso, lse, take n transmits), Inr n)"
| "send_loop tg now transmits num gso lse (SysErr e # calls) =
     (case os_kind e of
        Interrupted \<Rightarrow> send_loop tg now transmits num gso lse calls
      | PermissionDenied \<Rightarrow> Some ((gso, lse, []), Inl (io_error_new WouldBlock ''''))
      | WouldBlock \<Rightarrow> Some ((gso, lse, []), Inl (io_of_os e))
      | _ \<Rightarrow>
          let gso = (if tg_linux tg \<and> os_raw e = EIO then (if gso > 1 then 1 else gso) else gso) in
          if transmits = [] then None
          else let lse = log_sendmsg_error now lse in
          Some ((gso, lse, []), Inr (min num 1)))"

definition unix_send ::
  "target \<Rightarrow> cmsg_abi \<Rightarrow> instant \<Rightarrow> usize \<Rightarrow> instant \<Rightarrow> transmit list \<Rightarrow> sys_result list
     \<Rightarrow> (sent \<times> (io_error + usize)) option" where
  "unix_send tg abi now gso lse transmits calls = do {
     _ \<leftarrow> those (map (prepare_msg tg abi) (take BATCH_SIZE_UNIX transmits));
     let num_transmits = min (length transmits) BATCH_SIZE_UNIX;
     send_loop tg now transmits num_transmits gso lse calls
   }"

fun mac_send_loop ::
  "target \<Rightarrow> cmsg_abi \<Rightarrow> instant \<Rightarrow> usize \<Rightarrow> transmit list \<Rightarrow> instant \<Rightarrow> transmit list \<Rightarrow> usize
     \<Rightarrow> sys_result list \<Rightarrow> (sent \<times> (io_error + usize)) option" where
  "mac_send_loop tg abi now gso transmits lse taken sent [] =
     (if sent < length transmits then None else Some ((gso, lse, taken), Inr sent))"
| "mac_send_loop tg abi now gso transmits lse taken sent (call # calls) =
     (if sent < length transmits then do {
        _ \<leftarrow> prepare_msg tg abi (transmits ! sent);
        case call of
          SysErr e \<Rightarrow>
            (case os_kind e of
               Interrupted \<Rightarrow> mac_send_loop tg abi now gso transmits lse taken sent calls
             | WouldBlock \<Rightarrow>
                 if sent \<noteq> 0 then Some ((gso, lse, taken), Inr sent)
                 else Some ((gso, lse, taken), Inl (io_of_os e))
             | _ \<Rightarrow> mac_send_loop tg abi now gso transmits (log_sendmsg_error now lse) taken (sent + 1) calls)
        | SysOk _ \<Rightarrow>
            mac_send_loop tg abi now gso transmits lse (taken @ [transmits ! sent]) (sent + 1) calls
      } else Some ((gso, lse, taken), Inr sent))"

definition mac_send ::
  "target \<Rightarrow> cmsg_abi \<Rightarrow> instant \<Rightarrow> usize \<Rightarrow> instant \<Rightarrow> transmit list \<Rightarrow> sys_result list
     \<Rightarrow> (sent \<times> (io_error + usize)) option" where
  "mac_send tg abi now gso lse transmits calls =
     mac_send_loop tg abi now gso transmits lse [] 0 calls"

text \<open>\<open>UdpSocket::poll_send\<close> of \<open>unix.rs\<close>: \<open>try_io\<close> turns a \<open>WouldBlock\<close> of the send into
  another round; \<open>send\<close> is the platform's send.\<close>

fun poll_send_loop ::
  "(usize \<Rightarrow> instant \<Rightarrow> transmit list \<Rightarrow> sys_result list \<Rightarrow> (sent \<times> (io_error + usize)) option)
     \<Rightarrow> usize \<Rightarrow> instant \<Rightarrow> transmit list \<Rightarrow> sys_result readiness list
     \<Rightarrow> (sent \<times> (io_error + usize) poll) option" where
  "poll_send_loop send gso lse transmits [] = Some ((gso, lse, []), Pending)"
| "poll_send_loop send gso lse transmits (NotReady # _) = Some ((gso, lse, []), Pending)"
| "poll_send_loop send gso lse transmits (ReadyError e # _) = Some ((gso, lse, []), Ready (Inl e))"
| "poll_send_loop send gso lse transmits (IsReady calls # rs) = do {
     ((gso, lse, taken), res) \<leftarrow> send gso lse transmits calls;
     case res of
       Inl e \<Rightarrow>
         if io_kind e = WouldBlock then poll_send_loop send gso lse transmits rs
         else Some ((gso, lse, taken), Ready res)
     | Inr _ \<Rightarrow> Some ((gso, lse, taken), Ready res)
   }"

record send_env =
  sn_now :: instant
  sn_ready :: "sys_result readiness list"

definition unix_poll_send ::
  "target \<Rightarrow> cmsg_abi \<Rightarrow> send_env \<Rightarrow> usize \<Rightarrow> instant \<Rightarrow> transmit list
     \<Rightarrow> (sent \<times> (io_error + usize) poll) option" where
  "unix_poll_send tg abi sn gso lse transmits =
     poll_send_loop (unix_send tg abi (sn_now sn)) gso lse transmits (sn_ready sn)"

definition mac_poll_send ::
  "target \<Rightarrow> cmsg_abi \<Rightarrow> send_env \<Rightarrow> usize \<Rightarrow> instant \<Rightarrow> transmit list
     \<Rightarrow> (sent \<times> (io_error + usize) poll) option" where
  "mac_poll_send tg abi sn gso lse transmits =
     poll_send_loop (mac_send tg abi (sn_now sn)) gso lse transmits (sn_ready sn)"

text \<open>\<open>fallback.rs\<close>: each readiness is what \<open>poll_send_to\<close> returns for the next transmit.\<close>

fun fallback_send_loop ::
  "instant \<Rightarrow> usize \<Rightarrow> instant \<Rightarrow> transmit list \<Rightarrow> usize \<Rightarrow> transmit list \<Rightarrow> (os_error + unit) poll list
     \<Rightarrow> (sent \<times> (io_error + usize) poll) option" where
  "fallback_send_loop now gso lse taken sent [] rs = Some ((gso, lse, taken), Ready (Inr sent))"
| "fallback_send_loop now gso lse taken sent (t # ts) rs =
     (case (case rs of [] \<Rightarrow> Pending | r # _ \<Rightarrow> r) of
        Ready (Inr _) \<Rightarrow> fallback_send_loop now gso lse (taken @ [t]) (sent + 1) ts (tl rs)
      | Ready (Inl e) \<Rightarrow>
          if sent \<noteq> 0 then Some ((gso, lse, taken), Ready (Inr sent))
          else if os_kind e = WouldBlock then None
          else fallback_send_loop now gso (log_sendmsg_error now lse) taken (sent + 1) ts (tl rs)
      | Pending \<Rightarrow>
          if sent \<noteq> 0 then Some ((gso, lse, taken), Ready (Inr sent))
          else Some ((gso, lse, taken), Pending))"

record fallback_env =
  fb_now :: instant
  fb_polls :: "(os_error + unit) poll list"

definition fallback_poll_send ::
  "fallback_env \<Rightarrow> usize \<Rightarrow> instant \<Rightarrow> transmit list \<Rightarrow> (sent \<times> (io_error + usize) poll) option" where
  "fallback_poll_send fb gso lse transmits =
     fallback_send_loop (fb_now fb) gso lse [] 0 transmits (fb_polls fb)"

section \<open>Receiving\<close>

datatype sock_name = NameAddr socket_addr | NameOther

record recv_msg =
  rv_name :: sock_name
  rv_control :: "cmsg list"
  rv_data :: "u8 list"
  rv_trunc :: bool

datatype recv_result = RecvErr os_error | RecvOk "recv_msg list"

definition v4_of_octets :: "u8 list \<Rightarrow> 32 word" where
  "v4_of_octets bs = foldl (\<lambda>x b. push_bit 8 x OR ucast b) 0 bs"

definition v6_of_octets :: "u8 list \<Rightarrow> 128 word" where
  "v6_of_octets bs = foldl (\<lambda>x b. push_bit 8 x OR ucast b) 0 bs"

text \<open>One control message, on the bits and the destination found so far.\<close>

definition decode_cmsg ::
  "target \<Rightarrow> cmsg_abi \<Rightarrow> cmsg \<Rightarrow> u8 \<times> ip_addr option \<Rightarrow> (u8 \<times> ip_addr option) option" where
  "decode_cmsg tg abi cm = (\<lambda>(bits, dst).
     if cm_level cm = IPPROTO_IP \<and> (cm_type cm = IP_TOS \<or> cm_type cm = IP_RECVTOS) then do {
       bs \<leftarrow> decode abi 1 1 cm;
       Some (bs ! 0, dst)
     } else if cm_level cm = IPPROTO_IPV6 \<and> cm_type cm = IPV6_TCLASS then
       (if tg_macos tg \<and> cm_len cm = abi_len abi 1 then do {
          bs \<leftarrow> decode abi 1 1 cm;
          Some (bs ! 0, dst)
        } else do {
          bs \<leftarrow> decode abi 4 4 cm;
          Some (bs ! 0, dst)
        })
     else if cm_level cm = IPPROTO_IP \<and> cm_type cm = IP_PKTINFO then do {
       bs \<leftarrow> decode abi 4 12 cm;
       Some (bits, Some (IpV4 (v4_of_octets (take 4 (drop 8 bs)))))
     } else if cm_level cm = IPPROTO_IPV6 \<and> cm_type cm = IPV6_PKTINFO then do {
       bs \<leftarrow> decode abi 4 20 cm;
       Some (bits, Some (IpV6 (v6_of_octets (take 16 bs))))
     } else Some (bits, dst))"

fun decode_cmsgs ::
  "target \<Rightarrow> cmsg_abi \<Rightarrow> cmsg list \<Rightarrow> u8 \<times> ip_addr option \<Rightarrow> (u8 \<times> ip_addr option) option" where
  "decode_cmsgs tg abi [] acc = Some acc"
| "decode_cmsgs tg abi (cm # cms) acc = do {
     acc \<leftarrow> decode_cmsg tg abi cm acc;
     decode_cmsgs tg abi cms acc
   }"

definition decode_recv :: "target \<Rightarrow> cmsg_abi \<Rightarrow> recv_msg \<Rightarrow> usize \<Rightarrow> recv_meta option" where
  "decode_recv tg abi m len = do {
     (bits, dst) \<leftarrow> decode_cmsgs tg abi (rv_control m) (0, None);
     case rv_name m of
       NameOther \<Rightarrow> None
     | NameAddr addr \<Rightarrow>
         Some \<lparr>rm_addr = addr, rm_len = len, rm_ecn = ecn_from_bits bits, rm_dst_ip = dst\<rparr>
   }"

type_synonym received = "(u8 list \<times> recv_meta) list"

text \<open>\<open>recv\<close> without and with batching, into \<open>nbufs\<close> buffers. The data of a message is what the
  kernel put into its buffer. \<open>nmeta\<close> is the number of metadata slots.\<close>

fun unix_recv ::
  "target \<Rightarrow> cmsg_abi \<Rightarrow> usize \<Rightarrow> recv_result list \<Rightarrow> (io_error + received) option" where
  "unix_recv tg abi nmeta [] = None"
| "unix_recv tg abi nmeta (RecvErr e # calls) =
     (if os_kind e = Interrupted then unix_recv tg abi nmeta calls else Some (Inl (io_of_os e)))"
| "unix_recv tg abi nmeta (RecvOk ms # calls) =
     (if length ms > nmeta then None
      else do {
        metas \<leftarrow> those (map (\<lambda>m. decode_recv tg abi m (length (rv_data m))) ms);
        Some (Inr (zip (map rv_data ms) metas))
      })"

fun mac_recv ::
  "target \<Rightarrow> cmsg_abi \<Rightarrow> usize \<Rightarrow> recv_result list \<Rightarrow> (io_error + received) option" where
  "mac_recv tg abi nmeta [] = None"
| "mac_recv tg abi nmeta (RecvErr e # calls) =
     (if os_kind e = Interrupted then mac_recv tg abi nmeta calls else Some (Inl (io_of_os e)))"
| "mac_recv tg abi nmeta (RecvOk ms # calls) =
     (case ms of
        [] \<Rightarrow> mac_recv tg abi nmeta calls
      | m # _ \<Rightarrow>
          if rv_trunc m then mac_recv tg abi nmeta calls
          else if nmeta = 0 then None
          else do {
            meta \<leftarrow> decode_recv tg abi m (length (rv_data m));
            Some (Inr [(rv_data m, meta)])
          })"

fun poll_recv_loop ::
  "(recv_result list \<Rightarrow> (io_error + received) option) \<Rightarrow> recv_result readiness list
     \<Rightarrow> (io_error + received) poll option" where
  "poll_recv_loop recv [] = Some Pending"
| "poll_recv_loop recv (NotReady # _) = Some Pending"
| "poll_recv_loop recv (ReadyError e # _) = Some (Ready (Inl e))"
| "poll_recv_loop recv (IsReady calls # rs) = do {
     res \<leftarrow> recv calls;
     case res of
       Inl e \<Rightarrow> if io_kind e = WouldBlock then poll_recv_loop recv rs else Some (Ready res)
     | Inr _ \<Rightarrow> Some (Ready res)
   }"

definition unix_poll_recv ::
  "target \<Rightarrow> cmsg_abi \<Rightarrow> recv_result readiness list \<Rightarrow> (io_error + received) poll option" where
  "unix_poll_recv tg abi = poll_recv_loop (unix_recv tg abi BATCH_SIZE_UNIX)"

definition mac_poll_recv ::
  "target \<Rightarrow> cmsg_abi \<Rightarrow> recv_result readiness list \<Rightarrow> (io_error + received) poll option" where
  "mac_poll_recv tg abi = poll_recv_loop (mac_recv tg abi BATCH_SIZE_SINGLE)"

definition fallback_poll_recv ::
  "(io_error + u8 list \<times> socket_addr) poll \<Rightarrow> (io_error + received) poll option" where
  "fallback_poll_recv r =
     Some (case r of
       Pending \<Rightarrow> Pending
     | Ready (Inl e) \<Rightarrow> Ready (Inl e)
     | Ready (Inr (data, addr)) \<Rightarrow>
         Ready (Inr [(data, \<lparr>rm_addr = addr, rm_len = length data, rm_ecn = None, rm_dst_ip = None\<rparr>)]))"

section \<open>Setting up\<close>

datatype sock_option =
  OptRecvTos | OptMtuDiscover4 | OptPktInfo4 | OptMtuDiscover6 | OptRecvPktInfo6 | OptRecvTclass

fun set_options :: "sock_option list \<Rightarrow> sys_result list \<Rightarrow> sock_option list \<times> (io_error + unit)" where
  "set_options [] calls = ([], Inr ())"
| "set_options (opt # opts) (SysErr e # calls) = ([], Inl (io_of_os e))"
| "set_options (opt # opts) calls =
     (let (opts', res) = set_options opts (tl calls) in (opt # opts', res))"

definition init_options :: "target \<Rightarrow> bool \<Rightarrow> bool \<Rightarrow> sock_option list" where
  "init_options tg v4 only_v6 =
     (if v4 \<or> \<not> tg_macos tg \<and> \<not> only_v6 then [OptRecvTos] else [])
     @ (if tg_linux tg then
          if v4 then [OptMtuDiscover4, OptPktInfo4] else [OptMtuDiscover6, OptRecvPktInfo6]
        else [])
     @ (if v4 then [] else [OptRecvTclass])"

text \<open>\<open>init\<close>, with the results of \<open>local_addr\<close>, of \<open>only_v6\<close> and of the option calls.\<close>

definition udp_init ::
  "target \<Rightarrow> cmsg_abi \<Rightarrow> io_error + socket_addr \<Rightarrow> io_error + bool \<Rightarrow> sys_result list
     \<Rightarrow> (sock_option list \<times> (io_error + unit)) option" where
  "udp_init tg abi local_addr only_v6 calls =
     (let platform = (if tg_linux tg then abi_space abi 20 else 0) in
      if CMSG_LEN_CONST < abi_space abi 4 + platform then None
      else if abi_align abi > 8 then None
      else case local_addr of
        Inl e \<Rightarrow> Some ([], Inl e)
      | Inr addr \<Rightarrow>
          if is_ipv4 addr then Some (set_options (init_options tg True False) calls)
          else if tg_macos tg then Some (set_options (init_options tg False False) calls)
          else case only_v6 of
            Inl e \<Rightarrow> Some ([], Inl e)
          | Inr b \<Rightarrow> Some (set_options (init_options tg False b) calls))"

text \<open>\<open>gso::max_gso_segments\<close>, with whether a socket could be bound and the option be set.\<close>

definition max_gso_segments :: "target \<Rightarrow> bool \<Rightarrow> bool \<Rightarrow> usize" where
  "max_gso_segments tg bound option_set =
     (if \<not> tg_linux tg then 1 else if \<not> bound then 1 else if option_set then 64 else 1)"

definition fallback_udp_state :: usize where
  "fallback_udp_state = 1"

definition unix_udp_state :: "target \<Rightarrow> bool \<Rightarrow> bool \<Rightarrow> usize" where
  "unix_udp_state tg bound option_set = max_gso_segments tg bound option_set"

text \<open>\<open>from_std\<close>: the value is the time of the last logged error of the new socket. The results
  of \<open>set_nonblocking\<close> and of registering with the runtime are given.\<close>

definition initial_send_error :: "instant \<Rightarrow> instant" where
  "initial_send_error now =
     (if 2 * IO_ERROR_LOG_INTERVAL \<le> now then now - 2 * IO_ERROR_LOG_INTERVAL else now)"

definition unix_from_std ::
  "target \<Rightarrow> cmsg_abi \<Rightarrow> io_error + unit \<Rightarrow> io_error + socket_addr \<Rightarrow> io_error + bool \<Rightarrow> sys_result list
     \<Rightarrow> io_error + unit \<Rightarrow> instant \<Rightarrow> (io_error + instant) option" where
  "unix_from_std tg abi set_nonblocking local_addr v6 calls async_fd now =
     (case set_nonblocking of
        Inl e \<Rightarrow> Some (Inl e)
      | Inr _ \<Rightarrow> do {
          (_, res) \<leftarrow> udp_init tg abi local_addr v6 calls;
          case res of
            Inl e \<Rightarrow> Some (Inl e)
          | Inr _ \<Rightarrow>
              (case async_fd of
                 Inl e \<Rightarrow> Some (Inl e)
               | Inr _ \<Rightarrow> Some (Inr (initial_send_error now)))
        })"

definition fallback_from_std ::
  "io_error + unit \<Rightarrow> io_error + unit \<Rightarrow> instant \<Rightarrow> io_error + instant" where
  "fallback_from_std set_nonblocking async_fd now =
     (case set_nonblocking of
        Inl e \<Rightarrow> Inl e
      | Inr _ \<Rightarrow> (case async_fd of Inl e \<Rightarrow> Inl e | Inr _ \<Rightarrow> Inr (initial_send_error now)))"

definition only_v6 :: "sys_result \<Rightarrow> int \<Rightarrow> io_error + bool" where
  "only_v6 res val = (case res of SysErr e \<Rightarrow> Inl (io_of_os e) | SysOk _ \<Rightarrow> Inr (val \<noteq> 0))"

section \<open>Iterating over control messages\<close>

text \<open>\<open>cmsg::Iter\<close> walks a control buffer of the given length. The messages in it lie one after the
  other; the position is an offset and the messages from there on. \<open>CMSG_FIRSTHDR\<close> and \<open>CMSG_NXTHDR\<close> are
  null when no header fits any more.\<close>

record cmsg_iter =
  it_controllen :: usize
  it_cmsg :: "(usize \<times> cmsg list) option"

definition cmsg_hdr :: "cmsg_abi \<Rightarrow> usize \<Rightarrow> usize \<Rightarrow> cmsg list \<Rightarrow> (usize \<times> cmsg list) option" where
  "cmsg_hdr abi controllen off ms =
     (if ms = [] then None else map_option (\<lambda>o'. (o', ms)) (header_at abi controllen off))"

definition iter_new :: "cmsg_abi \<Rightarrow> usize \<Rightarrow> cmsg list \<Rightarrow> cmsg_iter" where
  "iter_new abi controllen ms = \<lparr>it_controllen = controllen, it_cmsg = cmsg_hdr abi controllen 0 ms\<rparr>"

definition iter_next :: "cmsg_abi \<Rightarrow> cmsg_iter \<Rightarrow> cmsg_iter \<times> cmsg option" where
  "iter_next abi it =
     (case it_cmsg it of
        Some (off, m # ms) \<Rightarrow>
          (it\<lparr>it_cmsg := cmsg_hdr abi (it_controllen it) (off + abi_space abi (length (cm_data m))) ms\<rparr>, Some m)
      | _ \<Rightarrow> (it, None))"

text \<open>A \<open>for\<close> loop over the iterator: everything it yields.\<close>

function iter_collect :: "cmsg_abi \<Rightarrow> cmsg_iter \<Rightarrow> cmsg list" where
  "iter_collect abi it =
     (case iter_next abi it of
        (it, None) \<Rightarrow> []
      | (it, Some m) \<Rightarrow> m # iter_collect abi it)"
  by pat_completeness auto
termination
  by (relation "measure (\<lambda>(abi, it). case it_cmsg it of None \<Rightarrow> 0 | Some (off, ms) \<Rightarrow> length ms)")
    (auto simp: iter_next_def cmsg_hdr_def split: option.splits list.splits if_splits)

declare iter_collect.simps [simp del]

section \<open>The header of a message to receive\<close>

text \<open>\<open>prepare_recv\<close>: one buffer, room for any address and for \<open>CMSG_LEN\<close> bytes of control messages. The
  pointers are not modelled; \<open>storage\<close> is the size of \<open>sockaddr_storage\<close>.\<close>

record recv_hdr =
  rh_namelen :: usize
  rh_iovlen :: usize
  rh_controllen :: usize
  rh_flags :: int

definition prepare_recv :: "usize \<Rightarrow> recv_hdr \<Rightarrow> recv_hdr" where
  "prepare_recv storage hdr =
     hdr\<lparr>rh_namelen := storage, rh_iovlen := 1, rh_controllen := CMSG_LEN_CONST, rh_flags := 0\<rparr>"

section \<open>The platform\<close>

text \<open>\<open>UdpState\<close> of \<open>lib.rs\<close> is the segmentation limit; which module detects it depends on the platform.\<close>

datatype platform = Unix target | NotUnix

record udp_state =
  us_max_gso_segments :: usize

definition udp_state_new :: "platform \<Rightarrow> bool \<Rightarrow> bool \<Rightarrow> udp_state" where
  "udp_state_new pl bound option_set =
     \<lparr>us_max_gso_segments =
        (case pl of Unix tg \<Rightarrow> unix_udp_state tg bound option_set | NotUnix \<Rightarrow> fallback_udp_state)\<rparr>"

definition udp_state_default :: "platform \<Rightarrow> bool \<Rightarrow> bool \<Rightarrow> udp_state" where
  "udp_state_default = udp_state_new"

definition state_max_gso_segments :: "udp_state \<Rightarrow> usize" where
  "state_max_gso_segments st = us_max_gso_segments st"

definition batch_size :: "platform \<Rightarrow> usize" where
  "batch_size pl =
     (case pl of
        Unix tg \<Rightarrow> if tg_macos tg then BATCH_SIZE_SINGLE else BATCH_SIZE_UNIX
      | NotUnix \<Rightarrow> BATCH_SIZE_SINGLE)"

end
