(* ===== verification/Udx_Socket.thy ===== *)
theory Udx_Socket
  imports Udx_Stream Udx_Udp
begin

text \<open>
  Model of \<open>src/socket.rs\<close>: the UDP socket shared by streams and datagrams, and the driver
  task that moves datagrams between the kernel, the streams and the application.

  One record holds \<open>UdxSocketInner\<close>. Besides its fields it has what it shares with its
  surroundings: \<open>k_heap\<close> the cells behind the \<open>Arc<Packet>\<close>s, \<open>k_inbox\<close> the events put into the
  channels of the streams, \<open>k_hung_up\<close> the channels whose stream is gone, \<open>k_sent\<close> the transmits
  that the kernel took and \<open>k_woken\<close> the tasks that were woken, each oldest first. A \<open>StreamHandle\<close> is the
  name of its channel.

  What the runtime decides is an argument of type \<open>socket_env\<close>. The platform's \<open>poll_send\<close> and
  \<open>poll_recv\<close> are arguments; the \<open>i\<close>-th call of \<open>poll_recv\<close> in one poll of the driver is \<open>recv i\<close>.
\<close>

section \<open>Data\<close>

definition MAX_LOOP :: usize where "MAX_LOOP = 60"
definition RECV_QUEUE_MAX_LEN :: usize where "RECV_QUEUE_MAX_LEN = 1024"

type_synonym chan = nat

record socket_stats =
  sk_tx_transmits :: usize
  sk_tx_dgrams :: usize
  sk_tx_bytes :: usize
  sk_rx_bytes :: usize
  sk_rx_dgrams :: usize
  sk_tx_window_start :: "instant option"
  sk_tx_window_bytes :: usize
  sk_tx_window_dgrams :: usize

record udx_socket =
  k_last_send_error :: instant
  k_send_rx :: "event_outgoing list"
  k_streams :: "(u32 \<times> chan) list"
  k_outgoing_transmits :: "transmit list"
  k_outgoing_packet_sets :: "packet_set list"
  k_recv_buf :: "u8 list option"
  k_max_gso_segments :: usize
  k_stats :: socket_stats
  k_has_refs :: bool
  k_drive_waker :: "waker option"
  k_send_overflow_timer :: "instant option"
  k_recv_dgrams :: "dgram list"
  k_recv_waker :: "waker option"
  k_heap :: heap
  k_next_chan :: chan
  k_inbox :: "(chan \<times> event_incoming) list"
  k_hung_up :: "chan list"
  k_sent :: "transmit list"
  k_woken :: "waker list"

record socket_env =
  kv_now :: instant
  kv_elapsed :: "instant \<Rightarrow> duration"
  kv_timer_ready :: "instant \<Rightarrow> bool"
  kv_budget :: nat \<comment> \<open>events the channel yields before it reports \<open>Pending\<close>\<close>
  kv_slice :: nat \<comment> \<open>length of the first slice of \<open>outgoing_transmits\<close>\<close>
  kv_local_addr :: "io_error + socket_addr"
  kv_waker :: waker

definition socket_stats_default :: socket_stats where
  "socket_stats_default =
     \<lparr>sk_tx_transmits = 0, sk_tx_dgrams = 0, sk_tx_bytes = 0, sk_rx_bytes = 0, sk_rx_dgrams = 0,
      sk_tx_window_start = None, sk_tx_window_bytes = 0, sk_tx_window_dgrams = 0\<rparr>"

definition track_tx :: "socket_env \<Rightarrow> transmit \<Rightarrow> socket_stats \<Rightarrow> socket_stats option" where
  "track_tx env t st = do {
     n \<leftarrow> num_segments t;
     let len = length (t_contents t);
     let st = st\<lparr>sk_tx_bytes := sk_tx_bytes st + len, sk_tx_transmits := sk_tx_transmits st + 1,
       sk_tx_dgrams := sk_tx_dgrams st + n, sk_tx_window_bytes := sk_tx_window_bytes st + len,
       sk_tx_window_dgrams := sk_tx_window_dgrams st + n\<rparr>;
     let start = (case sk_tx_window_start st of None \<Rightarrow> kv_now env | Some i \<Rightarrow> i);
     Some (if kv_elapsed env start > from_millis 1000
           then st\<lparr>sk_tx_window_bytes := 0, sk_tx_window_dgrams := 0,
                  sk_tx_window_start := Some (kv_now env)\<rparr>
           else st\<lparr>sk_tx_window_start := Some start\<rparr>)
   }"

section \<open>Operations of a handle\<close>

text \<open>\<open>UdxSocketInner::bind\<close>, with the results of binding and of \<open>UdpSocket::from_std\<close> and with
  the segmentation limit of \<open>UdpState::new\<close>.\<close>

definition socket_bind ::
  "usize \<Rightarrow> io_error + unit \<Rightarrow> (io_error + instant) option \<Rightarrow> usize \<Rightarrow> (io_error + udx_socket) option" where
  "socket_bind batch bound from_std gso =
     (case bound of
        Inl e \<Rightarrow> Some (Inl e)
      | Inr _ \<Rightarrow> do {
          res \<leftarrow> from_std;
          case res of
            Inl e \<Rightarrow> Some (Inl e)
          | Inr last_send_error \<Rightarrow> Some (Inr
              \<lparr>k_last_send_error = last_send_error, k_send_rx = [], k_streams = [],
               k_outgoing_transmits = [], k_outgoing_packet_sets = [],
               k_recv_buf = Some (replicate (UDX_MTU * batch) 0), k_max_gso_segments = gso,
               k_stats = socket_stats_default, k_has_refs = True, k_drive_waker = None,
               k_send_overflow_timer = None, k_recv_dgrams = [], k_recv_waker = None,
               k_heap = [], k_next_chan = 0, k_inbox = [], k_hung_up = [], k_sent = [],
               k_woken = []\<rparr>)
        })"

text \<open>\<open>connect\<close>: the message it logs unwraps the local address.\<close>

definition socket_connect ::
  "socket_env \<Rightarrow> socket_addr \<Rightarrow> u32 \<Rightarrow> u32 \<Rightarrow> udx_socket \<Rightarrow> (udx_socket \<times> udx_stream) option" where
  "socket_connect env dest local_id remote_id k =
     (case kv_local_addr env of
        Inl _ \<Rightarrow> None
      | Inr _ \<Rightarrow>
          let recv_tx = k_next_chan k;
              stream = stream_connect (kv_now env) (k_heap k) (k_max_gso_segments k) dest remote_id local_id
          in Some (k\<lparr>k_next_chan := k_next_chan k + 1,
                     k_streams := AList.update local_id recv_tx (k_streams k)\<rparr>, stream))"

text \<open>\<open>send\<close>: the receiver of the channel is a field of the socket, so it is open.\<close>

definition socket_send :: "socket_addr \<Rightarrow> u8 list \<Rightarrow> udx_socket \<Rightarrow> udx_socket" where
  "socket_send dest buf k = k\<lparr>k_send_rx := k_send_rx k @ [TransmitDgram (dgram_new dest buf)]\<rparr>"

text \<open>The future that \<open>recv\<close> returns, polled by the task \<open>w\<close>.\<close>

definition recv_future_poll ::
  "waker \<Rightarrow> udx_socket \<Rightarrow> udx_socket \<times> (socket_addr \<times> u8 list) poll" where
  "recv_future_poll w k =
     (case k_recv_dgrams k of
        d # ds \<Rightarrow> (k\<lparr>k_recv_dgrams := ds\<rparr>, Ready (dg_dest d, dg_buf d))
      | [] \<Rightarrow> (k\<lparr>k_recv_waker := Some w\<rparr>, Pending))"

definition socket_drop :: "nat \<Rightarrow> udx_socket \<Rightarrow> udx_socket" where
  "socket_drop strong_count k =
     (if strong_count = 2 then
        let k = k\<lparr>k_has_refs := False\<rparr> in
        (case k_drive_waker k of
           None \<Rightarrow> k
         | Some w \<Rightarrow> k\<lparr>k_drive_waker := None, k_woken := k_woken k @ [w]\<rparr>)
      else k)"

section \<open>Transmitting\<close>

definition outgoing_event :: "event_outgoing \<Rightarrow> udx_socket \<Rightarrow> udx_socket option" where
  "outgoing_event event k =
     (case event of
        StreamDropped local_id \<Rightarrow> Some (k\<lparr>k_streams := AList.delete local_id (k_streams k)\<rparr>)
      | TransmitDgram dgram \<Rightarrow>
          Some (k\<lparr>k_outgoing_transmits := k_outgoing_transmits k @ [dgram_into_transmit dgram]\<rparr>)
      | Transmit packet_set \<Rightarrow> do {
          transmit \<leftarrow> packet_set_to_transmit (k_heap k) packet_set;
          Some (k\<lparr>k_outgoing_transmits := k_outgoing_transmits k @ [transmit],
                  k_outgoing_packet_sets := k_outgoing_packet_sets k @ [packet_set]\<rparr>)
        })"

text \<open>The inner loop of \<open>poll_transmit\<close>; the flag is \<open>send_rx_pending\<close>.\<close>

fun fill_transmits :: "usize \<Rightarrow> nat \<Rightarrow> udx_socket \<Rightarrow> (udx_socket \<times> bool) option" where
  "fill_transmits batch budget k =
     (if length (k_outgoing_transmits k) < batch then
        (case (budget, k_send_rx k) of
           (Suc b, event # events) \<Rightarrow> do {
             k \<leftarrow> outgoing_event event (k\<lparr>k_send_rx := events\<rparr>);
             fill_transmits batch b k
           }
         | _ \<Rightarrow> Some (k, True))
      else Some (k, False))"

declare fill_transmits.simps [simp del]

fun track_all :: "socket_env \<Rightarrow> transmit list \<Rightarrow> socket_stats \<Rightarrow> socket_stats option" where
  "track_all env [] st = Some st"
| "track_all env (t # ts) st = do { st \<leftarrow> track_tx env t st; track_all env ts st }"

definition set_now :: "instant \<Rightarrow> heap \<Rightarrow> arc \<Rightarrow> heap" where
  "set_now now h a = h[a := (h ! a)\<lparr>p_time_sent := Some now\<rparr>]"

text \<open>\<open>poll_transmit\<close>. Its outer loop runs once: after the first round the counter is positive
  and the loop is left.\<close>

definition socket_poll_transmit ::
  "(usize \<Rightarrow> instant \<Rightarrow> transmit list \<Rightarrow> (sent \<times> (io_error + usize) poll) option)
     \<Rightarrow> usize \<Rightarrow> socket_env \<Rightarrow> udx_socket \<Rightarrow> (udx_socket \<times> (io_error + bool)) option" where
  "socket_poll_transmit send batch env k = do {
     (k, send_rx_pending) \<leftarrow> fill_transmits batch (kv_budget env) k;
     if k_outgoing_transmits k = [] then Some (k, Inr False)
     else do {
       ((gso, lse, taken), res) \<leftarrow> send (k_max_gso_segments k) (k_last_send_error k)
         (take (kv_slice env) (k_outgoing_transmits k));
       let k = k\<lparr>k_max_gso_segments := gso, k_last_send_error := lse, k_sent := k_sent k @ taken\<rparr>;
       case res of
         Pending \<Rightarrow> Some (k, Inr False)
       | Ready (Inl e) \<Rightarrow>
           if io_kind e = Interrupted
           then Some (k\<lparr>k_send_overflow_timer := Some (kv_now env + from_millis 20)\<rparr>, Inr False)
           else Some (k, Inl e)
       | Ready (Inr n) \<Rightarrow>
           if n > length (k_outgoing_transmits k) then None
           else do {
             stats \<leftarrow> track_all env (take n (k_outgoing_transmits k)) (k_stats k);
             let k = k\<lparr>k_stats := stats, k_outgoing_transmits := drop n (k_outgoing_transmits k)\<rparr>;
             let n = min n (length (k_outgoing_packet_sets k));
             let packets = concat (map iter_shared (take n (k_outgoing_packet_sets k)));
             let k = k\<lparr>k_outgoing_packet_sets := drop n (k_outgoing_packet_sets k),
               k_heap := foldl (set_now (kv_now env)) (k_heap k) packets\<rparr>;
             Some (k, Inr (\<not> send_rx_pending))
           }
     }
   }"

section \<open>Receiving\<close>

definition on_recv_dgram :: "u8 list \<Rightarrow> recv_meta \<Rightarrow> udx_socket \<Rightarrow> udx_socket" where
  "on_recv_dgram data meta k =
     (if length (k_recv_dgrams k) < RECV_QUEUE_MAX_LEN then
        let k = k\<lparr>k_recv_dgrams := k_recv_dgrams k @ [dgram_new (rm_addr meta) data]\<rparr> in
        (case k_recv_waker k of
           None \<Rightarrow> k
         | Some w \<Rightarrow> k\<lparr>k_recv_waker := None, k_woken := k_woken k @ [w]\<rparr>)
      else k)"

definition process_packet ::
  "socket_env \<Rightarrow> u8 list \<Rightarrow> recv_meta \<Rightarrow> udx_socket \<Rightarrow> (udx_socket \<times> (u8 list + unit)) option" where
  "process_packet env data meta k =
     (case kv_local_addr env of
        Inl _ \<Rightarrow> None
      | Inr _ \<Rightarrow> do {
          let k = k\<lparr>k_stats := (k_stats k)\<lparr>sk_rx_bytes := sk_rx_bytes (k_stats k) + length data,
            sk_rx_dgrams := sk_rx_dgrams (k_stats k) + 1\<rparr>\<rparr>;
          res \<leftarrow> header_from_bytes data;
          case res of
            Inl _ \<Rightarrow> Some (k, Inl data)
          | Inr header \<Rightarrow>
              (case map_of (k_streams k) (hdr_stream_id header) of
                 None \<Rightarrow> Some (k, Inl data)
               | Some recv_tx \<Rightarrow>
                   if length data < UDX_HEADER_SIZE then None
                   else let event = EventPacket \<lparr>ip_header = header, ip_buf = drop UDX_HEADER_SIZE data,
                     ip_read_offset = 0, ip_from = rm_addr meta\<rparr> in
                   if recv_tx \<in> set (k_hung_up k)
                   then Some (k\<lparr>k_streams := AList.delete (hdr_stream_id header) (k_streams k)\<rparr>, Inr ())
                   else Some (k\<lparr>k_inbox := k_inbox k @ [(recv_tx, event)]\<rparr>, Inr ()))
        })"

fun process_batch :: "socket_env \<Rightarrow> (u8 list \<times> recv_meta) list \<Rightarrow> udx_socket \<Rightarrow> udx_socket option" where
  "process_batch env [] k = Some k"
| "process_batch env ((buf, meta) # msgs) k = do {
     data \<leftarrow> slice buf 0 (rm_len meta);
     (k, res) \<leftarrow> process_packet env data meta k;
     process_batch env msgs (case res of Inl data \<Rightarrow> on_recv_dgram data meta k | Inr _ \<Rightarrow> k)
   }"

text \<open>\<open>chunks_mut\<close> panics on a size of zero. \<open>iovectors_from_buf\<close> fills \<open>n\<close> slots, so any other
  number of chunks is an error.\<close>

function (sequential) chunks_mut :: "nat \<Rightarrow> u8 list \<Rightarrow> u8 list list" where
  "chunks_mut 0 buf = []"
| "chunks_mut (Suc sz) [] = []"
| "chunks_mut (Suc sz) (b # buf) = take (Suc sz) (b # buf) # chunks_mut (Suc sz) (drop sz buf)"
  by pat_completeness auto
termination by (relation "measure (length \<circ> snd)") auto

definition iovectors_from_buf :: "usize \<Rightarrow> u8 list \<Rightarrow> u8 list list option" where
  "iovectors_from_buf n buf =
     (if n = 0 \<or> length buf div n = 0 then None
      else let iovs = chunks_mut (length buf div n) buf in
        if length iovs = n then Some iovs else None)"

text \<open>The kernel writes the datagrams it hands over to the front of the buffers.\<close>

fun scatter :: "(u8 list \<times> recv_meta) list \<Rightarrow> u8 list list \<Rightarrow> u8 list list" where
  "scatter ((data, _) # msgs) (iov # iovs) = copy_at 0 (take (length iov) data) iov # scatter msgs iovs"
| "scatter _ iovs = iovs"

fun recv_loop ::
  "(usize \<Rightarrow> (io_error + received) poll option) \<Rightarrow> socket_env \<Rightarrow> usize \<Rightarrow> nat \<Rightarrow> u8 list list \<Rightarrow> udx_socket
     \<Rightarrow> (udx_socket \<times> u8 list list \<times> (io_error + bool)) option" where
  "recv_loop recv env iters 0 iovs k = Some (k, iovs, Inr True)"
| "recv_loop recv env iters (Suc left) iovs k = do {
     res \<leftarrow> recv iters;
     case res of
       Pending \<Rightarrow> Some (k, iovs, Inr False)
     | Ready (Inl e) \<Rightarrow> Some (k, iovs, Inl e)
     | Ready (Inr msgs) \<Rightarrow> do {
         let iovs = scatter msgs iovs;
         k \<leftarrow> process_batch env (zip iovs (map snd msgs)) k;
         recv_loop recv env (iters + 1) left iovs k
       }
   }"

definition socket_poll_recv ::
  "(usize \<Rightarrow> (io_error + received) poll option) \<Rightarrow> usize \<Rightarrow> socket_env \<Rightarrow> udx_socket
     \<Rightarrow> (udx_socket \<times> (io_error + bool)) option" where
  "socket_poll_recv recv batch env k = do {
     recv_buf \<leftarrow> k_recv_buf k;
     let k = k\<lparr>k_recv_buf := None\<rparr>;
     iovs \<leftarrow> iovectors_from_buf batch recv_buf;
     (k, iovs, res) \<leftarrow> recv_loop recv env 1 (MAX_LOOP - 1) iovs k;
     Some (k\<lparr>k_recv_buf := Some (concat iovs)\<rparr>, res)
   }"

section \<open>The driver\<close>

definition socket_driver_poll ::
  "(usize \<Rightarrow> instant \<Rightarrow> transmit list \<Rightarrow> (sent \<times> (io_error + usize) poll) option)
     \<Rightarrow> (usize \<Rightarrow> (io_error + received) poll option) \<Rightarrow> usize \<Rightarrow> socket_env \<Rightarrow> udx_socket
     \<Rightarrow> (udx_socket \<times> (io_error + unit) poll) option" where
  "socket_driver_poll send recv batch env k = do {
     (k, res) \<leftarrow> socket_poll_recv recv batch env k;
     case res of
       Inl e \<Rightarrow> Some (k, Ready (Inl e))
     | Inr received \<Rightarrow> do {
         (k, res) \<leftarrow> (case k_send_overflow_timer k of
             Some deadline \<Rightarrow>
               if kv_timer_ready env deadline
               then Some (k\<lparr>k_send_overflow_timer := None\<rparr>, Inr True)
               else Some (k, Inr False)
           | None \<Rightarrow> socket_poll_transmit send batch env k);
         case res of
           Inl e \<Rightarrow> Some (k, Ready (Inl e))
         | Inr transmitted \<Rightarrow>
             let should_continue = received \<or> transmitted in
             if \<not> should_continue \<and> \<not> k_has_refs k \<and> k_streams k = [] then Some (k, Ready (Inr ()))
             else if should_continue then Some (k\<lparr>k_woken := k_woken k @ [kv_waker env]\<rparr>, Pending)
             else Some (k\<lparr>k_drive_waker := Some (kv_waker env)\<rparr>, Pending)
       }
   }"

end
