(* ===== verification/Udx_Udp_Props.thy ===== *)
theory Udx_Udp_Props
  imports Udx_Udp
begin

text \<open>
  What the layer above relies on: preparing a message never runs out of control buffer,
  metadata is decoded from the kernel's control messages, and every platform's send takes a
  bounded number of the transmits it is given (the locale \<open>udp_layer\<close>, interpreted for the
  three platforms).
\<close>

section \<open>The control buffer\<close>

text \<open>What is documented of the control message macros on the supported targets: a header is at
  most 16 bytes and aligned to 8, and a message occupies a header and its padded payload.\<close>

definition abi_ok :: "cmsg_abi \<Rightarrow> bool" where
  "abi_ok abi \<longleftrightarrow> 4 \<le> abi_align abi \<and> abi_align abi \<le> 8
     \<and> (\<forall>n. abi_len abi 0 \<le> abi_len abi n \<and> abi_len abi n \<le> abi_space abi n)
     \<and> (\<forall>n. abi_space abi n \<le> 16 + 8 * ((n + 7) div 8))"

definition linux_abi :: cmsg_abi where
  "linux_abi = \<lparr>abi_space = (\<lambda>n. 16 + 8 * ((n + 7) div 8)), abi_len = (\<lambda>n. 16 + n), abi_align = 8\<rparr>"

lemma linux_abi_ok: "abi_ok linux_abi"
proof -
  have "n \<le> 8 * ((n + 7) div 8)" for n :: nat by presburger
  then show ?thesis by (simp add: abi_ok_def linux_abi_def)
qed

text \<open>The bytes that messages laid one after the other occupy.\<close>

definition space_of :: "cmsg_abi \<Rightarrow> cmsg list \<Rightarrow> usize" where
  "space_of abi ms = (\<Sum>m \<leftarrow> ms. abi_space abi (length (cm_data m)))"

lemma space_of_simps [simp]:
  "space_of abi [] = 0" "space_of abi (m # ms) = abi_space abi (length (cm_data m)) + space_of abi ms"
  "space_of abi (ms @ ns) = space_of abi ms + space_of abi ns"
  by (simp_all add: space_of_def)

definition enc_ok :: "cmsg_abi \<Rightarrow> encoder \<Rightarrow> bool" where
  "enc_ok abi enc \<longleftrightarrow> en_controllen enc = 88 \<and> en_cmsg enc = header_at abi 88 (en_len enc)
     \<and> en_len enc = space_of abi (en_msgs enc)"

definition grown :: "cmsg_abi \<Rightarrow> cmsg_level \<Rightarrow> cmsg_type \<Rightarrow> u8 list \<Rightarrow> encoder \<Rightarrow> encoder" where
  "grown abi lv ty v enc = enc\<lparr>
     en_msgs := en_msgs enc @ [\<lparr>cm_level = lv, cm_type = ty,
       cm_len = abi_len abi (length v), cm_data = v\<rparr>],
     en_len := en_len enc + abi_space abi (length v),
     en_cmsg := header_at abi 88 (en_len enc + abi_space abi (length v))\<rparr>"

lemma abi_okD:
  assumes "abi_ok abi"
  shows "abi_len abi 0 \<le> abi_space abi n" "abi_space abi n \<le> 16 + 8 * ((n + 7) div 8)"
    "a \<le> 4 \<Longrightarrow> a \<le> abi_align abi"
  using assms by (auto simp: abi_ok_def intro: order_trans)

lemma push_eq:
  assumes abi: "abi_ok abi" and enc: "enc_ok abi enc" and align: "align \<le> 4"
    and room: "en_len enc + (16 + 8 * ((length v + 7) div 8)) \<le> 88"
  shows "push abi lv ty align v enc = Some (grown abi lv ty v enc)"
proof -
  have sp: "en_len enc + abi_space abi (length v) \<le> 88"
    using room abi_okD(2) [OF abi, of "length v"] by linarith
  then have "header_at abi 88 (en_len enc) = Some (en_len enc)"
    using abi_okD(1) [OF abi, of "length v"] by (simp add: header_at_def)
  then show ?thesis
    using enc abi_okD(3) [OF abi align] sp by (simp add: push_def enc_ok_def grown_def Let_def)
qed

lemma grown_facts:
  assumes "abi_ok abi" "enc_ok abi enc"
  shows "enc_ok abi (grown abi lv ty v enc)"
    "en_len (grown abi lv ty v enc) \<le> en_len enc + (16 + 8 * ((length v + 7) div 8))"
    "en_msgs (grown abi lv ty v enc) = en_msgs enc
       @ [\<lparr>cm_level = lv, cm_type = ty, cm_len = abi_len abi (length v), cm_data = v\<rparr>]"
  using assms abi_okD(2) [OF assms(1), of "length v"] by (simp_all add: grown_def enc_ok_def)

text \<open>Iterating over a buffer that is filled by messages yields them all, in order.\<close>

lemma iter_collect_from:
  assumes "abi_ok abi" "n = off + space_of abi ms"
  shows "iter_collect abi \<lparr>it_controllen = n, it_cmsg = cmsg_hdr abi n off ms\<rparr> = ms"
  using assms(2)
proof (induction ms arbitrary: off)
  case Nil
  show ?case by (subst iter_collect.simps) (simp add: cmsg_hdr_def iter_next_def)
next
  case (Cons m ms)
  let ?off = "off + abi_space abi (length (cm_data m))"
  have "cmsg_hdr abi n off (m # ms) = Some (off, m # ms)"
    using Cons.prems abi_okD(1) [OF assms(1), of "length (cm_data m)"] by (simp add: cmsg_hdr_def header_at_def)
  then have "iter_collect abi \<lparr>it_controllen = n, it_cmsg = cmsg_hdr abi n off (m # ms)\<rparr>
      = m # iter_collect abi \<lparr>it_controllen = n, it_cmsg = cmsg_hdr abi n ?off ms\<rparr>"
    by (subst iter_collect.simps) (simp add: iter_next_def)
  also have "iter_collect abi \<lparr>it_controllen = n, it_cmsg = cmsg_hdr abi n ?off ms\<rparr> = ms"
    using Cons.prems by (intro Cons.IH) simp
  finally show ?case .
qed

lemma iter_collect_new:
  "abi_ok abi \<Longrightarrow> iter_collect abi (iter_new abi (space_of abi ms) ms) = ms"
  by (simp add: iter_new_def iter_collect_from)

lemma length_octets [simp]:
  "length (v4_octets x) = 4" "length (v6_octets y) = 16" "length (u16_to_le_bytes z) = 2"
  by (simp_all add: v4_octets_def v6_octets_def u16_to_le_bytes_def)

definition ecn_cmsg :: "target \<Rightarrow> cmsg_abi \<Rightarrow> transmit \<Rightarrow> cmsg" where
  "ecn_cmsg tg abi t =
     (let b = (case t_ecn t of None \<Rightarrow> 0 | Some c \<Rightarrow> ecn_bits c);
          v = (if is_ipv4 (t_destination t) \<and> tg_freebsd tg then [b] else u32_to_le_bytes (ucast b))
      in \<lparr>cm_level = (if is_ipv4 (t_destination t) then IPPROTO_IP else IPPROTO_IPV6),
          cm_type = (if is_ipv4 (t_destination t) then IP_TOS else IPV6_TCLASS),
          cm_len = abi_len abi (length v), cm_data = v\<rparr>)"

definition segment_cmsg :: "cmsg_abi \<Rightarrow> transmit \<Rightarrow> cmsg list" where
  "segment_cmsg abi t = (case t_segment_size t of None \<Rightarrow> []
     | Some sz \<Rightarrow> [\<lparr>cm_level = SOL_UDP, cm_type = UDP_SEGMENT, cm_len = abi_len abi 2,
                    cm_data = u16_to_le_bytes (word_of_nat sz)\<rparr>])"

text \<open>Only Linux can segment; the stream never asks for it elsewhere.\<close>

definition can_segment :: "target \<Rightarrow> transmit \<Rightarrow> bool" where
  "can_segment tg t \<longleftrightarrow> t_segment_size t = None \<or> tg_linux tg"

lemma enc_ok_new: "enc_ok abi (encoder_new abi CMSG_LEN_CONST)"
  by (simp add: enc_ok_def encoder_new_def CMSG_LEN_CONST_def)

lemma prepare_msg_total:
  assumes abi: "abi_ok abi" and seg: "can_segment tg t"
  obtains m src where "prepare_msg tg abi t = Some m" "m_dest m = t_destination t"
    "m_payload m = t_contents t" "m_controllen m \<le> CMSG_LEN_CONST"
    "m_control m = ecn_cmsg tg abi t # segment_cmsg abi t @ src"
    "length src = (if t_src_ip t \<noteq> None \<and> tg_linux tg then 1 else 0)"
    "m_controllen m = space_of abi (m_control m)"
proof -
  let ?b = "case t_ecn t of None \<Rightarrow> 0 | Some c \<Rightarrow> ecn_bits c"
  let ?first = "\<lambda>enc. if is_ipv4 (t_destination t) then
               (if tg_freebsd tg then push abi IPPROTO_IP IP_TOS 1 [?b] enc
                else push abi IPPROTO_IP IP_TOS 4 (u32_to_le_bytes (ucast ?b)) enc)
             else push abi IPPROTO_IPV6 IPV6_TCLASS 4 (u32_to_le_bytes (ucast ?b)) enc"
  let ?second = "\<lambda>enc. case t_segment_size t of None \<Rightarrow> Some enc
             | Some sz \<Rightarrow> set_segment_size tg abi (word_of_nat sz) enc"
  let ?third = "\<lambda>enc. case t_src_ip t of None \<Rightarrow> Some enc
             | Some ip \<Rightarrow> if \<not> tg_linux tg then Some enc
                 else (case ip of
                   IpV4 v4 \<Rightarrow> push abi IPPROTO_IP IP_PKTINFO 4
                     (replicate 4 0 @ v4_octets v4 @ replicate 4 0) enc
                 | IpV6 v6 \<Rightarrow> push abi IPPROTO_IPV6 IPV6_PKTINFO 4 (v6_octets v6 @ replicate 4 0) enc)"
  let ?e0 = "encoder_new abi CMSG_LEN_CONST"
  have e0: "en_len ?e0 = 0" "en_msgs ?e0 = []" by (simp_all add: encoder_new_def)
  have "\<exists>e1. ?first ?e0 = Some e1 \<and> enc_ok abi e1 \<and> en_len e1 \<le> 24
      \<and> en_msgs e1 = [ecn_cmsg tg abi t]"
    using e0 grown_facts [OF abi enc_ok_new]
      grown_facts(2) [OF abi enc_ok_new, of _ _ "[?b]"]
      grown_facts(2) [OF abi enc_ok_new, of _ _ "u32_to_le_bytes (ucast ?b)"]
    by (simp add: push_eq [OF abi enc_ok_new] ecn_cmsg_def Let_def)
  then obtain e1 where e1: "?first ?e0 = Some e1" "enc_ok abi e1" "en_len e1 \<le> 24"
    "en_msgs e1 = [ecn_cmsg tg abi t]" by blast
  have "\<exists>e2. ?second e1 = Some e2 \<and> enc_ok abi e2 \<and> en_len e2 \<le> 48
      \<and> en_msgs e2 = ecn_cmsg tg abi t # segment_cmsg abi t"
  proof (cases "t_segment_size t")
    case None
    then show ?thesis using e1 by (simp add: segment_cmsg_def)
  next
    case (Some sz)
    let ?v = "u16_to_le_bytes (word_of_nat sz)"
    have "tg_linux tg" using seg Some by (simp add: can_segment_def)
    then show ?thesis
      using Some e1 grown_facts [OF abi e1(2), of SOL_UDP UDP_SEGMENT ?v]
      by (simp add: set_segment_size_def push_eq [OF abi e1(2)] segment_cmsg_def)
  qed
  then obtain e2 where e2: "?second e1 = Some e2" "enc_ok abi e2" "en_len e2 \<le> 48"
    "en_msgs e2 = ecn_cmsg tg abi t # segment_cmsg abi t" by blast
  have "\<exists>e3 src. ?third e2 = Some e3 \<and> enc_ok abi e3 \<and> en_len e3 \<le> 88
    \<and> en_msgs e3 = ecn_cmsg tg abi t # segment_cmsg abi t @ src
    \<and> length src = (if t_src_ip t \<noteq> None \<and> tg_linux tg then 1 else 0)"
  proof (cases "t_src_ip t \<noteq> None \<and> tg_linux tg")
    case False
    then show ?thesis using e2 by (intro exI [of _ e2] exI [of _ "[]"]) (auto split: option.split)
  next
    case True
    then obtain ip where ip: "t_src_ip t = Some ip" "tg_linux tg" by auto
    show ?thesis
    proof (cases ip)
      case (IpV4 v4)
      let ?v = "replicate 4 0 @ v4_octets v4 @ replicate 4 0"
      show ?thesis
        using e2 IpV4 ip grown_facts [OF abi e2(2), of IPPROTO_IP IP_PKTINFO ?v]
        by (simp add: push_eq [OF abi e2(2)])
    next
      case (IpV6 v6)
      let ?v = "v6_octets v6 @ replicate 4 0"
      show ?thesis
        using e2 IpV6 ip grown_facts [OF abi e2(2), of IPPROTO_IPV6 IPV6_PKTINFO ?v]
        by (simp add: push_eq [OF abi e2(2)])
    qed
  qed
  then obtain e3 src where e3: "?third e2 = Some e3" "en_len e3 \<le> 88"
    "en_msgs e3 = ecn_cmsg tg abi t # segment_cmsg abi t @ src"
    "length src = (if t_src_ip t \<noteq> None \<and> tg_linux tg then 1 else 0)" "enc_ok abi e3" by blast
  have "prepare_msg tg abi t = Some \<lparr>m_dest = t_destination t, m_payload = t_contents t,
      m_controllen = en_len e3, m_control = en_msgs e3\<rparr>"
    unfolding prepare_msg_def Let_def e1(1) bind.bind_lunit e2(1) e3(1)
    by (simp add: encoder_finish_def)
  from that [OF this, where src = src] e3(2-5) show thesis
    by (simp add: CMSG_LEN_CONST_def enc_ok_def)
qed

section \<open>Sending\<close>

text \<open>The kernel does not claim to have taken more messages than it was given, and an
  interrupted system call is not interrupted forever.\<close>

fun interrupted :: "sys_result \<Rightarrow> bool" where
  "interrupted (SysErr e) = (os_kind e = Interrupted)"
| "interrupted (SysOk n) = False"

definition calls_ok :: "usize \<Rightarrow> sys_result list \<Rightarrow> bool" where
  "calls_ok num calls \<longleftrightarrow> (\<exists>c \<in> set calls. \<not> interrupted c) \<and> (\<forall>n. SysOk n \<in> set calls \<longrightarrow> n \<le> num)"

text \<open>\<open>counted\<close>: the first \<open>n\<close> transmits are done with, and those of them that the kernel took
  were taken once and in order.\<close>

definition counted :: "transmit list \<Rightarrow> usize \<Rightarrow> transmit list \<Rightarrow> bool" where
  "counted ts n taken \<longleftrightarrow> n \<le> length ts \<and> subseq taken (take n ts)"

lemma counted_taken:
  "counted ts n taken \<Longrightarrow> n < length ts \<Longrightarrow> counted ts (Suc n) (taken @ [ts ! n])"
  by (simp add: counted_def take_Suc_conv_app_nth list_emb_append_mono)

lemma counted_skipped: "counted ts n taken \<Longrightarrow> n < length ts \<Longrightarrow> counted ts (Suc n) taken"
  by (simp add: counted_def take_Suc_conv_app_nth subseq_rev_drop_many)

lemma counted_0: "counted ts 0 taken \<longleftrightarrow> taken = []"
  by (auto simp: counted_def)

definition send_ok :: "usize \<Rightarrow> transmit list \<Rightarrow> sent \<times> (io_error + usize) \<Rightarrow> bool" where
  "send_ok gso ts = (\<lambda>((gso', lse', taken), r). (gso' = gso \<or> gso' = 1)
     \<and> (case r of Inl e \<Rightarrow> io_kind e = WouldBlock \<and> taken = [] | Inr n \<Rightarrow> counted ts n taken))"

lemma send_loop_total:
  assumes "ts \<noteq> []"
  shows "calls_ok (min (length ts) B) calls \<Longrightarrow>
    \<exists>r. send_loop tg now ts (min (length ts) B) gso lse calls = Some r \<and> send_ok gso ts r"
proof (induction calls)
  case Nil
  then show ?case by (simp add: calls_ok_def)
next
  case (Cons c calls)
  show ?case
  proof (cases c)
    case (SysOk n)
    with Cons.prems have "n \<le> length ts" by (auto simp: calls_ok_def)
    with SysOk show ?thesis by (simp add: send_ok_def counted_def)
  next
    case (SysErr e)
    show ?thesis
    proof (cases "os_kind e = Interrupted")
      case True
      with Cons.prems SysErr have "calls_ok (min (length ts) B) calls" by (auto simp: calls_ok_def)
      with Cons.IH True SysErr show ?thesis by simp
    next
      case False
      have "min (min (length ts) B) 1 \<le> length ts" by simp
      with False SysErr assms show ?thesis
        by (cases "os_kind e") (auto simp: send_ok_def counted_def io_error_new_def io_of_os_def Let_def)
    qed
  qed
qed

lemma those_total: "(\<And>x. x \<in> set xs \<Longrightarrow> x \<noteq> None) \<Longrightarrow> those xs \<noteq> None"
  by (induction xs) (auto split: option.splits)

lemma unix_send_total:
  assumes "abi_ok abi" "\<forall>t \<in> set ts. can_segment tg t" "ts \<noteq> []"
    and "calls_ok (min (length ts) BATCH_SIZE_UNIX) calls"
  shows "\<exists>r. unix_send tg abi now gso lse ts calls = Some r \<and> send_ok gso ts r"
proof -
  have "prepare_msg tg abi t \<noteq> None" if "t \<in> set ts" for t
    using prepare_msg_total [OF assms(1), of tg t] assms(2) that by (metis option.distinct(1))
  then have "those (map (prepare_msg tg abi) (take BATCH_SIZE_UNIX ts)) \<noteq> None"
    by (intro those_total) (auto dest: in_set_takeD)
  then show ?thesis
    using send_loop_total [OF assms(3,4)] by (auto simp: unix_send_def Let_def)
qed

text \<open>Without batching: one system call per transmit, in order.\<close>

lemma mac_send_loop_total:
  assumes "abi_ok abi" "\<forall>t \<in> set ts. can_segment tg t"
  shows "length ts - sent \<le> length (filter (Not \<circ> interrupted) calls) \<Longrightarrow> counted ts sent taken \<Longrightarrow>
    \<exists>r. mac_send_loop tg abi now gso ts lse taken sent calls = Some r \<and> send_ok gso ts r"
proof (induction calls arbitrary: lse taken sent)
  case Nil
  then show ?case by (simp add: send_ok_def)
next
  case (Cons c calls)
  show ?case
  proof (cases "sent < length ts")
    case False
    with Cons.prems show ?thesis by (simp add: send_ok_def)
  next
    case True
    then have "prepare_msg tg abi (ts ! sent) \<noteq> None"
      using prepare_msg_total [OF assms(1), of tg "ts ! sent"] assms(2) by (metis nth_mem option.distinct(1))
    then obtain m where m: "prepare_msg tg abi (ts ! sent) = Some m" by blast
    show ?thesis
    proof (cases c)
      case (SysOk n)
      show ?thesis
        using Cons.IH [of "Suc sent" "taken @ [ts ! sent]" lse] Cons.prems counted_taken [OF _ True]
          True SysOk m by auto
    next
      case (SysErr e)
      show ?thesis
        using Cons.IH [of sent taken lse] Cons.IH [of "Suc sent" taken "log_sendmsg_error now lse"]
          Cons.prems counted_skipped [OF _ True] True SysErr m
        by (cases "os_kind e") (auto simp: send_ok_def counted_0 io_of_os_def io_error_new_def)
    qed
  qed
qed

text \<open>The readiness loop around either send.\<close>

fun outcome_ok ::
  "transmit list \<Rightarrow> (io_error \<Rightarrow> bool) \<Rightarrow> transmit list \<Rightarrow> (io_error + usize) poll \<Rightarrow> bool" where
  "outcome_ok ts err taken Pending = (taken = [])"
| "outcome_ok ts err taken (Ready (Inl e)) = (taken = [] \<and> err e)"
| "outcome_ok ts err taken (Ready (Inr n)) = counted ts n taken"

lemma outcome_ok_mono:
  "outcome_ok ts err taken r \<Longrightarrow> (\<And>e. err e \<Longrightarrow> err' e) \<Longrightarrow> outcome_ok ts err' taken r"
  by (induction ts err taken r rule: outcome_ok.induct) auto

definition poll_ok :: "usize \<Rightarrow> transmit list \<Rightarrow> (io_error \<Rightarrow> bool) \<Rightarrow> sent \<times> (io_error + usize) poll \<Rightarrow> bool" where
  "poll_ok gso ts err = (\<lambda>((gso', lse', taken), r).
     (gso' = gso \<or> gso' = 1) \<and> outcome_ok ts err taken r)"

lemma poll_ok_mono:
  "poll_ok g ts err r \<Longrightarrow> g = gso \<or> g = 1 \<Longrightarrow> (\<And>e. err e \<Longrightarrow> err' e) \<Longrightarrow> poll_ok gso ts err' r"
  by (auto simp: poll_ok_def elim: outcome_ok_mono)

lemma poll_send_loop_total:
  assumes send: "\<And>gso lse calls. IsReady calls \<in> set rs0 \<Longrightarrow>
      \<exists>r. send gso lse ts calls = Some r \<and> send_ok gso ts r"
  shows "set rs \<subseteq> set rs0 \<Longrightarrow> \<exists>r. poll_send_loop send gso lse ts rs = Some r
    \<and> poll_ok gso ts (\<lambda>e. ReadyError e \<in> set rs) r"
proof (induction rs arbitrary: gso lse)
  case (Cons r rs)
  show ?case
  proof (cases r)
    case (IsReady calls)
    obtain g l tk res where s: "send gso lse ts calls = Some ((g, l, tk), res)"
      "send_ok gso ts ((g, l, tk), res)"
      using send [of calls gso lse] Cons.prems IsReady by auto
    obtain q where q: "poll_send_loop send g l ts rs = Some q"
      "poll_ok g ts (\<lambda>e. ReadyError e \<in> set rs) q"
      using Cons.IH [of g l] Cons.prems by auto
    have "poll_ok gso ts (\<lambda>e. ReadyError e \<in> set (r # rs)) q"
      using q(2) by (rule poll_ok_mono) (use s(2) in \<open>auto simp: send_ok_def\<close>)
    then show ?thesis
      using IsReady s q(1) by (cases res) (auto simp: send_ok_def poll_ok_def)
  qed (auto simp: poll_ok_def)
qed (auto simp: poll_ok_def)

section \<open>The interface to the layer above\<close>

text \<open>What the socket relies on: on a behaving kernel a send returns, counts no more transmits than
  it was given, those the kernel took are among the counted ones and in order, the segmentation limit is
  lowered only to one, and the send fails only with an error that the readiness of the socket
  reported.\<close>

locale udp_layer =
  fixes poll_send :: "'k \<Rightarrow> usize \<Rightarrow> instant \<Rightarrow> transmit list \<Rightarrow> (sent \<times> (io_error + usize) poll) option"
    and ok :: "'k \<Rightarrow> transmit list \<Rightarrow> bool"
    and fails :: "'k \<Rightarrow> io_error \<Rightarrow> bool"
  assumes sends: "ok k ts \<Longrightarrow> ts \<noteq> [] \<Longrightarrow>
    \<exists>r. poll_send k gso lse ts = Some r \<and> poll_ok gso ts (fails k) r"
begin

lemma sends_cases:
  assumes "ok k ts" "ts \<noteq> []"
  obtains gso' lse' where "gso' = gso \<or> gso' = 1"
      "poll_send k gso lse ts = Some ((gso', lse', []), Pending)"
  | gso' lse' e where "gso' = gso \<or> gso' = 1" "fails k e"
      "poll_send k gso lse ts = Some ((gso', lse', []), Ready (Inl e))"
  | gso' lse' taken n where "gso' = gso \<or> gso' = 1" "counted ts n taken"
      "poll_send k gso lse ts = Some ((gso', lse', taken), Ready (Inr n))"
proof -
  obtain gso' lse' taken r where p: "poll_send k gso lse ts = Some ((gso', lse', taken), r)"
    "poll_ok gso ts (fails k) ((gso', lse', taken), r)"
    using sends [OF assms, of gso lse] by auto
  then show thesis
    using that by (cases "(ts, fails k, taken, r)" rule: outcome_ok.cases) (auto simp: poll_ok_def)
qed

end

text \<open>A kernel is what it answers to each request.\<close>

type_synonym unix_kernel = "target \<times> cmsg_abi \<times> (transmit list \<Rightarrow> send_env)"

definition unix_layer_send ::
  "unix_kernel \<Rightarrow> usize \<Rightarrow> instant \<Rightarrow> transmit list \<Rightarrow> (sent \<times> (io_error + usize) poll) option" where
  "unix_layer_send = (\<lambda>(tg, abi, sn) gso lse ts. unix_poll_send tg abi (sn ts) gso lse ts)"

definition unix_kernel_ok :: "unix_kernel \<Rightarrow> transmit list \<Rightarrow> bool" where
  "unix_kernel_ok = (\<lambda>(tg, abi, sn) ts. abi_ok abi \<and> (\<forall>t \<in> set ts. can_segment tg t)
     \<and> (\<forall>calls. IsReady calls \<in> set (sn_ready (sn ts)) \<longrightarrow> calls_ok (min (length ts) BATCH_SIZE_UNIX) calls))"

definition readiness_fails :: "unix_kernel \<Rightarrow> io_error \<Rightarrow> bool" where
  "readiness_fails = (\<lambda>(tg, abi, sn) e. \<exists>ts. ReadyError e \<in> set (sn_ready (sn ts)))"

interpretation unix_udp: udp_layer unix_layer_send unix_kernel_ok readiness_fails
proof unfold_locales
  fix k ts gso lse
  assume ok: "unix_kernel_ok k ts" and ne: "ts \<noteq> []"
  obtain tg abi sn where k: "k = (tg, abi, sn)" by (cases k) auto
  have "\<exists>r. unix_send tg abi (sn_now (sn ts)) g l ts calls = Some r \<and> send_ok g ts r"
    if "IsReady calls \<in> set (sn_ready (sn ts))" for g l calls
    using ok ne that unfolding k unix_kernel_ok_def by (intro unix_send_total) auto
  then have "\<exists>r. poll_send_loop (unix_send tg abi (sn_now (sn ts))) gso lse ts (sn_ready (sn ts)) = Some r
      \<and> poll_ok gso ts (\<lambda>e. ReadyError e \<in> set (sn_ready (sn ts))) r"
    by (intro poll_send_loop_total [where ?rs0.0 = "sn_ready (sn ts)"]) auto
  then show "\<exists>r. unix_layer_send k gso lse ts = Some r \<and> poll_ok gso ts (readiness_fails k) r"
    by (force simp: k unix_layer_send_def unix_poll_send_def readiness_fails_def intro: poll_ok_mono)
qed

definition mac_layer_send ::
  "unix_kernel \<Rightarrow> usize \<Rightarrow> instant \<Rightarrow> transmit list \<Rightarrow> (sent \<times> (io_error + usize) poll) option" where
  "mac_layer_send = (\<lambda>(tg, abi, sn) gso lse ts. mac_poll_send tg abi (sn ts) gso lse ts)"

definition mac_kernel_ok :: "unix_kernel \<Rightarrow> transmit list \<Rightarrow> bool" where
  "mac_kernel_ok = (\<lambda>(tg, abi, sn) ts. abi_ok abi \<and> (\<forall>t \<in> set ts. can_segment tg t)
     \<and> (\<forall>calls. IsReady calls \<in> set (sn_ready (sn ts)) \<longrightarrow>
          length ts \<le> length (filter (Not \<circ> interrupted) calls)))"

interpretation mac_udp: udp_layer mac_layer_send mac_kernel_ok readiness_fails
proof unfold_locales
  fix k ts gso lse
  assume ok: "mac_kernel_ok k ts"
  obtain tg abi sn where k: "k = (tg, abi, sn)" by (cases k) auto
  have "\<exists>r. mac_send tg abi (sn_now (sn ts)) g l ts calls = Some r \<and> send_ok g ts r"
    if "IsReady calls \<in> set (sn_ready (sn ts))" for g l calls
    using ok that unfolding k mac_kernel_ok_def mac_send_def
    by (intro mac_send_loop_total) (auto simp: counted_0)
  then have "\<exists>r. poll_send_loop (mac_send tg abi (sn_now (sn ts))) gso lse ts (sn_ready (sn ts)) = Some r
      \<and> poll_ok gso ts (\<lambda>e. ReadyError e \<in> set (sn_ready (sn ts))) r"
    by (intro poll_send_loop_total [where ?rs0.0 = "sn_ready (sn ts)"]) auto
  then show "\<exists>r. mac_layer_send k gso lse ts = Some r \<and> poll_ok gso ts (readiness_fails k) r"
    by (force simp: k mac_layer_send_def mac_poll_send_def readiness_fails_def intro: poll_ok_mono)
qed

lemma fallback_send_loop_total:
  "(\<And>e. Ready (Inl e) \<in> set rs \<Longrightarrow> os_kind e \<noteq> WouldBlock) \<Longrightarrow>
   all = done @ ts \<Longrightarrow> counted all (length done) taken \<Longrightarrow>
   \<exists>lse' taken' r. fallback_send_loop now gso lse taken (length done) ts rs = Some ((gso, lse', taken'), r)
     \<and> outcome_ok all (\<lambda>_. False) taken' r"
proof (induction ts arbitrary: lse taken "done" rs)
  case Nil
  then show ?case by simp
next
  case (Cons t ts)
  define r where "r = (case rs of [] \<Rightarrow> Pending | r # _ \<Rightarrow> r)"
  have tl: "os_kind e \<noteq> WouldBlock" if "Ready (Inl e) \<in> set (tl rs)" for e
    using Cons.prems(1) [of e] that by (cases rs) auto
  have all: "all = (done @ [t]) @ ts" "length done < length all" "all ! length done = t"
    using Cons.prems(2) by simp_all
  note next_taken = counted_taken [OF Cons.prems(3) all(2), unfolded all(3)]
    and next_skipped = counted_skipped [OF Cons.prems(3) all(2)]
  show ?case
  proof (cases "\<exists>x. r = Ready (Inr x)")
    case True
    then have eq: "fallback_send_loop now gso lse taken (length done) (t # ts) rs
        = fallback_send_loop now gso lse (taken @ [t]) (length (done @ [t])) ts (tl rs)"
      by (auto simp: r_def)
    show ?thesis unfolding eq by (rule Cons.IH [OF tl all(1)]) (simp_all add: next_taken)
  next
    case no: False
    show ?thesis
    proof (cases "done = [] \<and> (\<exists>e. r = Ready (Inl e))")
      case True
      then obtain e where e: "r = Ready (Inl e)" "done = []" by auto
      then have "Ready (Inl e) \<in> set rs" by (auto simp: r_def split: list.splits)
      then have "os_kind e \<noteq> WouldBlock" by (rule Cons.prems(1))
      with e have eq: "fallback_send_loop now gso lse taken (length done) (t # ts) rs
          = fallback_send_loop now gso (log_sendmsg_error now lse) taken (length (done @ [t])) ts (tl rs)"
        by (auto simp: r_def)
      show ?thesis unfolding eq by (rule Cons.IH [OF tl all(1)]) (simp_all add: next_skipped)
    next
      case False
      with no show ?thesis
        using Cons.prems(3) unfolding fallback_send_loop.simps r_def [symmetric]
        by (cases r; cases "done = []") (auto simp: counted_0 split: sum.splits)
    qed
  qed
qed

type_synonym fallback_kernel = "transmit list \<Rightarrow> fallback_env"

definition fallback_layer_send ::
  "fallback_kernel \<Rightarrow> usize \<Rightarrow> instant \<Rightarrow> transmit list \<Rightarrow> (sent \<times> (io_error + usize) poll) option" where
  "fallback_layer_send fb gso lse ts = fallback_poll_send (fb ts) gso lse ts"

definition fallback_ok :: "fallback_kernel \<Rightarrow> transmit list \<Rightarrow> bool" where
  "fallback_ok fb ts \<longleftrightarrow> (\<forall>e. Ready (Inl e) \<in> set (fb_polls (fb ts)) \<longrightarrow> os_kind e \<noteq> WouldBlock)"

interpretation fallback_udp: udp_layer fallback_layer_send fallback_ok "\<lambda>_ _. False"
proof unfold_locales
  fix k ts gso lse
  assume "fallback_ok k ts"
  then have ok: "\<And>e. Ready (Inl e) \<in> set (fb_polls (k ts)) \<Longrightarrow> os_kind e \<noteq> WouldBlock"
    by (auto simp: fallback_ok_def)
  have "\<exists>lse' taken' r. fallback_send_loop (fb_now (k ts)) gso lse [] (length ([] :: transmit list)) ts (fb_polls (k ts))
      = Some ((gso, lse', taken'), r) \<and> outcome_ok ts (\<lambda>_. False) taken' r"
    by (rule fallback_send_loop_total) (use ok in \<open>auto simp: counted_0\<close>)
  then show "\<exists>r. fallback_layer_send k gso lse ts = Some r \<and> poll_ok gso ts (\<lambda>_. False) r"
    by (auto simp: fallback_layer_send_def fallback_poll_send_def poll_ok_def)
qed

section \<open>Addresses as octets\<close>

lemma fold_octets_bit:
  fixes x :: "'a :: len word"
  shows "n < LENGTH('a) \<Longrightarrow>
    bit (foldl (\<lambda>x (b :: u8). push_bit 8 x OR ucast b) x bs :: 'a word) n
    = (if n < 8 * length bs then bit (rev bs ! (n div 8)) (n mod 8) else bit x (n - 8 * length bs))"
proof (induction bs arbitrary: n rule: rev_induct)
  case Nil
  then show ?case by simp
next
  case (snoc b bs)
  show ?case
  proof (cases "n < 8")
    case True
    with snoc.prems show ?thesis by (simp add: bit_or_iff bit_push_bit_iff bit_ucast_iff)
  next
    case False
    then obtain m where m: "n = m + 8" using le_Suc_ex [of 8 n] by (auto simp: add.commute)
    have "\<not> bit b n" using False bit_imp_le_length [of b n] by auto
    moreover have "(m + 8) div 8 - Suc 0 = m div 8" by simp
    ultimately show ?thesis
      using snoc.prems snoc.IH [of m] m
      by (simp add: bit_or_iff bit_push_bit_iff bit_ucast_iff)
  qed
qed

lemma v4_of_v4_octets [simp]: "v4_of_octets (v4_octets x) = x"
proof (rule bit_word_eqI)
  fix n assume "n < LENGTH(32)"
  then have "n < 32" by simp
  then have "n div 8 < 4" "n mod 8 < 8" by auto
  moreover have "rev (v4_octets x) ! (n div 8) = ucast (drop_bit (8 * (n div 8)) x)"
    using \<open>n div 8 < 4\<close> diff_diff_cancel [of "8 * (n div 8)" 24]
    by (simp add: v4_octets_def rev_nth diff_mult_distrib2)
  ultimately show "bit (v4_of_octets (v4_octets x)) n = bit x n"
    using \<open>n < 32\<close>
    by (auto simp: v4_of_octets_def fold_octets_bit v4_octets_def bit_ucast_iff bit_drop_bit_eq)
qed

lemma v6_of_v6_octets [simp]: "v6_of_octets (v6_octets x) = x"
proof (rule bit_word_eqI)
  fix n assume "n < LENGTH(128)"
  then have "n < 128" by simp
  then have "n div 8 < 16" "n mod 8 < 8" by auto
  moreover have "rev (v6_octets x) ! (n div 8) = ucast (drop_bit (8 * (n div 8)) x)"
    using \<open>n div 8 < 16\<close> diff_diff_cancel [of "8 * (n div 8)" 120]
    by (simp add: v6_octets_def rev_nth diff_mult_distrib2)
  ultimately show "bit (v6_of_octets (v6_octets x)) n = bit x n"
    using \<open>n < 128\<close>
    by (auto simp: v6_of_octets_def fold_octets_bit v6_octets_def bit_ucast_iff bit_drop_bit_eq)
qed

section \<open>What the kernel says of a received message\<close>

text \<open>The control messages as the kernel writes them: the type of service in one byte, the
  traffic class in an \<open>int\<close>, and the two \<open>pktinfo\<close> structures.\<close>

datatype kernel_info =
  KTos u8 | KTclass u8 | KPkt4 "u8 list" "u8 list" "32 word" | KPkt6 "128 word" "u8 list" | KOther nat nat

fun kernel_cmsg :: "cmsg_abi \<Rightarrow> kernel_info \<Rightarrow> cmsg" where
  "kernel_cmsg abi (KTos b) =
     \<lparr>cm_level = IPPROTO_IP, cm_type = IP_TOS, cm_len = abi_len abi 1, cm_data = [b]\<rparr>"
| "kernel_cmsg abi (KTclass b) =
     \<lparr>cm_level = IPPROTO_IPV6, cm_type = IPV6_TCLASS, cm_len = abi_len abi 4,
      cm_data = u32_to_le_bytes (ucast b)\<rparr>"
| "kernel_cmsg abi (KPkt4 ifindex spec addr) =
     \<lparr>cm_level = IPPROTO_IP, cm_type = IP_PKTINFO, cm_len = abi_len abi 12,
      cm_data = take 4 (ifindex @ replicate 4 0) @ take 4 (spec @ replicate 4 0) @ v4_octets addr\<rparr>"
| "kernel_cmsg abi (KPkt6 addr ifindex) =
     \<lparr>cm_level = IPPROTO_IPV6, cm_type = IPV6_PKTINFO, cm_len = abi_len abi 20,
      cm_data = v6_octets addr @ take 4 (ifindex @ replicate 4 0)\<rparr>"
| "kernel_cmsg abi (KOther lv ty) =
     \<lparr>cm_level = OtherLevel lv, cm_type = OtherType ty, cm_len = abi_len abi 0, cm_data = []\<rparr>"

fun info_bits :: "kernel_info \<Rightarrow> u8 \<Rightarrow> u8" where
  "info_bits (KTos b) _ = b"
| "info_bits (KTclass b) _ = b"
| "info_bits _ bits = bits"

fun info_dst :: "kernel_info \<Rightarrow> ip_addr option \<Rightarrow> ip_addr option" where
  "info_dst (KPkt4 _ _ addr) _ = Some (IpV4 addr)"
| "info_dst (KPkt6 addr _) _ = Some (IpV6 addr)"
| "info_dst _ dst = dst"

lemma u32_to_le_bytes_0 [simp]: "u32_to_le_bytes (ucast (b :: u8)) ! 0 = b"
  by (simp add: u32_to_le_bytes_def)

lemma decode_kernel_cmsg:
  assumes "abi_ok abi" "abi_len abi 4 \<noteq> abi_len abi 1"
  shows "decode_cmsg tg abi (kernel_cmsg abi k) (bits, dst) = Some (info_bits k bits, info_dst k dst)"
proof -
  have "4 \<le> abi_align abi" using assms by (simp add: abi_ok_def)
  then show ?thesis
    using assms(2) by (cases k) (auto simp: decode_cmsg_def decode_def slice_def)
qed

lemma decode_kernel_cmsgs:
  assumes "abi_ok abi" "abi_len abi 4 \<noteq> abi_len abi 1"
  shows "decode_cmsgs tg abi (map (kernel_cmsg abi) ks) (bits, dst) =
    Some (fold info_bits ks bits, fold info_dst ks dst)"
  by (induction ks arbitrary: bits dst) (simp_all add: decode_kernel_cmsg [OF assms])

text \<open>A datagram as the kernel hands it over, and what the layer above is to learn of it.\<close>

type_synonym kernel_dgram = "socket_addr \<times> kernel_info list \<times> u8 list"

fun kernel_msg :: "cmsg_abi \<Rightarrow> kernel_dgram \<Rightarrow> recv_msg" where
  "kernel_msg abi (addr, ks, data) =
     \<lparr>rv_name = NameAddr addr, rv_control = map (kernel_cmsg abi) ks, rv_data = data, rv_trunc = False\<rparr>"

fun kernel_meta :: "kernel_dgram \<Rightarrow> recv_meta" where
  "kernel_meta (addr, ks, data) =
     \<lparr>rm_addr = addr, rm_len = length data, rm_ecn = ecn_from_bits (fold info_bits ks 0),
      rm_dst_ip = fold info_dst ks None\<rparr>"

lemma decode_kernel_msg:
  assumes "abi_ok abi" "abi_len abi 4 \<noteq> abi_len abi 1"
  shows "decode_recv tg abi (kernel_msg abi d) (length (snd (snd d))) = Some (kernel_meta d)"
  by (cases d) (simp add: decode_recv_def decode_kernel_cmsgs [OF assms])

lemma those_map_Some: "(\<And>x. x \<in> set xs \<Longrightarrow> f x = Some (g x)) \<Longrightarrow> those (map f xs) = Some (map g xs)"
  by (induction xs) auto

text \<open>A system call that is interrupted at most finitely often and then either fails or hands
  over a batch.\<close>

abbreviation fits_buffer :: "kernel_dgram \<Rightarrow> bool" where
  "fits_buffer d \<equiv> length (snd (snd d)) \<le> UDX_MTU"

fun recv_call_ok :: "cmsg_abi \<Rightarrow> usize \<Rightarrow> recv_result \<Rightarrow> bool" where
  "recv_call_ok abi batch (RecvErr e) = True"
| "recv_call_ok abi batch (RecvOk ms) =
     (\<exists>ds. ms = map (kernel_msg abi) ds \<and> length ds \<le> batch \<and> list_all fits_buffer ds)"

fun recv_interrupted :: "recv_result \<Rightarrow> bool" where
  "recv_interrupted (RecvErr e) = (os_kind e = Interrupted)"
| "recv_interrupted (RecvOk ms) = False"

definition recv_kernel_ok :: "cmsg_abi \<Rightarrow> usize \<Rightarrow> recv_result list \<Rightarrow> bool" where
  "recv_kernel_ok abi batch calls \<longleftrightarrow> (\<exists>c \<in> set calls. \<not> recv_interrupted c)
     \<and> (\<forall>c \<in> set calls. recv_call_ok abi batch c)"

abbreviation handed_over :: "kernel_dgram list \<Rightarrow> received" where
  "handed_over ds \<equiv> map (\<lambda>d. (snd (snd d), kernel_meta d)) ds"

lemma rv_data_kernel_msg [simp]: "rv_data (kernel_msg abi d) = snd (snd d)"
  by (cases d) simp

lemma unix_recv_total:
  assumes abi: "abi_ok abi" "abi_len abi 4 \<noteq> abi_len abi 1"
  shows "recv_kernel_ok abi batch calls \<Longrightarrow>
    (\<exists>e. unix_recv tg abi batch calls = Some (Inl e) \<and> io_kind e \<noteq> Interrupted)
    \<or> (\<exists>ds. unix_recv tg abi batch calls = Some (Inr (handed_over ds))
         \<and> RecvOk (map (kernel_msg abi) ds) \<in> set calls \<and> length ds \<le> batch \<and> list_all fits_buffer ds)"
proof (induction calls)
  case Nil
  then show ?case by (simp add: recv_kernel_ok_def)
next
  case (Cons c calls)
  show ?case
  proof (cases c)
    case (RecvErr e)
    then show ?thesis
      using Cons by (auto simp: recv_kernel_ok_def io_of_os_def io_error_new_def)
  next
    case (RecvOk ms)
    with Cons.prems obtain ds where ds: "ms = map (kernel_msg abi) ds" "length ds \<le> batch"
      "list_all fits_buffer ds"
      by (auto simp: recv_kernel_ok_def)
    have "those (map (\<lambda>m. decode_recv tg abi m (length (rv_data m))) ms) = Some (map kernel_meta ds)"
      using decode_kernel_msg [OF abi, of tg] by (simp add: ds(1) comp_def those_map_Some)
    with RecvOk ds have "unix_recv tg abi batch (c # calls) = Some (Inr (handed_over ds))"
      by (simp add: zip_map_map zip_same_conv_map)
    then show ?thesis using RecvOk ds by auto
  qed
qed

lemma unix_poll_recv_total:
  assumes abi: "abi_ok abi" "abi_len abi 4 \<noteq> abi_len abi 1"
  shows "\<forall>calls. IsReady calls \<in> set rs \<longrightarrow> recv_kernel_ok abi BATCH_SIZE_UNIX calls \<Longrightarrow>
    unix_poll_recv tg abi rs = Some Pending
    \<or> (\<exists>e. unix_poll_recv tg abi rs = Some (Ready (Inl e)) \<and> (io_kind e \<noteq> WouldBlock \<or> ReadyError e \<in> set rs))
    \<or> (\<exists>ds calls. unix_poll_recv tg abi rs = Some (Ready (Inr (handed_over ds)))
         \<and> IsReady calls \<in> set rs \<and> RecvOk (map (kernel_msg abi) ds) \<in> set calls
         \<and> length ds \<le> BATCH_SIZE_UNIX \<and> list_all fits_buffer ds)"
proof (induction rs)
  case Nil
  then show ?case by (simp add: unix_poll_recv_def)
next
  case (Cons r rs)
  show ?case
  proof (cases r)
    case (IsReady calls)
    with Cons.prems have "recv_kernel_ok abi BATCH_SIZE_UNIX calls" by simp
    from unix_recv_total [OF abi this, of tg] show ?thesis
    proof (elim disjE exE conjE)
      fix e assume e: "unix_recv tg abi BATCH_SIZE_UNIX calls = Some (Inl e)"
      show ?thesis
      proof (cases "io_kind e = WouldBlock")
        case True
        then have eq: "unix_poll_recv tg abi (r # rs) = unix_poll_recv tg abi rs"
          using e IsReady by (simp add: unix_poll_recv_def)
        have "\<forall>calls. IsReady calls \<in> set rs \<longrightarrow> recv_kernel_ok abi BATCH_SIZE_UNIX calls"
          using Cons.prems by simp
        from Cons.IH [OF this] show ?thesis unfolding eq set_simps by blast
      next
        case False
        then show ?thesis using e IsReady by (simp add: unix_poll_recv_def)
      qed
    next
      fix ds assume "unix_recv tg abi BATCH_SIZE_UNIX calls = Some (Inr (handed_over ds))"
        "RecvOk (map (kernel_msg abi) ds) \<in> set calls" "length ds \<le> BATCH_SIZE_UNIX"
        "list_all fits_buffer ds"
      moreover from this have "unix_poll_recv tg abi (r # rs) = Some (Ready (Inr (handed_over ds)))"
        using IsReady by (simp add: unix_poll_recv_def)
      ultimately show ?thesis using IsReady unfolding set_simps by blast
    qed
  qed (simp_all add: unix_poll_recv_def)
qed

section \<open>The interface for receiving\<close>

text \<open>What the socket relies on: on a behaving kernel a receive returns, fills at most as many
  buffers as there are, none beyond its end, and what it returns has arrived.\<close>

definition received_ok :: "usize \<Rightarrow> (socket_addr \<times> u8 list) set \<Rightarrow> (io_error + received) poll \<Rightarrow> bool" where
  "received_ok batch arrived p \<longleftrightarrow> (\<forall>ds. p = Ready (Inr ds) \<longrightarrow> length ds \<le> batch
     \<and> (\<forall>(data, meta) \<in> set ds. rm_len meta = length data \<and> length data \<le> UDX_MTU
          \<and> (rm_addr meta, data) \<in> arrived))"

locale udp_receiver =
  fixes poll_recv :: "'r \<Rightarrow> usize \<Rightarrow> (io_error + received) poll option"
    and recv_ok :: "'r \<Rightarrow> bool"
    and arrived :: "'r \<Rightarrow> (socket_addr \<times> u8 list) set"
    and batch :: usize
  assumes receives: "recv_ok r \<Longrightarrow> \<exists>p. poll_recv r i = Some p \<and> received_ok batch (arrived r) p"
    and batch_pos: "0 < batch"

type_synonym unix_network = "target \<times> cmsg_abi \<times> (usize \<Rightarrow> recv_result readiness list)"

definition unix_layer_recv :: "unix_network \<Rightarrow> usize \<Rightarrow> (io_error + received) poll option" where
  "unix_layer_recv = (\<lambda>(tg, abi, rs) i. unix_poll_recv tg abi (rs i))"

definition unix_network_ok :: "unix_network \<Rightarrow> bool" where
  "unix_network_ok = (\<lambda>(tg, abi, rs). abi_ok abi \<and> abi_len abi 4 \<noteq> abi_len abi 1
     \<and> (\<forall>i calls. IsReady calls \<in> set (rs i) \<longrightarrow> recv_kernel_ok abi BATCH_SIZE_UNIX calls))"

definition unix_arrived :: "unix_network \<Rightarrow> (socket_addr \<times> u8 list) set" where
  "unix_arrived = (\<lambda>(tg, abi, rs). {(addr, data). \<exists>i calls ds ks. IsReady calls \<in> set (rs i)
     \<and> RecvOk (map (kernel_msg abi) ds) \<in> set calls \<and> (addr, ks, data) \<in> set ds})"

lemma received_ok_handed_over:
  assumes "length ds \<le> batch" "list_all fits_buffer ds"
    and "\<And>addr ks data. (addr, ks, data) \<in> set ds \<Longrightarrow> (addr, data) \<in> arrived"
  shows "received_ok batch arrived (Ready (Inr (handed_over ds)))"
  using assms by (fastforce simp: received_ok_def list_all_iff)

interpretation unix_receiver: udp_receiver unix_layer_recv unix_network_ok unix_arrived BATCH_SIZE_UNIX
proof unfold_locales
  fix r i
  assume ok: "unix_network_ok r"
  obtain tg abi rs where r: "r = (tg, abi, rs)" by (cases r) auto
  have "abi_ok abi" "abi_len abi 4 \<noteq> abi_len abi 1"
    "\<forall>calls. IsReady calls \<in> set (rs i) \<longrightarrow> recv_kernel_ok abi BATCH_SIZE_UNIX calls"
    using ok by (simp_all add: r unix_network_ok_def)
  from unix_poll_recv_total [OF this, of tg]
  show "\<exists>p. unix_layer_recv r i = Some p \<and> received_ok BATCH_SIZE_UNIX (unix_arrived r) p"
  proof (elim disjE exE conjE)
    fix ds calls
    assume d: "unix_poll_recv tg abi (rs i) = Some (Ready (Inr (handed_over ds)))"
      "IsReady calls \<in> set (rs i)" "RecvOk (map (kernel_msg abi) ds) \<in> set calls"
      "length ds \<le> BATCH_SIZE_UNIX" "list_all fits_buffer ds"
    have "received_ok BATCH_SIZE_UNIX (unix_arrived r) (Ready (Inr (handed_over ds)))"
      using d(4,5) by (rule received_ok_handed_over) (use d(2,3) in \<open>auto simp: r unix_arrived_def\<close>)
    with d(1) show ?thesis by (simp add: r unix_layer_recv_def)
  qed (auto simp: r unix_layer_recv_def received_ok_def)
qed (simp add: BATCH_SIZE_UNIX_def)

text \<open>On a platform of \<open>fallback.rs\<close> the runtime's socket says what arrived.\<close>

type_synonym fallback_network = "usize \<Rightarrow> (io_error + u8 list \<times> socket_addr) poll"

definition fallback_layer_recv :: "fallback_network \<Rightarrow> usize \<Rightarrow> (io_error + received) poll option" where
  "fallback_layer_recv r i = fallback_poll_recv (r i)"

definition fallback_network_ok :: "fallback_network \<Rightarrow> bool" where
  "fallback_network_ok r \<longleftrightarrow> (\<forall>i data addr. r i = Ready (Inr (data, addr)) \<longrightarrow> length data \<le> UDX_MTU)"

definition fallback_arrived :: "fallback_network \<Rightarrow> (socket_addr \<times> u8 list) set" where
  "fallback_arrived r = {(addr, data). \<exists>i. r i = Ready (Inr (data, addr))}"

interpretation fallback_receiver:
  udp_receiver fallback_layer_recv fallback_network_ok fallback_arrived BATCH_SIZE_SINGLE
  by unfold_locales
    (auto simp: fallback_layer_recv_def fallback_poll_recv_def fallback_network_ok_def
       fallback_arrived_def received_ok_def BATCH_SIZE_SINGLE_def split: poll.splits sum.splits)

lemma set_options_ok:
  "set_options opts calls = (os, Inr ()) \<Longrightarrow>
   os = opts \<and> (\<forall>c \<in> set (take (length opts) calls). \<exists>n. c = SysOk n)"
  by (induction opts calls arbitrary: os rule: set_options.induct) (auto split: prod.splits)

section \<open>Properties\<close>


definition ex_linux :: target where
  "ex_linux = \<lparr>tg_linux = True, tg_macos = False, tg_freebsd = False\<rparr>"

definition ex_bound :: socket_addr where
  "ex_bound = SocketAddrV4 0 9000"

definition ex_transmit :: transmit where
  "ex_transmit = \<lparr>t_destination = SocketAddrV6 1 7000 0 0, t_ecn = Some Ect0,
     t_contents = [1, 2, 3, 4], t_segment_size = Some 2, t_src_ip = Some (IpV6 1)\<rparr>"


text \<open>C30: on a behaving kernel \<open>poll_send\<close> returns. When it counts \<open>n\<close> transmits, the kernel took
  some of the first \<open>n\<close>, each once and in order; otherwise it took none. The limit for
  segmentation offload stays or becomes one, and \<open>poll_send\<close> fails only with an error of the readiness
  of the socket, never with one of the system call.\<close>

theorem unix_poll_send_contract:
  assumes "abi_ok abi" "\<forall>t \<in> set ts. can_segment tg t" "ts \<noteq> []"
    and "\<forall>calls. IsReady calls \<in> set (sn_ready sn) \<longrightarrow> calls_ok (min (length ts) BATCH_SIZE_UNIX) calls"
  shows "\<exists>gso' lse' taken r. unix_poll_send tg abi sn gso lse ts = Some ((gso', lse', taken), r)
    \<and> (gso' = gso \<or> gso' = 1)
    \<and> (r = Pending \<and> taken = [] \<or> (\<exists>e. r = Ready (Inl e) \<and> taken = [] \<and> ReadyError e \<in> set (sn_ready sn))
       \<or> (\<exists>n \<le> length ts. r = Ready (Inr n) \<and> subseq taken (take n ts)))"
proof -
  have "unix_kernel_ok (tg, abi, \<lambda>_. sn) ts" using assms by (simp add: unix_kernel_ok_def)
  then show ?thesis
    by (cases rule: unix_udp.sends_cases [OF _ assms(3), of _ gso lse])
      (auto simp: unix_layer_send_def readiness_fails_def counted_def)
qed

text \<open>C31: on a behaving kernel \<open>poll_recv\<close> returns, and what it returns is a batch the kernel handed
  over: per datagram its bytes, its sender, its length, the congestion codepoint of the
  last type of service or traffic class and the destination of the last packet information.\<close>

theorem unix_poll_recv_correct:
  assumes "abi_ok abi" "abi_len abi 4 \<noteq> abi_len abi 1"
    and "\<forall>calls. IsReady calls \<in> set rs \<longrightarrow> recv_kernel_ok abi BATCH_SIZE_UNIX calls"
  shows "unix_poll_recv tg abi rs = Some Pending
    \<or> (\<exists>e. unix_poll_recv tg abi rs = Some (Ready (Inl e)) \<and> (io_kind e \<noteq> WouldBlock \<or> ReadyError e \<in> set rs))
    \<or> (\<exists>ds calls. unix_poll_recv tg abi rs = Some (Ready (Inr (handed_over ds)))
         \<and> IsReady calls \<in> set rs \<and> RecvOk (map (kernel_msg abi) ds) \<in> set calls)"
  using unix_poll_recv_total [OF assms, of tg] by blast


definition ex_sn :: send_env where
  "ex_sn = \<lparr>sn_now = 0, sn_ready = [IsReady [SysErr \<lparr>os_kind = Interrupted, os_display = '''', os_raw = 4\<rparr>,
     SysErr \<lparr>os_kind = OtherKind, os_display = '''', os_raw = EIO\<rparr>]]\<rparr>"

theorem unix_poll_send_contract_witness:
  "\<exists>gso' lse' taken r. unix_poll_send ex_linux linux_abi ex_sn 64 0 [ex_transmit]
        = Some ((gso', lse', taken), r)
    \<and> (gso' = 64 \<or> gso' = 1)
    \<and> (r = Pending \<and> taken = [] \<or> (\<exists>e. r = Ready (Inl e) \<and> taken = [] \<and> ReadyError e \<in> set (sn_ready ex_sn))
       \<or> (\<exists>n \<le> length [ex_transmit]. r = Ready (Inr n) \<and> subseq taken (take n [ex_transmit])))"
  by (rule unix_poll_send_contract)
    (simp_all add: linux_abi_ok can_segment_def ex_linux_def ex_sn_def calls_ok_def)

definition ex_dgram :: kernel_dgram where
  "ex_dgram = (SocketAddrV4 1 9000, [KTos 3, KPkt4 [2, 0, 0, 0] [127, 0, 0, 1] 2130706433], [7, 8, 9])"

definition ex_ready :: "recv_result readiness list" where
  "ex_ready = [IsReady [RecvErr \<lparr>os_kind = Interrupted, os_display = '''', os_raw = 4\<rparr>,
     RecvOk [kernel_msg linux_abi ex_dgram]]]"

theorem unix_poll_recv_correct_witness:
  "unix_poll_recv ex_linux linux_abi ex_ready = Some Pending
    \<or> (\<exists>e. unix_poll_recv ex_linux linux_abi ex_ready = Some (Ready (Inl e))
         \<and> (io_kind e \<noteq> WouldBlock \<or> ReadyError e \<in> set ex_ready))
    \<or> (\<exists>ds calls. unix_poll_recv ex_linux linux_abi ex_ready = Some (Ready (Inr (handed_over ds)))
         \<and> IsReady calls \<in> set ex_ready \<and> RecvOk (map (kernel_msg linux_abi) ds) \<in> set calls)"
proof (rule unix_poll_recv_correct)
  have "\<exists>ds. [kernel_msg linux_abi ex_dgram] = map (kernel_msg linux_abi) ds \<and> length ds \<le> BATCH_SIZE_UNIX
      \<and> list_all fits_buffer ds"
    by (intro exI [of _ "[ex_dgram]"]) (simp add: BATCH_SIZE_UNIX_def ex_dgram_def UDX_MTU_def)
  then show "\<forall>calls. IsReady calls \<in> set ex_ready \<longrightarrow> recv_kernel_ok linux_abi BATCH_SIZE_UNIX calls"
    by (simp add: ex_ready_def recv_kernel_ok_def)
qed (simp add: linux_abi_ok, simp add: linux_abi_def)



end
