(* ===== verification/Udx_Stream_Acct.thy ===== *)
theory Udx_Stream_Acct
  imports Udx_Stream
begin

text \<open>
  The sender's books: \<open>acct\<close> ties the byte counters of a stream to the packets that are
  neither acknowledged nor given up. It is kept by every operation whatever packets arrive,
  and under it none of the subtractions of the sender can underflow.

  \<open>tx_frame\<close> says which fields the sender-side operations leave alone; \<open>heap_le\<close> says that
  a packet cell, once allocated, keeps its header, destination and bytes.
\<close>

section \<open>Definitions\<close>

definition flight :: "heap \<Rightarrow> arc \<Rightarrow> nat" where
  "flight h a = (if p_waiting (h ! a) then 0 else packet_len (h ! a))"

definition payload :: "heap \<Rightarrow> arc \<Rightarrow> nat" where
  "payload h a = packet_data_len (h ! a)"

definition books :: "heap \<Rightarrow> (u32 \<times> arc) list \<Rightarrow> u32 \<Rightarrow> nat \<Rightarrow> nat \<Rightarrow> nat \<Rightarrow> bool" where
  "books h out seq inflight bytes packets \<longleftrightarrow>
     uniq_keys out
     \<and> (\<forall>k a. map_of out k = Some a \<longrightarrow>
          a < length h \<and> packet_seq (h ! a) = k \<and> k < seq)
     \<and> inflight = wsum (flight h) out
     \<and> bytes = wsum (payload h) out
     \<and> packets = wsum (\<lambda>_. 1) out"

definition acct :: "udx_stream \<Rightarrow> bool" where
  "acct s \<longleftrightarrow>
     books (s_heap s) (s_outgoing s) (s_seq s) (s_inflight s)
       (st_inflight_bytes (s_stats s)) (st_inflight_packets (s_stats s))
     \<and> UDX_MTU \<le> s_cwnd s"

definition same_cell :: "packet \<Rightarrow> packet \<Rightarrow> bool" where
  "same_cell p q \<longleftrightarrow> p_header p = p_header q \<and> p_buf p = p_buf q \<and> p_dest p = p_dest q"

definition heap_le :: "heap \<Rightarrow> heap \<Rightarrow> bool" where
  "heap_le h h' \<longleftrightarrow> length h \<le> length h' \<and> (\<forall>a < length h. same_cell (h ! a) (h' ! a))"

definition erase_tx :: "udx_stream \<Rightarrow> udx_stream" where
  "erase_tx s = s\<lparr>s_heap := [], s_outgoing := [], s_inflight := 0, s_stats := stream_stats_default,
     s_srtt := 0, s_rttvar := 0, s_rto := 0, s_cwnd := 0, s_rto_timeout := 0,
     s_remote_acked := 0, s_send_queue := [], s_send_tx := [], s_write_waker := None,
     s_woken := []\<rparr>"

definition tx_frame :: "udx_stream \<Rightarrow> udx_stream \<Rightarrow> bool" where
  "tx_frame s t \<longleftrightarrow> erase_tx t = erase_tx s \<and> heap_le (s_heap s) (s_heap t)"

section \<open>Frames\<close>

lemma heap_le_refl [simp]: "heap_le h h"
  by (simp add: heap_le_def same_cell_def)

lemma heap_le_trans [trans]: "heap_le h1 h2 \<Longrightarrow> heap_le h2 h3 \<Longrightarrow> heap_le h1 h3"
  by (force simp: heap_le_def same_cell_def)

lemma heap_le_update:
  "same_cell (h ! a) p \<Longrightarrow> heap_le h (h[a := p])"
  by (cases "a < length h") (auto simp: heap_le_def same_cell_def nth_list_update list_update_beyond)

lemma heap_le_append [simp]: "heap_le h (h @ ps)"
  by (simp add: heap_le_def same_cell_def nth_append)

lemma tx_frame_refl [simp]: "tx_frame s s"
  by (simp add: tx_frame_def)

lemma tx_frame_trans [trans]: "tx_frame s t \<Longrightarrow> tx_frame t u \<Longrightarrow> tx_frame s u"
  by (auto simp: tx_frame_def intro: heap_le_trans)

lemma tx_frameD:
  assumes "tx_frame s t"
  shows "s_seq t = s_seq s" "s_seq_flushed t = s_seq_flushed s" "s_ack t = s_ack s"
    "s_incoming t = s_incoming s" "s_read_cursor t = s_read_cursor s"
    "s_recv_rx t = s_recv_rx s" "s_recv_open t = s_recv_open s" "s_send_open t = s_send_open s"
    "s_remote_id t = s_remote_id s" "s_local_id t = s_local_id s"
    "s_remote_addr t = s_remote_addr s" "s_read_waker t = s_read_waker s"
    "s_drive_waker t = s_drive_waker s" "s_error t = s_error s" "s_on_close t = s_on_close s"
    "s_on_firewall t = s_on_firewall s" "s_state t = s_state s"
    "s_max_gso_segments t = s_max_gso_segments s" "s_close_sent t = s_close_sent s"
    "heap_le (s_heap s) (s_heap t)"
  using assms unfolding tx_frame_def erase_tx_def by (cases s; cases t; simp)+


section \<open>Wakers, state packets and closing in closed form\<close>

definition waker_list :: "waker option \<Rightarrow> waker list" where
  "waker_list w = (case w of None \<Rightarrow> [] | Some w \<Rightarrow> [w])"

lemma waker_list_simps [simp]: "waker_list None = []" "waker_list (Some w) = [w]"
  by (simp_all add: waker_list_def)

lemma wake_eqs:
  "wake_reader s = s\<lparr>s_read_waker := None, s_woken := s_woken s @ waker_list (s_read_waker s)\<rparr>"
  "wake_writer s = s\<lparr>s_write_waker := None, s_woken := s_woken s @ waker_list (s_write_waker s)\<rparr>"
  "wake_driver s = s\<lparr>s_drive_waker := None, s_woken := s_woken s @ waker_list (s_drive_waker s)\<rparr>"
  by (cases s; simp add: wake_reader_def wake_writer_def wake_driver_def split: option.split)+

definition state_typ :: "udx_error option \<Rightarrow> u32" where
  "state_typ e = (if e \<noteq> None then UDX_HEADER_END else 0)"

definition tx_packets_inc :: "stream_stats \<Rightarrow> stream_stats" where
  "tx_packets_inc st = st\<lparr>st_tx_packets := st_tx_packets st + 1\<rparr>"

lemma tx_packets_inc_simps [simp]:
  "st_inflight_bytes (tx_packets_inc st) = st_inflight_bytes st"
  "st_inflight_packets (tx_packets_inc st) = st_inflight_packets st"
  by (simp_all add: tx_packets_inc_def)

lemma send_state_packet_eq:
  "send_state_packet s = s\<lparr>
     s_send_queue := s_send_queue s @ [Owned (create_packet s (state_typ (s_error s)) [])],
     s_drive_waker := None, s_woken := s_woken s @ waker_list (s_drive_waker s),
     s_stats := tx_packets_inc (s_stats s)\<rparr>"
  by (simp add: send_state_packet_def wake_eqs state_typ_def tx_packets_inc_def Let_def)

text \<open>The packet that announces the end of the stream.\<close>

definition end_packet :: "udx_stream \<Rightarrow> packet" where
  "end_packet s = packet_new (s_remote_addr s)
     \<lparr>hdr_typ = UDX_HEADER_END, hdr_data_offset = 0, hdr_stream_id = s_remote_id s,
      hdr_recv_win = u32_max, hdr_seq = s_seq s, hdr_ack = s_ack s\<rparr> []"

lemma local_closed_close_local [simp]: "local_closed (close_local st)"
  by (cases st) (simp_all add: local_closed_def)

lemma terminate_eq:
  "terminate e s = s\<lparr>s_error := Some e, s_state := close_local (s_state s),
     s_send_queue := s_send_queue s @ [Owned (end_packet s)],
     s_read_waker := None, s_write_waker := None, s_drive_waker := None,
     s_woken := s_woken s @ waker_list (s_drive_waker s) @ waker_list (s_read_waker s)
       @ waker_list (s_write_waker s),
     s_stats := tx_packets_inc (s_stats s)\<rparr>"
  by (cases s) (simp add: terminate_def send_state_packet_eq wake_eqs state_typ_def
      create_packet_def create_header_def end_packet_def Let_def)

section \<open>The books under changes to one cell\<close>

lemma same_cell_simps:
  assumes "same_cell p q"
  shows "packet_len p = packet_len q" "packet_data_len p = packet_data_len q"
    "packet_seq p = packet_seq q"
  using assms
  by (simp_all add: same_cell_def packet_len_def packet_data_len_def packet_seq_def)

lemma same_cell_nth:
  "same_cell (h ! a) p \<Longrightarrow> b < length h \<Longrightarrow> same_cell (h ! b) (h[a := p] ! b)"
  by (cases "b = a") (simp_all add: same_cell_def)

lemma booksD:
  assumes "books h out seq n b k"
  shows "uniq_keys out"
    "map_of out i = Some a \<Longrightarrow> a < length h"
    "map_of out i = Some a \<Longrightarrow> packet_seq (h ! a) = i"
    "map_of out i = Some a \<Longrightarrow> i < seq"
    "n = wsum (flight h) out" "b = wsum (payload h) out" "k = wsum (\<lambda>_. 1) out"
  using assms by (auto simp: books_def)

lemma books_inj:
  "books h out seq n b k \<Longrightarrow> map_of out i = Some a \<Longrightarrow> map_of out j = Some a \<Longrightarrow> i = j"
  by (metis booksD(3))

text \<open>The weight of the packet under key \<open>i\<close> is part of each total.\<close>

lemma books_ge:
  assumes "books h out seq n b k" "map_of out i = Some a"
  shows "flight h a \<le> n" "payload h a \<le> b" "1 \<le> k"
  using assms alist.total_ge [of out i a] by (auto simp: books_def)

lemma books_remove:
  assumes bk: "books h out seq n b k" and i: "map_of out i = Some a"
  shows "books h (AList.delete i out) seq (n - flight h a) (b - payload h a) (k - 1)"
proof -
  note u = booksD(1) [OF bk]
  from alist.total_remove [OF u i, of "flight h"] alist.total_remove [OF u i, of "payload h"]
    alist.total_remove [OF u i, of "\<lambda>_. 1"] bk
  show ?thesis
    by (auto simp: books_def delete_conv' distinct_delete split: if_splits)
qed

text \<open>A cell may change its atomic fields; unless \<open>waiting\<close> changes, the books do not notice.\<close>

lemma books_heap:
  assumes bk: "books h out seq n b k" and le: "heap_le h h'"
    and n': "n' = wsum (flight h') out"
  shows "books h' out seq n' b k"
proof -
  have cell: "same_cell (h ! a) (h' ! a)" "a < length h'" if "map_of out i = Some a" for i a
    using le booksD(2) [OF bk that] by (auto simp: heap_le_def)
  have "wsum (payload h') out = wsum (payload h) out"
    by (rule wsum_cong [OF booksD(1) [OF bk]])
      (simp add: payload_def same_cell_simps(2) [OF cell(1)])
  then have "b = wsum (payload h') out" using booksD(6) [OF bk] by simp
  moreover have "a < length h' \<and> packet_seq (h' ! a) = i \<and> i < seq" if "map_of out i = Some a" for i a
    using cell [OF that] booksD(3,4) [OF bk that] same_cell_simps(3) [OF cell(1) [OF that]] by simp
  ultimately show ?thesis
    using booksD(1,7) [OF bk] n' unfolding books_def by blast
qed

lemma books_cell:
  assumes bk: "books h out seq n b k" and p: "same_cell (h ! a) p"
    and w: "p_waiting p = p_waiting (h ! a)"
  shows "books (h[a := p]) out seq n b k"
proof (rule books_heap [OF bk heap_le_update [OF p]])
  have "flight (h[a := p]) c = flight h c" if "c < length h" for c
    using same_cell_simps(1) [OF p] w that by (cases "c = a") (simp_all add: flight_def)
  then have "wsum (flight (h[a := p])) out = wsum (flight h) out"
    using booksD(2) [OF bk] by (intro wsum_cong [OF booksD(1) [OF bk]]) blast
  then show "n = wsum (flight (h[a := p])) out"
    using booksD(5) [OF bk] by simp
qed

text \<open>Changing \<open>waiting\<close> for the packet under \<open>i\<close> needs \<open>inflight\<close> to move with it.\<close>

lemma books_cell_waiting:
  assumes bk: "books h out seq n b k" and i: "map_of out i = Some a"
    and p: "same_cell (h ! a) p"
    and n': "n' + flight h a = n + (if p_waiting p then 0 else packet_len p)"
  shows "books (h[a := p]) out seq n' b k"
proof (rule books_heap [OF bk heap_le_update [OF p]])
  note a = booksD(2) [OF bk i]
  have "flight (h[a := p]) v = flight h v" if "map_of out j = Some v" "j \<noteq> i" for j v
    using books_inj [OF bk i, of j] that by (cases "v = a") (auto simp: flight_def)
  then have "wsum (flight (h[a := p])) out + flight h a = wsum (flight h) out + flight (h[a := p]) a"
    by (rule alist.total_reweigh [OF booksD(1) [OF bk] i])
  then show "n' = wsum (flight (h[a := p])) out"
    using n' booksD(5) [OF bk]
    unfolding flight_def [of "h[a := p]" a] nth_list_update_eq [OF a] by linarith
qed

lemma books_insert:
  assumes bk: "books h out seq n b k" and seq: "seq \<noteq> u32_max"
    and p: "packet_seq p = seq" "\<not> p_waiting p"
  shows "books (h @ [p]) (AList.update seq (length h) out) (seq + 1)
     (n + packet_len p) (b + packet_data_len p) (k + 1)"
proof -
  note u = booksD(1) [OF bk]
  have fresh: "map_of out seq = None"
    using booksD(4) [OF bk, of seq] by (cases "map_of out seq") auto
  have old: "wsum (flight (h @ [p])) out = wsum (flight h) out"
    "wsum (payload (h @ [p])) out = wsum (payload h) out"
    using booksD(1,2) [OF bk] by (auto intro!: wsum_cong simp: flight_def payload_def nth_append)
  have "i < seq + 1" if "i < seq" for i
    using that seq by (simp add: word_less_nat_alt unat_u32_inc)
  moreover have "seq < seq + 1"
    using seq by (simp add: word_less_nat_alt unat_u32_inc)
  ultimately show ?thesis
    using bk p fresh u
    by (auto simp: books_def update_conv' distinct_update wsum_update_fresh old flight_def
        payload_def nth_append less_Suc_eq)
qed

lemma acct_books:
  "acct s \<Longrightarrow> books (s_heap s) (s_outgoing s) (s_seq s) (s_inflight s)
     (st_inflight_bytes (s_stats s)) (st_inflight_packets (s_stats s))"
  by (simp add: acct_def)

section \<open>Acknowledgements keep the books\<close>

lemma update_rtt_fields:
  "update_rtt env p s = s\<lparr>s_srtt := s_srtt (update_rtt env p s),
     s_rttvar := s_rttvar (update_rtt env p s), s_rto := s_rto (update_rtt env p s)\<rparr>"
  by (simp add: update_rtt_def split: option.split prod.split)

lemma update_rtt_eq:
  obtains x y z where "update_rtt env p s = s\<lparr>s_srtt := x, s_rttvar := y, s_rto := z\<rparr>"
  using update_rtt_fields by blast

lemma update_rtt_heap [simp]: "s_heap (update_rtt env p s) = s_heap s"
  by (rule update_rtt_eq [of env p s]) simp

text \<open>Taking the packet under \<open>i\<close> out of \<open>outgoing\<close> and accounting for it, as both the
  cumulative and the selective acknowledgements do.\<close>

lemma handle_remote_ack_eq:
  assumes bk: "acct s" and i: "map_of (s_outgoing s) i = Some a"
  shows "\<exists>x y z. handle_remote_ack_for_packet env a
       (s\<lparr>s_outgoing := AList.delete i (s_outgoing s)\<rparr>)
     = Some (s\<lparr>s_outgoing := AList.delete i (s_outgoing s),
         s_inflight := s_inflight s - flight (s_heap s) a,
         s_stats := (s_stats s)\<lparr>
           st_inflight_bytes := st_inflight_bytes (s_stats s) - payload (s_heap s) a,
           st_inflight_packets := st_inflight_packets (s_stats s) - 1\<rparr>,
         s_srtt := x, s_rttvar := y, s_rto := z,
         s_heap := (s_heap s)[a := (s_heap s ! a)\<lparr>p_skip := True\<rparr>]\<rparr>)"
    (is "\<exists>x y z. ?lhs = Some (?t x y z)")
proof -
  let ?s = "s\<lparr>s_outgoing := AList.delete i (s_outgoing s),
    s_inflight := s_inflight s - flight (s_heap s) a,
    s_stats := (s_stats s)\<lparr>
      st_inflight_bytes := st_inflight_bytes (s_stats s) - payload (s_heap s) a,
      st_inflight_packets := st_inflight_packets (s_stats s) - 1\<rparr>\<rparr>"
  note ge = books_ge [OF acct_books [OF bk] i]
  obtain x y z where u: "update_rtt env (s_heap s ! a) ?s = ?s\<lparr>s_srtt := x, s_rttvar := y, s_rto := z\<rparr>"
    by (rule update_rtt_eq)
  have "?lhs = Some ((update_rtt env (s_heap s ! a) ?s)
      \<lparr>s_heap := (s_heap s)[a := (s_heap s ! a)\<lparr>p_skip := True\<rparr>]\<rparr>)"
    using ge unfolding handle_remote_ack_for_packet_def Let_def usize_sub_def
    by (cases "p_waiting (s_heap s ! a)") (simp_all add: flight_def payload_def packet_len_def)
  then show ?thesis unfolding u by auto
qed


text \<open>\<open>ack_rel s t\<close>: what any number of acknowledged packets may change.\<close>

definition ack_rel :: "udx_stream \<Rightarrow> udx_stream \<Rightarrow> bool" where
  "ack_rel s t \<longleftrightarrow> acct t \<and> tx_frame s t
     \<and> s_send_queue t = s_send_queue s \<and> s_send_tx t = s_send_tx s \<and> s_cwnd t = s_cwnd s
     \<and> s_write_waker t = s_write_waker s \<and> s_woken t = s_woken s
     \<and> s_rto_timeout t = s_rto_timeout s"

lemma ack_rel_refl: "acct s \<Longrightarrow> ack_rel s s"
  by (simp add: ack_rel_def)

lemma ack_rel_trans: "ack_rel s t \<Longrightarrow> ack_rel t u \<Longrightarrow> ack_rel s u"
  by (auto simp: ack_rel_def intro: tx_frame_trans)

lemma ack_relD:
  assumes "ack_rel s t"
  shows "acct t" "tx_frame s t" "s_send_queue t = s_send_queue s" "s_send_tx t = s_send_tx s"
    "s_cwnd t = s_cwnd s" "s_write_waker t = s_write_waker s" "s_woken t = s_woken s"
    "s_rto_timeout t = s_rto_timeout s"
  using assms by (simp_all add: ack_rel_def)

lemma ack_packet:
  assumes acct: "acct s" and i: "map_of (s_outgoing s) i = Some a"
  obtains t where
    "handle_remote_ack_for_packet env a (s\<lparr>s_outgoing := AList.delete i (s_outgoing s)\<rparr>) = Some t"
    "ack_rel s t" "s_remote_acked t = s_remote_acked s"
    "map_of (s_outgoing t) = (map_of (s_outgoing s))(i := None)"
    "s_heap t = (s_heap s)[a := (s_heap s ! a)\<lparr>p_skip := True\<rparr>]"
proof -
  let ?t = "\<lambda>x y z. s\<lparr>s_outgoing := AList.delete i (s_outgoing s),
         s_inflight := s_inflight s - flight (s_heap s) a,
         s_stats := (s_stats s)\<lparr>
           st_inflight_bytes := st_inflight_bytes (s_stats s) - payload (s_heap s) a,
           st_inflight_packets := st_inflight_packets (s_stats s) - 1\<rparr>,
         s_srtt := x, s_rttvar := y, s_rto := z,
         s_heap := (s_heap s)[a := (s_heap s ! a)\<lparr>p_skip := True\<rparr>]\<rparr>"
  obtain x y z where t: "handle_remote_ack_for_packet env a
      (s\<lparr>s_outgoing := AList.delete i (s_outgoing s)\<rparr>) = Some (?t x y z)"
    using handle_remote_ack_eq [OF acct i] by blast
  have cell: "same_cell (s_heap s ! a) ((s_heap s ! a)\<lparr>p_skip := True\<rparr>)"
    by (simp add: same_cell_def)
  have "acct (?t x y z)"
    using acct books_cell [OF books_remove [OF acct_books [OF acct] i] cell]
    by (simp add: acct_def)
  moreover have "tx_frame s (?t x y z)"
    by (simp add: tx_frame_def erase_tx_def heap_le_update [OF cell])
  ultimately show thesis
    by (intro that [OF t]) (simp_all add: ack_rel_def delete_conv')
qed

lemma ack_body_step:
  assumes acct: "acct s" and r: "s_remote_acked s \<noteq> u32_max"
  obtains t where "ack_body env s = Some t" "ack_rel s t"
    "s_remote_acked t = s_remote_acked s + 1"
    "map_of (s_outgoing t) = (map_of (s_outgoing s))(s_remote_acked s := None)"
proof -
  let ?r = "s_remote_acked s"
  let ?s = "s\<lparr>s_remote_acked := ?r + 1\<rparr>"
  have acct': "acct ?s" using acct by (simp add: acct_def)
  have fr: "tx_frame s ?s" by (simp add: tx_frame_def erase_tx_def)
  show thesis
  proof (cases "map_of (s_outgoing s) ?r")
    case None
    have "ack_body env s = Some ?s"
      using r None by (simp add: ack_body_def u32_inc_def Let_def)
    moreover have "ack_rel s ?s" using acct' fr by (simp add: ack_rel_def)
    ultimately show ?thesis using None by (intro that) (auto simp: fun_eq_iff)
  next
    case (Some a)
    then have "map_of (s_outgoing ?s) ?r = Some a" by simp
    from ack_packet [OF acct' this, of env] obtain t where
      t: "handle_remote_ack_for_packet env a (?s\<lparr>s_outgoing := AList.delete ?r (s_outgoing ?s)\<rparr>) = Some t"
      "ack_rel ?s t" "s_remote_acked t = s_remote_acked ?s"
      "map_of (s_outgoing t) = (map_of (s_outgoing ?s))(?r := None)" by metis
    have "ack_body env s = Some t"
      using r Some t(1) by (simp add: ack_body_def u32_inc_def Let_def)
    moreover have "ack_rel s t"
      using t(2) fr by (auto simp: ack_rel_def intro: tx_frame_trans)
    ultimately show ?thesis using t(3,4) by (intro that) simp_all
  qed
qed

lemma ack_loop_total:
  "acct s \<Longrightarrow> \<exists>t. ack_loop env ack s = Some t \<and> ack_rel s t
     \<and> s_remote_acked t = max ack (s_remote_acked s)
     \<and> map_of (s_outgoing t) = (\<lambda>k. if s_remote_acked s \<le> k \<and> k < ack then None
                                    else map_of (s_outgoing s) k)"
proof (induction env ack s rule: ack_loop.induct)
  case (1 env ack s)
  show ?case
  proof (cases "s_remote_acked s < ack")
    case False
    then show ?thesis
      using 1(2) by (auto simp: ack_loop.simps [of env ack s] ack_rel_refl fun_eq_iff)
  next
    case True
    then have r: "s_remote_acked s \<noteq> u32_max" by (metis u32_max_ge leD)
    from ack_body_step [OF 1(2) r, of env] obtain u where
      u: "ack_body env s = Some u" "ack_rel s u" "s_remote_acked u = s_remote_acked s + 1"
      "map_of (s_outgoing u) = (map_of (s_outgoing s))(s_remote_acked s := None)" by metis
    from 1(1) [OF True u(1) ack_relD(1) [OF u(2)]] obtain t where
      t: "ack_loop env ack u = Some t" "ack_rel u t" "s_remote_acked t = max ack (s_remote_acked u)"
      "map_of (s_outgoing t) = (\<lambda>k. if s_remote_acked u \<le> k \<and> k < ack then None
                                    else map_of (s_outgoing u) k)" by blast
    have next_le: "s_remote_acked s + 1 \<le> k \<longleftrightarrow> s_remote_acked s < k" for k
      using r by (simp add: word_le_nat_alt word_less_nat_alt unat_u32_inc Suc_le_eq)
    have "ack_loop env ack s = Some t"
      using True u(1) t(1) by (simp add: ack_loop.simps [of env ack s])
    moreover have "s_remote_acked t = max ack (s_remote_acked s)"
      using True t(3) u(3) next_le [of ack] by (auto simp: max_def)
    ultimately show ?thesis
      using True u(4) t(4) next_le ack_rel_trans [OF u(2) t(2)]
      by (auto simp: u(3) fun_eq_iff)
  qed
qed

lemma sack_range_total:
  "acct s \<Longrightarrow> \<exists>t. sack_range env is s = Some t \<and> ack_rel s t
     \<and> s_remote_acked t = s_remote_acked s
     \<and> map_of (s_outgoing t) = (\<lambda>k. if k \<in> set is then None else map_of (s_outgoing s) k)"
proof (induction "is" arbitrary: s)
  case Nil
  then show ?case by (simp add: ack_rel_refl)
next
  case (Cons i "is")
  show ?case
  proof (cases "map_of (s_outgoing s) i")
    case None
    with Cons show ?thesis by (fastforce simp: fun_eq_iff)
  next
    case (Some a)
    from ack_packet [OF Cons.prems Some, of env] obtain u where
      u: "handle_remote_ack_for_packet env a (s\<lparr>s_outgoing := AList.delete i (s_outgoing s)\<rparr>) = Some u"
      "ack_rel s u" "s_remote_acked u = s_remote_acked s"
      "map_of (s_outgoing u) = (map_of (s_outgoing s))(i := None)" by metis
    from Cons.IH [OF ack_relD(1) [OF u(2)]] obtain t where
      t: "sack_range env is u = Some t" "ack_rel u t" "s_remote_acked t = s_remote_acked u"
      "map_of (s_outgoing t) = (\<lambda>k. if k \<in> set is then None else map_of (s_outgoing u) k)" by blast
    show ?thesis
      using Some u t ack_rel_trans [OF u(2) t(2)] by (auto simp: fun_eq_iff)
  qed
qed

lemma read_u32_le_total: "length bs = 4 \<Longrightarrow> \<exists>x. read_u32_le bs = Some x"
  by (simp add: read_u32_le_def u32_from_le_bytes_total)

lemma sack_loop_total:
  "acct s \<Longrightarrow> \<exists>t. sack_loop env buf i s = Some t \<and> ack_rel s t
     \<and> s_remote_acked t = s_remote_acked s
     \<and> map_of (s_outgoing t) \<subseteq>\<^sub>m map_of (s_outgoing s)"
proof (induction "length buf - i" arbitrary: i s rule: less_induct)
  case less
  show ?case
  proof (cases "i + 8 < length buf")
    case False
    then show ?thesis using less.prems by (simp add: sack_loop.simps [of env buf i s] ack_rel_refl)
  next
    case True
    obtain x y where x: "read_u32_le (take 4 (drop i buf)) = Some x"
      and y: "read_u32_le (take 4 (drop (i + 4) buf)) = Some y"
      using True read_u32_le_total [of "take 4 (drop i buf)"]
        read_u32_le_total [of "take 4 (drop (i + 4) buf)"] by auto
    obtain u where u: "sack_range env (u32_range x y) s = Some u" "ack_rel s u"
      "s_remote_acked u = s_remote_acked s" "map_of (s_outgoing u) \<subseteq>\<^sub>m map_of (s_outgoing s)"
      using sack_range_total [OF less.prems, of env "u32_range x y"] by (auto simp: map_le_def dom_def split: if_splits)
    obtain t where t: "sack_loop env buf (i + 8) u = Some t" "ack_rel u t"
      "s_remote_acked t = s_remote_acked u" "map_of (s_outgoing t) \<subseteq>\<^sub>m map_of (s_outgoing u)"
      using less.hyps [OF _ ack_relD(1) [OF u(2)], of "i + 8"] True by (auto simp: diff_less_mono2)
    have "sack_loop env buf i s = sack_loop env buf (i + 8) u"
      using True x y u(1) by (simp add: sack_loop.simps [of env buf i s] slice_def Let_def add.assoc)
    then show ?thesis
      using u t ack_rel_trans [OF u(2) t(2)] map_le_trans by auto
  qed
qed


lemma max_remote_ack_total:
  assumes "acct s"
  obtains t where "handle_incoming_max_remote_ack env ack s = Some t" "acct t" "tx_frame s t"
    "s_remote_acked t = max ack (s_remote_acked s)" "s_send_queue t = s_send_queue s"
    "s_send_tx t = s_send_tx s" "s_cwnd t = s_cwnd s"
    "map_of (s_outgoing t) = (\<lambda>k. if s_remote_acked s \<le> k \<and> k < ack then None
                                   else map_of (s_outgoing s) k)"
proof (cases "ack \<le> s_remote_acked s")
  case True
  then have "handle_incoming_max_remote_ack env ack s = Some s"
    by (simp add: handle_incoming_max_remote_ack_def)
  then show thesis
    using True assms by (intro that [of s]) (auto simp: max_def fun_eq_iff)
next
  case False
  obtain u where u: "ack_loop env ack s = Some u" "ack_rel s u"
    "s_remote_acked u = max ack (s_remote_acked s)"
    "map_of (s_outgoing u) = (\<lambda>k. if s_remote_acked s \<le> k \<and> k < ack then None
                                   else map_of (s_outgoing s) k)"
    using ack_loop_total [OF assms] by blast
  define v where "v = (if s_inflight u + UDX_MTU \<le> s_cwnd u then wake_writer u else u)"
  define t where "t = v\<lparr>s_rto_timeout := e_now env + s_rto v\<rparr>"
  have "\<exists>w l. v = u\<lparr>s_write_waker := w, s_woken := l\<rparr>"
  proof (cases "s_inflight u + UDX_MTU \<le> s_cwnd u")
    case True
    then show ?thesis unfolding v_def wake_eqs by auto
  next
    case False
    have "u = u\<lparr>s_write_waker := s_write_waker u, s_woken := s_woken u\<rparr>" by simp
    with False show ?thesis unfolding v_def by metis
  qed
  then obtain w l where t: "t = u\<lparr>s_write_waker := w, s_woken := l, s_rto_timeout := e_now env + s_rto v\<rparr>"
    unfolding t_def by auto
  have "handle_incoming_max_remote_ack env ack s = Some t"
    using False u(1) by (simp add: handle_incoming_max_remote_ack_def t_def v_def Let_def)
  moreover have "acct t"
    using ack_relD(1) [OF u(2)] by (simp add: t acct_def)
  moreover have "tx_frame s t"
    using ack_relD(2) [OF u(2)] by (simp add: t tx_frame_def erase_tx_def)
  ultimately show thesis
    using u(3,4) ack_relD(3-5) [OF u(2)] by (intro that [of t]) (simp_all add: t)
qed

section \<open>Timeouts and retransmissions keep the books\<close>

lemma mark_lost_total:
  "acct s \<Longrightarrow> \<exists>t r. mark_lost is s = Some (t, r) \<and> acct t \<and> tx_frame s t
     \<and> s_outgoing t = s_outgoing s \<and> s_remote_acked t = s_remote_acked s
     \<and> s_send_queue t = s_send_queue s \<and> s_send_tx t = s_send_tx s \<and> s_cwnd t = s_cwnd s"
proof (induction "is" arbitrary: s)
  case Nil
  then show ?case by simp
next
  case (Cons i "is")
  show ?case
  proof (cases "map_of (s_outgoing s) i")
    case None
    with Cons show ?thesis by simp
  next
    case (Some a)
    let ?p = "s_heap s ! a"
    let ?p' = "?p\<lparr>p_transmits := p_transmits ?p + 1, p_waiting := True\<rparr>"
    let ?s = "s\<lparr>s_heap := (s_heap s)[a := ?p'], s_inflight := s_inflight s - packet_len ?p\<rparr>"
    show ?thesis
    proof (cases "p_waiting ?p \<or> p_transmits ?p > unat UDX_MAX_TRANSMITS")
      case True
      with Cons Some show ?thesis by (auto simp: Let_def)
    next
      case False
      have cell: "same_cell ?p ?p'" by (simp add: same_cell_def)
      have ge: "packet_len ?p \<le> s_inflight s"
        using books_ge(1) [OF acct_books [OF Cons.prems] Some] False by (simp add: flight_def)
      have "acct ?s"
        using Cons.prems ge False
          books_cell_waiting [OF acct_books [OF Cons.prems] Some cell,
            of "s_inflight s - packet_len ?p"]
        by (simp add: acct_def flight_def)
      from Cons.IH [OF this] obtain t r where t: "mark_lost is ?s = Some (t, r)" "acct t"
        "tx_frame ?s t" "s_outgoing t = s_outgoing ?s" "s_remote_acked t = s_remote_acked ?s"
        "s_send_queue t = s_send_queue ?s" "s_send_tx t = s_send_tx ?s" "s_cwnd t = s_cwnd ?s"
        by blast
      have "tx_frame s ?s"
        using heap_le_update [OF cell] by (simp add: tx_frame_def erase_tx_def)
      then have "tx_frame s t" using t(3) by (rule tx_frame_trans)
      moreover have "mark_lost (i # is) s = Some (t, r)"
        using Some False ge t(1) by (simp add: Let_def usize_sub_def)
      ultimately show ?thesis using t(2,4-) by simp
    qed
  qed
qed

lemma check_timeouts_total:
  assumes "acct s"
  obtains t r where "poll_check_timeouts env s = Some (t, r)" "acct t" "tx_frame s t"
    "s_outgoing t = s_outgoing s" "s_remote_acked t = s_remote_acked s"
    "s_send_queue t = s_send_queue s" "s_send_tx t = s_send_tx s"
proof (cases "\<not> e_sleep_ready env (s_rto_timeout s) \<or> s_remote_acked s = s_seq s")
  case True
  then show thesis using assms by (intro that [of s]) (auto simp: poll_check_timeouts_def)
next
  case False
  let ?s = "s\<lparr>s_rto_timeout := e_now env + 2 * s_rto s, s_cwnd := max UDX_MTU (s_cwnd s div 2)\<rparr>"
  have "acct ?s" using assms by (simp add: acct_def)
  from mark_lost_total [OF this, of "u32_range (s_remote_acked s) (s_seq s)"]
  obtain t r where t: "mark_lost (u32_range (s_remote_acked s) (s_seq s)) ?s = Some (t, r)"
    "acct t" "tx_frame ?s t" "s_outgoing t = s_outgoing s" "s_remote_acked t = s_remote_acked s"
    "s_send_queue t = s_send_queue s" "s_send_tx t = s_send_tx s" by auto
  have "tx_frame s ?s" by (simp add: tx_frame_def erase_tx_def)
  then have "tx_frame s t" using t(3) by (rule tx_frame_trans)
  moreover have "poll_check_timeouts env s = Some (t, r)"
    using False t(1) by (simp add: poll_check_timeouts_def Let_def)
  ultimately show thesis using t by (intro that)
qed

lemma flush_loop_acct:
  "acct s \<Longrightarrow> acct (flush_loop is s) \<and> tx_frame s (flush_loop is s)
     \<and> s_outgoing (flush_loop is s) = s_outgoing s
     \<and> s_remote_acked (flush_loop is s) = s_remote_acked s
     \<and> s_send_tx (flush_loop is s) = s_send_tx s \<and> s_cwnd (flush_loop is s) = s_cwnd s"
proof (induction "is" arbitrary: s)
  case Nil
  then show ?case by simp
next
  case (Cons i "is")
  show ?case
  proof (cases "map_of (s_outgoing s) i")
    case None
    with Cons show ?thesis by simp
  next
    case (Some a)
    let ?p = "s_heap s ! a"
    let ?s = "s\<lparr>s_heap := (s_heap s)[a := ?p\<lparr>p_waiting := False\<rparr>],
      s_inflight := s_inflight s + packet_len ?p, s_send_queue := s_send_queue s @ [Shared a]\<rparr>"
    show ?thesis
    proof (cases "\<not> p_waiting ?p \<or> s_inflight s + packet_len ?p > s_cwnd s")
      case True
      with Cons Some show ?thesis by (auto simp: Let_def)
    next
      case False
      have cell: "same_cell ?p (?p\<lparr>p_waiting := False\<rparr>)" by (simp add: same_cell_def)
      have "acct ?s"
        using Cons.prems False
          books_cell_waiting [OF acct_books [OF Cons.prems] Some cell,
            of "s_inflight s + packet_len ?p"]
        by (simp add: acct_def flight_def packet_len_def)
      note t = Cons.IH [OF this]
      have "tx_frame s ?s"
        using heap_le_update [OF cell] by (simp add: tx_frame_def erase_tx_def)
      then have "tx_frame s (flush_loop is ?s)" using t by (blast intro: tx_frame_trans)
      moreover have "flush_loop (i # is) s = flush_loop is ?s"
        using Some False by (simp add: Let_def)
      ultimately show ?thesis using t by simp
    qed
  qed
qed

end
