(* ===== verification/Udx_Stream_Recv.thy ===== *)
theory Udx_Stream_Recv
  imports Udx_Stream_Acct
begin

text \<open>
  The receiver's side of a stream: reordering, duplicate suppression and reading.
  \<open>recv_inv\<close> is the invariant of the reassembly buffer, and \<open>avail\<close> abstracts it to the
  bytes that are ready to be read. Against that abstraction the receiver is a byte queue:
  \<open>read_next\<close> removes from its front as much as the caller's buffer takes, and an arriving
  packet either leaves it alone or appends to its end.
\<close>

section \<open>The reassembly buffer\<close>

definition unread :: "incoming_packet \<Rightarrow> u8 list" where
  "unread p = drop (ip_read_offset p) (ip_buf p)"

definition recv_inv :: "udx_stream \<Rightarrow> bool" where
  "recv_inv s \<longleftrightarrow>
     uniq_keys (s_incoming s) \<and> s_read_cursor s \<le> s_ack s
     \<and> (\<forall>k. s_read_cursor s \<le> k \<and> k < s_ack s \<longrightarrow> map_of (s_incoming s) k \<noteq> None)
     \<and> (\<forall>k p. map_of (s_incoming s) k = Some p \<longrightarrow>
          s_read_cursor s \<le> k \<and> k \<noteq> s_ack s \<and> incoming_seq p = k
          \<and> ip_read_offset p \<le> length (ip_buf p)
          \<and> (k \<noteq> s_read_cursor s \<longrightarrow> ip_read_offset p = 0))"

definition avail :: "udx_stream \<Rightarrow> u8 list" where
  "avail s = concat (map (\<lambda>k. case map_of (s_incoming s) k of Some p \<Rightarrow> unread p | None \<Rightarrow> [])
     (u32_range (s_read_cursor s) (s_ack s)))"

lemma recv_invD:
  assumes "recv_inv s"
  shows "uniq_keys (s_incoming s)" "s_read_cursor s \<le> s_ack s"
    "s_read_cursor s \<le> k \<Longrightarrow> k < s_ack s \<Longrightarrow> map_of (s_incoming s) k \<noteq> None"
    "map_of (s_incoming s) k = Some p \<Longrightarrow> s_read_cursor s \<le> k"
    "map_of (s_incoming s) k = Some p \<Longrightarrow> k \<noteq> s_ack s"
    "map_of (s_incoming s) k = Some p \<Longrightarrow> incoming_seq p = k"
    "map_of (s_incoming s) k = Some p \<Longrightarrow> ip_read_offset p \<le> length (ip_buf p)"
    "map_of (s_incoming s) k = Some p \<Longrightarrow> k \<noteq> s_read_cursor s \<Longrightarrow> ip_read_offset p = 0"
  using assms unfolding recv_inv_def by blast+

lemma recv_invI:
  assumes "uniq_keys (s_incoming s)" "s_read_cursor s \<le> s_ack s"
    "\<And>k. s_read_cursor s \<le> k \<Longrightarrow> k < s_ack s \<Longrightarrow> map_of (s_incoming s) k \<noteq> None"
    "\<And>k p. map_of (s_incoming s) k = Some p \<Longrightarrow>
       s_read_cursor s \<le> k \<and> k \<noteq> s_ack s \<and> incoming_seq p = k
       \<and> ip_read_offset p \<le> length (ip_buf p)
       \<and> (k \<noteq> s_read_cursor s \<longrightarrow> ip_read_offset p = 0)"
  shows "recv_inv s"
  using assms unfolding recv_inv_def by blast

lemma recv_inv_cong:
  "s_incoming t = s_incoming s \<Longrightarrow> s_ack t = s_ack s \<Longrightarrow> s_read_cursor t = s_read_cursor s
     \<Longrightarrow> recv_inv t = recv_inv s"
  by (simp add: recv_inv_def)

lemma avail_cong:
  "s_incoming t = s_incoming s \<Longrightarrow> s_ack t = s_ack s \<Longrightarrow> s_read_cursor t = s_read_cursor s
     \<Longrightarrow> avail t = avail s"
  by (simp add: avail_def)

text \<open>The packet at the read cursor, when there is one, is the front of the queue.\<close>

lemma avail_front:
  assumes inv: "recv_inv s" and p: "map_of (s_incoming s) (s_read_cursor s) = Some p"
  shows "s_read_cursor s < s_ack s" "s_read_cursor s \<noteq> u32_max"
    "avail s = unread p @ avail (s\<lparr>s_incoming := AList.delete (s_read_cursor s) (s_incoming s),
                                    s_read_cursor := s_read_cursor s + 1\<rparr>)"
proof -
  let ?c = "s_read_cursor s"
  show lt: "?c < s_ack s"
    using recv_invD(2,5) [OF inv] p by (simp add: order.strict_iff_order)
  then show max: "?c \<noteq> u32_max" by (metis u32_max_ge leD)
  have "?c \<notin> set (u32_range (?c + 1) (s_ack s))"
    using max by (simp add: word_le_nat_alt unat_u32_inc)
  then have "map_of (AList.delete ?c (s_incoming s)) k = map_of (s_incoming s) k"
    if "k \<in> set (u32_range (?c + 1) (s_ack s))" for k
    using that by (auto simp: delete_conv')
  then show "avail s = unread p @ avail (s\<lparr>s_incoming := AList.delete ?c (s_incoming s),
                                    s_read_cursor := ?c + 1\<rparr>)"
    using p unfolding avail_def udx_stream.simps u32_range_Cons [OF lt]
    by (auto intro!: arg_cong [where f = concat])
qed

lemma avail_Nil:
  assumes inv: "recv_inv s" and none: "map_of (s_incoming s) (s_read_cursor s) = None"
  shows "avail s = []" "s_ack s = s_read_cursor s"
proof -
  have "\<not> s_read_cursor s < s_ack s"
    using recv_invD(3) [OF inv, of "s_read_cursor s"] none by auto
  with recv_invD(2) [OF inv] show "s_ack s = s_read_cursor s" by simp
  then show "avail s = []" by (simp add: avail_def)
qed

section \<open>Reading\<close>

lemma read_next_None:
  "map_of (s_incoming s) (s_read_cursor s) = None \<Longrightarrow> read_next rb d s = Some (s, rb, d)"
  by (simp add: read_next.simps [of rb d s])

lemma read_next_partial:
  assumes "map_of (s_incoming s) (s_read_cursor s) = Some p"
    "ip_read_offset p \<le> length (ip_buf p)" "length (unread p) > rb_remaining rb"
  shows "read_next rb d s = Some
     (s\<lparr>s_incoming := AList.update (incoming_seq p)
          (p\<lparr>ip_read_offset := ip_read_offset p + rb_remaining rb\<rparr>)
          (AList.delete (s_read_cursor s) (s_incoming s))\<rparr>,
      rb\<lparr>rb_filled := rb_filled rb @ take (rb_remaining rb) (unread p)\<rparr>, d)"
  using assms
  by (simp add: read_next.simps [of rb d s] usize_sub_def slice_def put_slice_def unread_def Let_def)

lemma read_next_full:
  assumes "map_of (s_incoming s) (s_read_cursor s) = Some p" "s_read_cursor s \<noteq> u32_max"
    "ip_read_offset p \<le> length (ip_buf p)" "length (unread p) \<le> rb_remaining rb"
  shows "read_next rb d s = read_next (rb\<lparr>rb_filled := rb_filled rb @ unread p\<rparr>) True
     (s\<lparr>s_incoming := AList.delete (s_read_cursor s) (s_incoming s),
        s_read_cursor := s_read_cursor s + 1\<rparr>)"
  using assms
  by (simp add: read_next.simps [of rb d s] usize_sub_def slice_def put_slice_def unread_def
      u32_inc_def Let_def)


lemma recv_inv_partial:
  assumes inv: "recv_inv s" and p: "map_of (s_incoming s) (s_read_cursor s) = Some p"
    and n: "n \<le> length (unread p)"
    and t: "t = s\<lparr>s_incoming := AList.update (incoming_seq p)
          (p\<lparr>ip_read_offset := ip_read_offset p + n\<rparr>)
          (AList.delete (s_read_cursor s) (s_incoming s))\<rparr>"
  shows "recv_inv t" "avail t = drop n (avail s)"
proof -
  let ?q = "p\<lparr>ip_read_offset := ip_read_offset p + n\<rparr>"
  note off = recv_invD(7) [OF inv p] and seq = recv_invD(6) [OF inv p]
  have m: "map_of (s_incoming t) = (map_of (s_incoming s))(s_read_cursor s \<mapsto> ?q)"
    by (simp add: t update_conv' delete_conv' seq fun_eq_iff)
  have a: "s_ack t = s_ack s" "s_read_cursor t = s_read_cursor s"
    by (simp_all add: t)
  show "recv_inv t"
  proof (rule recv_invI)
    show "uniq_keys (s_incoming t)"
      using recv_invD(1) [OF inv] by (simp add: t distinct_update distinct_delete)
  qed (use recv_invD(2-8) [OF inv] recv_invD(5) [OF inv p] n off seq in
      \<open>auto simp: m a unread_def split: if_splits\<close>)
  note front = avail_front [OF inv p]
  have "avail t = drop n (unread p) @ avail (s\<lparr>s_incoming := AList.delete (s_read_cursor s) (s_incoming s),
                                    s_read_cursor := s_read_cursor s + 1\<rparr>)"
  proof -
    have "s_read_cursor s \<notin> set (u32_range (s_read_cursor s + 1) (s_ack s))"
      using front(2) by (simp add: word_le_nat_alt unat_u32_inc)
    then show ?thesis
      unfolding avail_def m
      by (auto simp: t u32_range_Cons [OF front(1)] unread_def delete_conv' drop_drop add.commute intro!: arg_cong [where f = concat])
  qed
  then show "avail t = drop n (avail s)"
    using front(3) n by simp
qed

lemma recv_inv_consume:
  assumes inv: "recv_inv s" and p: "map_of (s_incoming s) (s_read_cursor s) = Some p"
  shows "recv_inv (s\<lparr>s_incoming := AList.delete (s_read_cursor s) (s_incoming s),
                      s_read_cursor := s_read_cursor s + 1\<rparr>)"
proof -
  note front = avail_front [OF inv p]
  have le: "s_read_cursor s + 1 \<le> k \<longleftrightarrow> s_read_cursor s \<le> k \<and> k \<noteq> s_read_cursor s" for k
    using front(2) by (auto simp: word_le_nat_alt word_unat_eq_iff unat_u32_inc)
  show ?thesis
    using recv_invD [OF inv] front(1)
    by (intro recv_invI) (auto simp: le delete_conv' distinct_delete split: if_splits)
qed

definition read_result ::
  "read_buf \<Rightarrow> bool \<Rightarrow> udx_stream \<Rightarrow> udx_stream \<times> read_buf \<times> bool \<Rightarrow> bool" where
  "read_result rb d s = (\<lambda>(t, rb', d').
     recv_inv t \<and> t = s\<lparr>s_incoming := s_incoming t, s_read_cursor := s_read_cursor t\<rparr>
     \<and> rb' = rb\<lparr>rb_filled := rb_filled rb @ take (rb_remaining rb) (avail s)\<rparr>
     \<and> avail t = drop (rb_remaining rb) (avail s)
     \<and> s_read_cursor s \<le> s_read_cursor t \<and> (d' \<longleftrightarrow> d \<or> s_read_cursor s < s_read_cursor t)
     \<and> (\<forall>k q. map_of (s_incoming t) k = Some q \<longrightarrow>
          (\<exists>p. map_of (s_incoming s) k = Some p \<and> ip_buf q = ip_buf p)))"

lemma read_next_queue:
  "recv_inv s \<Longrightarrow> \<exists>r. read_next rb d s = Some r \<and> read_result rb d s r"
proof (induction "length (s_incoming s)" arbitrary: rb d s rule: less_induct)
  case less
  note inv = less.prems
  show ?case
  proof (cases "map_of (s_incoming s) (s_read_cursor s)")
    case None
    then show ?thesis
      using inv avail_Nil [OF inv None] by (simp add: read_next_None read_result_def)
  next
    case (Some p)
    note off = recv_invD(7) [OF inv Some] and front = avail_front [OF inv Some]
    show ?thesis
    proof (cases "length (unread p) \<le> rb_remaining rb")
      case False
      then have n: "rb_remaining rb \<le> length (unread p)" by simp
      note part = recv_inv_partial [OF inv Some n refl]
      show ?thesis
        using read_next_partial [OF Some off, of rb d] False part recv_invD(6) [OF inv Some] Some front(3)
        by (auto simp: read_result_def update_conv' delete_conv' split: if_splits)
    next
      case True
      let ?s = "s\<lparr>s_incoming := AList.delete (s_read_cursor s) (s_incoming s),
        s_read_cursor := s_read_cursor s + 1\<rparr>"
      let ?rb = "rb\<lparr>rb_filled := rb_filled rb @ unread p\<rparr>"
      have "length (s_incoming ?s) < length (s_incoming s)"
        using Some by (simp add: length_delete_less)
      from less.hyps [OF this recv_inv_consume [OF inv Some], of ?rb True]
      obtain t rb' d' where r: "read_next ?rb True ?s = Some (t, rb', d')"
        "read_result ?rb True ?s (t, rb', d')" by auto
      have rem: "rb_remaining ?rb = rb_remaining rb - length (unread p)"
        by (simp add: rb_remaining_def)
      have "s_read_cursor s < s_read_cursor s + 1"
        using front(2) by (simp add: word_less_nat_alt unat_u32_inc)
      moreover have "\<exists>p. map_of (s_incoming s) k = Some p \<and> ip_buf q = ip_buf p"
        if "map_of (s_incoming t) k = Some q" for k q
      proof -
        have "\<exists>p. map_of (s_incoming ?s) k = Some p \<and> ip_buf q = ip_buf p"
          using r(2) that unfolding read_result_def by blast
        then show ?thesis by (auto simp: delete_conv' split: if_splits)
      qed
      ultimately have "read_result rb d s (t, rb', d')"
        using r(2) True front(3) unfolding read_result_def by (simp add: rem) auto
      then show ?thesis
        using read_next_full [OF Some front(2) off True, of d] r(1) by auto
    qed
  qed
qed


section \<open>Receiving\<close>

definition buf_at :: "(u32 \<times> incoming_packet) list \<Rightarrow> u32 \<Rightarrow> u8 list" where
  "buf_at inc k = (case map_of inc k of Some p \<Rightarrow> ip_buf p | None \<Rightarrow> [])"

text \<open>\<open>no_max\<close>: the last sequence number has not been used; beyond it \<open>ack\<close> would overflow.\<close>

definition no_max :: "udx_stream \<Rightarrow> bool" where
  "no_max s \<longleftrightarrow> map_of (s_incoming s) u32_max = None"

definition fresh_packet :: "incoming_packet \<Rightarrow> bool" where
  "fresh_packet p \<longleftrightarrow> ip_read_offset p = 0 \<and> incoming_seq p \<noteq> u32_max"

lemma advance_ack_spec:
  "map_of (s_incoming s) u32_max = None \<Longrightarrow>
     \<exists>n. advance_ack s = Some (s\<lparr>s_ack := n\<rparr>) \<and> s_ack s \<le> n \<and> map_of (s_incoming s) n = None
       \<and> (\<forall>k. s_ack s \<le> k \<and> k < n \<longrightarrow> map_of (s_incoming s) k \<noteq> None)"
proof (induction s rule: advance_ack.induct)
  case (1 s)
  show ?case
  proof (cases "map_of (s_incoming s) (s_ack s)")
    case None
    then have "advance_ack s = Some (s\<lparr>s_ack := s_ack s\<rparr>)"
      by (simp add: advance_ack.simps [of s])
    with None show ?thesis by (intro exI [of _ "s_ack s"]) auto
  next
    case (Some p)
    with 1(2) have max: "s_ack s \<noteq> u32_max" by auto
    let ?s = "s\<lparr>s_ack := s_ack s + 1\<rparr>"
    have inc: "u32_inc (s_ack s) = Some (s_ack s + 1)" using max by (simp add: u32_inc_def)
    have "map_of (s_incoming s) (s_ack s) \<noteq> None" using Some by simp
    from 1(1) [OF this inc] 1(2) obtain n where
      n: "advance_ack ?s = Some (?s\<lparr>s_ack := n\<rparr>)" "s_ack s + 1 \<le> n"
        "map_of (s_incoming s) n = None"
        "\<forall>k. s_ack s + 1 \<le> k \<and> k < n \<longrightarrow> map_of (s_incoming s) k \<noteq> None"
      by auto
    have le: "s_ack s + 1 \<le> k \<longleftrightarrow> s_ack s \<le> k \<and> k \<noteq> s_ack s" for k
      using max by (auto simp: word_le_nat_alt word_unat_eq_iff unat_u32_inc)
    have "advance_ack s = Some (s\<lparr>s_ack := n\<rparr>)"
      using Some inc n(1) by (simp add: advance_ack.simps [of s])
    then show ?thesis using n(2-4) Some by (auto simp: le)
  qed
qed

text \<open>A packet that is stored, and the acknowledgement number moved to the next gap.\<close>

lemma recv_inv_store:
  assumes inv: "recv_inv s" and seq: "s_ack s \<le> incoming_seq p" and off: "ip_read_offset p = 0"
    and m: "map_of inc = (map_of (s_incoming s))(incoming_seq p \<mapsto> p)" "uniq_keys inc"
    and n: "s_ack s \<le> n" "map_of inc n = None"
      "\<And>k. s_ack s \<le> k \<Longrightarrow> k < n \<Longrightarrow> map_of inc k \<noteq> None"
    and t: "s_incoming t = inc" "s_ack t = n" "s_read_cursor t = s_read_cursor s"
  shows "recv_inv t" "avail t = avail s @ concat (map (buf_at inc) (u32_range (s_ack s) n))"
proof -
  note cur = recv_invD(2) [OF inv]
  have old: "k < s_ack s \<Longrightarrow> map_of inc k = map_of (s_incoming s) k" for k
    using seq m(1) by auto
  have new: "ip_read_offset q = 0" if k: "s_ack s \<le> k" "map_of inc k = Some q" for k q
  proof (cases "k = incoming_seq p")
    case True
    then show ?thesis using k off m(1) by simp
  next
    case False
    then have q: "map_of (s_incoming s) k = Some q" using k(2) m(1) by simp
    from recv_invD(5) [OF inv this] k(1) cur have "k \<noteq> s_read_cursor s" by auto
    then show ?thesis by (rule recv_invD(8) [OF inv q])
  qed
  show "recv_inv t"
  proof (rule recv_invI; unfold t)
    show "s_read_cursor s \<le> n" using cur n(1) by simp
    show "map_of inc k \<noteq> None" if "s_read_cursor s \<le> k" "k < n" for k
      using that recv_invD(3) [OF inv] old n(3) by (cases "k < s_ack s") auto
    show "s_read_cursor s \<le> k \<and> k \<noteq> n \<and> incoming_seq q = k \<and> ip_read_offset q \<le> length (ip_buf q)
        \<and> (k \<noteq> s_read_cursor s \<longrightarrow> ip_read_offset q = 0)" if "map_of inc k = Some q" for k q
    proof (cases "k = incoming_seq p")
      case True
      then show ?thesis using that m(1) cur seq off n(2) by auto
    next
      case False
      then have q: "map_of (s_incoming s) k = Some q" using that m(1) by simp
      show ?thesis using recv_invD(4,6-8) [OF inv q] that n(2) by auto
    qed
  qed (rule m(2))
  have "map (\<lambda>k. case map_of inc k of Some p \<Rightarrow> unread p | None \<Rightarrow> []) (u32_range (s_ack s) n)
      = map (buf_at inc) (u32_range (s_ack s) n)"
    using new by (auto simp: buf_at_def unread_def split: option.split)
  moreover have "map (\<lambda>k. case map_of inc k of Some p \<Rightarrow> unread p | None \<Rightarrow> [])
        (u32_range (s_read_cursor s) (s_ack s))
      = map (\<lambda>k. case map_of (s_incoming s) k of Some p \<Rightarrow> unread p | None \<Rightarrow> [])
        (u32_range (s_read_cursor s) (s_ack s))"
    using old by simp
  ultimately show "avail t = avail s @ concat (map (buf_at inc) (u32_range (s_ack s) n))"
    by (simp only: avail_def t u32_range_append [OF cur n(1)] map_append concat_append)
qed

definition stored :: "incoming_packet \<Rightarrow> udx_stream \<Rightarrow> (u32 \<times> incoming_packet) list" where
  "stored p s = (if s_ack s \<le> incoming_seq p then AList.update (incoming_seq p) p (s_incoming s)
                 else s_incoming s)"

definition data_received :: "incoming_packet \<Rightarrow> u32 \<Rightarrow> udx_stream \<Rightarrow> udx_stream" where
  "data_received p n s = s\<lparr>
     s_incoming := stored p s, s_ack := n,
     s_send_queue := s_send_queue s
       @ [Owned (create_packet (s\<lparr>s_ack := n\<rparr>) (state_typ (s_error s)) [])],
     s_read_waker := (if incoming_seq p \<le> n then None else s_read_waker s),
     s_drive_waker := None,
     s_woken := s_woken s @ (if incoming_seq p \<le> n then waker_list (s_read_waker s) else [])
       @ waker_list (s_drive_waker s),
     s_stats := tx_packets_inc ((s_stats s)\<lparr>st_rx_bytes :=
       st_rx_bytes (s_stats s) + incoming_data_len p\<rparr>)\<rparr>"

lemma receive_data_total:
  assumes inv: "recv_inv s" and nm: "no_max s" and p: "fresh_packet p"
  obtains n where "receive_data p s = Some (data_received p n s)"
    "recv_inv (data_received p n s)" "no_max (data_received p n s)" "s_ack s \<le> n"
    "map_of (stored p s) n = None"
    "avail (data_received p n s)
      = avail s @ concat (map (buf_at (stored p s)) (u32_range (s_ack s) n))"
proof -
  let ?st = "(s_stats s)\<lparr>st_rx_bytes := st_rx_bytes (s_stats s) + incoming_data_len p\<rparr>"
  let ?u = "s\<lparr>s_stats := ?st, s_incoming := stored p s\<rparr>"
  have "map_of (stored p s) u32_max = None"
    using nm p by (auto simp: stored_def no_max_def fresh_packet_def update_conv')
  then obtain n where n: "advance_ack ?u = Some (?u\<lparr>s_ack := n\<rparr>)" "s_ack s \<le> n"
    "map_of (stored p s) n = None"
    "\<And>k. s_ack s \<le> k \<Longrightarrow> k < n \<Longrightarrow> map_of (stored p s) k \<noteq> None"
    using advance_ack_spec [of ?u] by auto
  have "(let s1 = s\<lparr>s_stats := ?st\<rparr> in
      if s_ack s1 \<le> incoming_seq p
      then s1\<lparr>s_incoming := AList.update (incoming_seq p) p (s_incoming s1)\<rparr> else s1) = ?u"
    by (cases "s_ack s \<le> incoming_seq p") (simp_all add: stored_def)
  then have "receive_data p s = Some (send_state_packet
      (if incoming_seq p \<le> n then wake_reader (?u\<lparr>s_ack := n\<rparr>) else ?u\<lparr>s_ack := n\<rparr>))"
    using n(1) by (simp add: receive_data_def Let_def)
  also have "\<dots> = Some (data_received p n s)"
    by (cases "incoming_seq p \<le> n")
      (simp_all add: data_received_def send_state_packet_eq wake_eqs create_packet_def create_header_def)
  finally have eq: "receive_data p s = Some (data_received p n s)" .
  have nm': "no_max (data_received p n s)"
    using \<open>map_of (stored p s) u32_max = None\<close> by (simp add: no_max_def data_received_def)
  show thesis
  proof (cases "s_ack s \<le> incoming_seq p")
    case True
    have m: "map_of (stored p s) = (map_of (s_incoming s))(incoming_seq p \<mapsto> p)"
        "uniq_keys (stored p s)"
      using True recv_invD(1) [OF inv] by (simp_all add: stored_def update_conv' distinct_update)
    have off: "ip_read_offset p = 0" using p by (simp add: fresh_packet_def)
    show thesis
      using recv_inv_store [OF inv True off m n(2-4), of "data_received p n s"] nm'
      by (intro that [OF eq _ _ n(2,3)]) (simp_all add: data_received_def)
  next
    case False
    then have st: "stored p s = s_incoming s" by (simp add: stored_def)
    have "map_of (s_incoming s) (s_ack s) = None"
      using recv_invD(5) [OF inv, of "s_ack s"] by (cases "map_of (s_incoming s) (s_ack s)") auto
    then have "n = s_ack s"
      using n(2) n(4) [of "s_ack s"] st by fastforce
    then have "recv_inv (data_received p n s)" "avail (data_received p n s) = avail s"
      using inv recv_inv_cong [of "data_received p n s" s] avail_cong [of "data_received p n s" s]
      by (simp_all add: data_received_def st)
    then show thesis
      using \<open>n = s_ack s\<close> nm' n(3) by (intro that [OF eq]) simp_all
  qed
qed

end
