(* ===== verification/Udx_Stream_Drive.thy ===== *)
theory Udx_Stream_Drive
  imports Udx_Stream_Recv
begin

text \<open>
  The operations of a stream together: handling a packet, polling the driver, writing.
  \<open>stream_inv\<close> is the invariant of a stream, kept by every operation on any input;
  \<open>sent_inv\<close> and \<open>rcvd_inv\<close> relate a stream to the chunks of data that it has sent and that
  its peer has sent. \<open>genuine\<close> describes the packets a stream creates.
\<close>

section \<open>Invariants\<close>

definition stream_inv :: "udx_stream \<Rightarrow> bool" where
  "stream_inv s \<longleftrightarrow> acct s \<and> recv_inv s \<and> no_max s
     \<and> (\<forall>p. EventPacket p \<in> set (s_recv_rx s) \<longrightarrow> fresh_packet p)
     \<and> (s_error s \<noteq> None \<longleftrightarrow> local_closed (s_state s))"

definition ref_ok :: "(packet \<Rightarrow> bool) \<Rightarrow> heap \<Rightarrow> packet_ref \<Rightarrow> bool" where
  "ref_ok Q h r = (case r of Owned p \<Rightarrow> Q p | Shared a \<Rightarrow> a < length h \<and> Q (h ! a))"

text \<open>All packets of a set have the size of a segment.\<close>

definition uniform :: "heap \<Rightarrow> packet_set \<Rightarrow> bool" where
  "uniform h ps \<longleftrightarrow> ps_packets ps \<noteq> [] \<and> (\<exists>g. ps_segment_size ps = Some g
     \<and> (\<forall>r \<in> set (ps_packets ps). packet_buf_len (p_buf (deref h r)) = g))"

definition event_ok :: "(packet \<Rightarrow> bool) \<Rightarrow> heap \<Rightarrow> event_outgoing \<Rightarrow> bool" where
  "event_ok Q h e =
     (case e of
        Transmit ps \<Rightarrow> uniform h ps \<and> (\<forall>r \<in> set (ps_packets ps). ref_ok Q h r)
      | TransmitDgram _ \<Rightarrow> False
      | StreamDropped _ \<Rightarrow> True)"

definition all_refs :: "(packet \<Rightarrow> bool) \<Rightarrow> udx_stream \<Rightarrow> bool" where
  "all_refs Q s \<longleftrightarrow>
     (\<forall>r \<in> set (s_send_queue s). ref_ok Q (s_heap s) r)
     \<and> (\<forall>k a. map_of (s_outgoing s) k = Some a \<longrightarrow> ref_ok Q (s_heap s) (Shared a))
     \<and> (\<forall>e \<in> set (s_send_tx s). event_ok Q (s_heap s) e)"

definition genuine :: "u32 \<Rightarrow> u32 \<Rightarrow> u8 list list \<Rightarrow> packet \<Rightarrow> bool" where
  "genuine rid ack chunks p \<longleftrightarrow>
     hdr_stream_id (p_header p) = rid \<and> hdr_ack (p_header p) \<le> ack
     \<and> hdr_data_offset (p_header p) = 0 \<and> unat (hdr_seq (p_header p)) \<le> length chunks
     \<and> (\<exists>body. as_slice (p_buf p) = header_bytes (p_header p) @ body
          \<and> (hdr_typ (p_header p) = UDX_HEADER_DATA \<and> unat (hdr_seq (p_header p)) < length chunks
               \<and> body = chunks ! unat (hdr_seq (p_header p))
             \<or> hdr_typ (p_header p) \<in> {0, UDX_HEADER_END} \<and> body = []))"

definition sent_inv :: "u8 list list \<Rightarrow> udx_stream \<Rightarrow> bool" where
  "sent_inv chunks s \<longleftrightarrow>
     unat (s_seq s) = length chunks \<and> all_refs (genuine (s_remote_id s) (s_ack s) chunks) s"

definition genuine_in :: "u8 list list \<Rightarrow> incoming_packet \<Rightarrow> bool" where
  "genuine_in chunks p \<longleftrightarrow> (has_type p UDX_HEADER_DATA \<longrightarrow>
     unat (incoming_seq p) < length chunks \<and> ip_buf p = chunks ! unat (incoming_seq p))"

definition rcvd_inv :: "u8 list list \<Rightarrow> u8 list \<Rightarrow> udx_stream \<Rightarrow> bool" where
  "rcvd_inv chunks r s \<longleftrightarrow>
     r @ avail s = concat (take (unat (s_ack s)) chunks) \<and> unat (s_ack s) \<le> length chunks
     \<and> (\<forall>k p. map_of (s_incoming s) k = Some p \<longrightarrow>
          unat k < length chunks \<and> ip_buf p = chunks ! unat k)"

text \<open>\<open>in_rel s t\<close>: what handling packets and driving a stream keeps.\<close>

definition in_rel :: "udx_stream \<Rightarrow> udx_stream \<Rightarrow> bool" where
  "in_rel s t \<longleftrightarrow> stream_inv t \<and> (\<forall>chunks. sent_inv chunks s \<longrightarrow> sent_inv chunks t)
     \<and> s_seq t = s_seq s \<and> s_remote_id t = s_remote_id s \<and> s_local_id t = s_local_id s
     \<and> s_remote_addr t = s_remote_addr s \<and> s_max_gso_segments t = s_max_gso_segments s
     \<and> s_send_open t = s_send_open s \<and> s_recv_open t = s_recv_open s
     \<and> s_on_firewall t = s_on_firewall s \<and> s_read_cursor t = s_read_cursor s
     \<and> s_ack s \<le> s_ack t \<and> heap_le (s_heap s) (s_heap t)"

lemma in_relD:
  assumes "in_rel s t"
  shows "stream_inv t" "sent_inv chunks s \<Longrightarrow> sent_inv chunks t"
    "s_seq t = s_seq s" "s_remote_id t = s_remote_id s" "s_local_id t = s_local_id s"
    "s_remote_addr t = s_remote_addr s" "s_max_gso_segments t = s_max_gso_segments s"
    "s_send_open t = s_send_open s" "s_recv_open t = s_recv_open s"
    "s_on_firewall t = s_on_firewall s" "s_read_cursor t = s_read_cursor s"
    "s_ack s \<le> s_ack t" "heap_le (s_heap s) (s_heap t)"
  using assms by (simp_all add: in_rel_def)

lemma in_rel_refl: "stream_inv s \<Longrightarrow> in_rel s s"
  by (simp add: in_rel_def)

lemma in_rel_trans: "in_rel s t \<Longrightarrow> in_rel t u \<Longrightarrow> in_rel s u"
  unfolding in_rel_def by (auto intro: heap_le_trans order_trans)

lemma stream_invD:
  assumes "stream_inv s"
  shows "acct s" "recv_inv s" "no_max s" "EventPacket p \<in> set (s_recv_rx s) \<Longrightarrow> fresh_packet p"
    "s_error s \<noteq> None \<longleftrightarrow> local_closed (s_state s)"
  using assms by (auto simp: stream_inv_def)

section \<open>References\<close>

lemma genuine_same_cell: "same_cell p q \<Longrightarrow> genuine rid ack c p = genuine rid ack c q"
  by (simp add: genuine_def same_cell_def)

lemma genuine_mono:
  "genuine rid ack c p \<Longrightarrow> ack \<le> ack' \<Longrightarrow> c' = c @ d \<Longrightarrow> genuine rid ack' c' p"
  by (auto simp: genuine_def nth_append)

lemma ref_ok_mono:
  assumes "ref_ok Q h r" "heap_le h h'" "\<And>p q. Q p \<Longrightarrow> same_cell p q \<Longrightarrow> Q' q"
  shows "ref_ok Q' h' r"
  using assms by (cases r) (auto simp: ref_ok_def heap_le_def same_cell_def)

lemma deref_mono:
  "ref_ok Q h r \<Longrightarrow> heap_le h h' \<Longrightarrow> p_buf (deref h' r) = p_buf (deref h r)"
  by (cases r) (auto simp: ref_ok_def heap_le_def same_cell_def)

lemma event_ok_mono:
  assumes "event_ok Q h e" "heap_le h h'" "\<And>p q. Q p \<Longrightarrow> same_cell p q \<Longrightarrow> Q' q"
  shows "event_ok Q' h' e"
proof (cases e)
  case (Transmit ps)
  have "uniform h' ps"
    using assms(1) Transmit deref_mono [of Q h _ h', OF _ assms(2)] by (auto simp: event_ok_def uniform_def)
  moreover have "ref_ok Q' h' r" if "r \<in> set (ps_packets ps)" for r
    using assms Transmit that by (intro ref_ok_mono [of Q h r h' Q']) (auto simp: event_ok_def)
  ultimately show ?thesis by (simp add: event_ok_def Transmit)
qed (use assms(1) in \<open>simp_all add: event_ok_def\<close>)

text \<open>Growing the queue by good references and the heap by new cells, acknowledging data
  and dropping outgoing packets all keep the references good.\<close>

lemma all_refs_step:
  assumes s: "all_refs Q s" and h: "heap_le (s_heap s) (s_heap t)"
    and QQ: "\<And>p q. Q p \<Longrightarrow> same_cell p q \<Longrightarrow> Q' q"
    and queue: "\<And>r. r \<in> set (s_send_queue t) \<Longrightarrow> r \<in> set (s_send_queue s) \<or> ref_ok Q' (s_heap t) r"
    and out: "\<And>k a. map_of (s_outgoing t) k = Some a \<Longrightarrow>
       map_of (s_outgoing s) k = Some a \<or> ref_ok Q' (s_heap t) (Shared a)"
    and sent: "\<And>e. e \<in> set (s_send_tx t) \<Longrightarrow> e \<in> set (s_send_tx s) \<or> event_ok Q' (s_heap t) e"
  shows "all_refs Q' t"
proof -
  have mono: "ref_ok Q' (s_heap t) r" if "ref_ok Q (s_heap s) r" for r
    using that h QQ by (rule ref_ok_mono)
  have emono: "event_ok Q' (s_heap t) e" if "event_ok Q (s_heap s) e" for e
    using that h QQ by (rule event_ok_mono)
  have "ref_ok Q' (s_heap t) r" if "r \<in> set (s_send_queue t)" for r
    using queue [OF that] s mono unfolding all_refs_def by blast
  moreover have "ref_ok Q' (s_heap t) (Shared a)" if "map_of (s_outgoing t) k = Some a" for k a
    using out [OF that] s mono unfolding all_refs_def by blast
  moreover have "event_ok Q' (s_heap t) e" if "e \<in> set (s_send_tx t)" for e
    using sent [OF that] s emono unfolding all_refs_def by blast
  ultimately show ?thesis unfolding all_refs_def by blast
qed

lemma sent_inv_step:
  assumes s: "sent_inv chunks s" and h: "heap_le (s_heap s) (s_heap t)"
    and seq: "s_seq t = s_seq s" and rid: "s_remote_id t = s_remote_id s"
    and ack: "s_ack s \<le> s_ack t"
    and queue: "\<And>r. r \<in> set (s_send_queue t) \<Longrightarrow> r \<in> set (s_send_queue s)
       \<or> ref_ok (genuine (s_remote_id t) (s_ack t) chunks) (s_heap t) r"
    and out: "\<And>k a. map_of (s_outgoing t) k = Some a \<Longrightarrow> map_of (s_outgoing s) k = Some a"
    and sent: "\<And>e. e \<in> set (s_send_tx t) \<Longrightarrow> e \<in> set (s_send_tx s)"
  shows "sent_inv chunks t"
  unfolding sent_inv_def
proof (intro conjI all_refs_step [OF _ h])
  show "all_refs (genuine (s_remote_id s) (s_ack s) chunks) s"
    using s by (simp add: sent_inv_def)
  show "genuine (s_remote_id t) (s_ack t) chunks q"
    if "genuine (s_remote_id s) (s_ack s) chunks p" "same_cell p q" for p q
    using that ack rid genuine_same_cell [of p q] genuine_mono [of _ _ chunks q _ chunks "[]"] by simp
qed (use s seq queue out sent in \<open>auto simp: sent_inv_def\<close>)

section \<open>What each part of an operation keeps\<close>

text \<open>Operations on the sender's fields: acknowledgements, timeouts, retransmissions.\<close>

lemma in_rel_tx:
  assumes s: "stream_inv s" and t: "acct t" "tx_frame s t" "s_send_tx t = s_send_tx s"
    and queue: "\<And>r. r \<in> set (s_send_queue t) \<Longrightarrow> r \<in> set (s_send_queue s)
       \<or> (\<exists>k a. map_of (s_outgoing s) k = Some a \<and> r = Shared a)"
    and out: "\<And>k a. map_of (s_outgoing t) k = Some a \<Longrightarrow> map_of (s_outgoing s) k = Some a"
  shows "in_rel s t"
proof -
  note f = tx_frameD [OF t(2)]
  have "stream_inv t"
    using s t(1) recv_inv_cong [of t s] by (simp add: stream_inv_def no_max_def f)
  moreover have "sent_inv chunks t" if c: "sent_inv chunks s" for chunks
  proof (rule sent_inv_step [OF c f(20)])
    fix r
    assume r: "r \<in> set (s_send_queue t)"
    show "r \<in> set (s_send_queue s) \<or> ref_ok (genuine (s_remote_id t) (s_ack t) chunks) (s_heap t) r"
    proof (cases "r \<in> set (s_send_queue s)")
      case False
      with queue [OF r] c
      have "ref_ok (genuine (s_remote_id s) (s_ack s) chunks) (s_heap s) r"
        by (auto simp: sent_inv_def all_refs_def)
      then have "ref_ok (genuine (s_remote_id s) (s_ack s) chunks) (s_heap t) r"
        using f(20) by (rule ref_ok_mono) (simp add: genuine_same_cell)
      then show ?thesis by (simp add: f)
    qed simp
  qed (use t out in \<open>auto simp: f\<close>)
  ultimately show ?thesis by (simp add: in_rel_def f)
qed

lemma in_rel_ack:
  assumes "stream_inv s" "ack_rel s t" "map_of (s_outgoing t) \<subseteq>\<^sub>m map_of (s_outgoing s)"
  shows "in_rel s t"
proof (rule in_rel_tx [OF assms(1) ack_relD(1,2,4) [OF assms(2)]])
  show "map_of (s_outgoing s) k = Some a" if "map_of (s_outgoing t) k = Some a" for k a
    using assms(3) that by (metis domI map_le_def)
qed (simp add: ack_relD(3) [OF assms(2)])

text \<open>Changes that no invariant sees: statistics, wakers, the state of the remote side, a
  larger window.\<close>

definition quiet :: "udx_stream \<Rightarrow> udx_stream \<Rightarrow> bool" where
  "quiet s t \<longleftrightarrow> s_heap t = s_heap s \<and> s_outgoing t = s_outgoing s \<and> s_inflight t = s_inflight s
     \<and> st_inflight_bytes (s_stats t) = st_inflight_bytes (s_stats s)
     \<and> st_inflight_packets (s_stats t) = st_inflight_packets (s_stats s)
     \<and> s_cwnd s \<le> s_cwnd t \<and> s_seq t = s_seq s \<and> s_ack t = s_ack s
     \<and> s_incoming t = s_incoming s \<and> s_read_cursor t = s_read_cursor s
     \<and> s_error t = s_error s \<and> local_closed (s_state t) = local_closed (s_state s)
     \<and> s_remote_id t = s_remote_id s \<and> s_local_id t = s_local_id s
     \<and> s_remote_addr t = s_remote_addr s \<and> s_max_gso_segments t = s_max_gso_segments s
     \<and> s_send_open t = s_send_open s \<and> s_recv_open t = s_recv_open s
     \<and> s_on_firewall t = s_on_firewall s \<and> s_on_close t = s_on_close s
     \<and> s_close_sent t = s_close_sent s \<and> s_send_tx t = s_send_tx s
     \<and> s_recv_rx t = s_recv_rx s \<and> s_remote_acked t = s_remote_acked s"

lemma stream_inv_quiet:
  "stream_inv s \<Longrightarrow> quiet s t \<Longrightarrow> stream_inv t"
  using recv_inv_cong [of t s] by (simp add: stream_inv_def quiet_def acct_def no_max_def)

text \<open>A quiet change that also queues packets of its own.\<close>

lemma in_rel_quiet:
  assumes s: "stream_inv s" and t: "quiet s t" "s_send_queue t = s_send_queue s @ map Owned ps"
    and ps: "\<And>p chunks. p \<in> set ps \<Longrightarrow> unat (s_seq s) = length chunks \<Longrightarrow>
      genuine (s_remote_id s) (s_ack s) chunks p"
  shows "in_rel s t"
proof -
  have "sent_inv chunks t" if "sent_inv chunks s" for chunks
    using that t ps by (intro sent_inv_step [OF that]) (auto simp: quiet_def ref_ok_def sent_inv_def)
  then show ?thesis
    using stream_inv_quiet [OF s t(1)] t(1) by (simp add: in_rel_def quiet_def)
qed

lemma local_closed_close_remote [simp]: "local_closed (close_remote st) = local_closed st"
  by (cases st) (simp_all add: local_closed_def)

lemma genuine_end:
  "s_remote_id s = rid \<Longrightarrow> s_ack s = ack \<Longrightarrow> unat (s_seq s) = length chunks
     \<Longrightarrow> genuine rid ack chunks (end_packet s)"
  by (simp add: genuine_def end_packet_def)

lemma genuine_state:
  "s_remote_id s = rid \<Longrightarrow> s_ack s = ack \<Longrightarrow> unat (s_seq s) = length chunks
     \<Longrightarrow> genuine rid ack chunks (create_packet s (state_typ e) [])"
  by (simp add: genuine_def create_packet_def create_header_def state_typ_def Let_def)

lemma in_rel_terminate:
  assumes s: "stream_inv s"
  shows "in_rel s (terminate e s)" "s_recv_rx (terminate e s) = s_recv_rx s"
    "s_remote_acked (terminate e s) = s_remote_acked s" "s_incoming (terminate e s) = s_incoming s"
    "s_ack (terminate e s) = s_ack s" "s_read_cursor (terminate e s) = s_read_cursor s"
proof -
  let ?t = "terminate e s"
  have "stream_inv ?t"
    using s recv_inv_cong [of ?t s]
    by (simp add: stream_inv_def terminate_eq acct_def no_max_def)
  moreover have "sent_inv chunks ?t" if "sent_inv chunks s" for chunks
    by (rule sent_inv_step [OF that])
      (use that in \<open>auto simp: terminate_eq ref_ok_def genuine_end sent_inv_def\<close>)
  ultimately show "in_rel s ?t" by (simp add: in_rel_def terminate_eq)
qed (simp_all add: terminate_eq)

lemma in_rel_receive:
  assumes s: "stream_inv s" and t: "t = data_received p n s"
    and inv: "recv_inv t" "no_max t" "s_ack s \<le> n"
  shows "in_rel s t"
proof -
  have "stream_inv t"
    using s inv unfolding t stream_inv_def by (simp add: data_received_def acct_def)
  moreover have "sent_inv chunks t" if "sent_inv chunks s" for chunks
    using inv(3) that unfolding t
    by (intro sent_inv_step [OF that]) (auto simp: data_received_def ref_ok_def genuine_state sent_inv_def)
  ultimately show ?thesis
    using inv(3) unfolding t by (simp add: in_rel_def data_received_def)
qed

section \<open>Handling a packet\<close>

definition rx_rel :: "incoming_packet \<Rightarrow> udx_stream \<Rightarrow> udx_stream \<Rightarrow> bool" where
  "rx_rel p s t \<longleftrightarrow> in_rel s t \<and> s_recv_rx t = s_recv_rx s \<and> s_remote_acked t = s_remote_acked s
     \<and> (\<forall>chunks r. rcvd_inv chunks r s \<longrightarrow> genuine_in chunks p \<longrightarrow> rcvd_inv chunks r t)"

lemma rx_relD:
  assumes "rx_rel p s t"
  shows "in_rel s t" "stream_inv t" "s_recv_rx t = s_recv_rx s" "s_remote_acked t = s_remote_acked s"
    "rcvd_inv chunks r s \<Longrightarrow> genuine_in chunks p \<Longrightarrow> rcvd_inv chunks r t"
  using assms by (auto simp: rx_rel_def in_rel_def)

lemma rx_rel_refl: "stream_inv s \<Longrightarrow> rx_rel p s s"
  by (simp add: rx_rel_def in_rel_refl)

lemma rx_rel_trans: "rx_rel p s t \<Longrightarrow> rx_rel p t u \<Longrightarrow> rx_rel p s u"
  unfolding rx_rel_def by (metis in_rel_trans)

lemma rcvd_inv_cong:
  "s_incoming t = s_incoming s \<Longrightarrow> s_ack t = s_ack s \<Longrightarrow> s_read_cursor t = s_read_cursor s
     \<Longrightarrow> rcvd_inv chunks r t = rcvd_inv chunks r s"
  using avail_cong [of t s] by (simp add: rcvd_inv_def)

lemma rx_rel_same:
  "in_rel s t \<Longrightarrow> s_recv_rx t = s_recv_rx s \<Longrightarrow> s_remote_acked t = s_remote_acked s
     \<Longrightarrow> s_incoming t = s_incoming s \<Longrightarrow> s_ack t = s_ack s \<Longrightarrow> s_read_cursor t = s_read_cursor s
     \<Longrightarrow> rx_rel p s t"
  unfolding rx_rel_def using rcvd_inv_cong [of t s] by blast

lemma rx_rel_quiet: "stream_inv s \<Longrightarrow> quiet s t \<Longrightarrow> s_send_queue t = s_send_queue s \<Longrightarrow> rx_rel p s t"
  using in_rel_quiet [of s t "[]"] by (intro rx_rel_same) (simp_all add: quiet_def)

lemma rx_rel_terminate: "stream_inv s \<Longrightarrow> rx_rel p s (terminate e s)"
  by (rule rx_rel_same) (fact in_rel_terminate)+

lemma rx_rel_sacks:
  assumes "stream_inv s"
  obtains t where "handle_incoming_sacks env q s = Some t" "rx_rel p s t"
proof -
  obtain t where t: "sack_loop env (ip_buf q) 0 s = Some t" "ack_rel s t"
    "s_remote_acked t = s_remote_acked s" "map_of (s_outgoing t) \<subseteq>\<^sub>m map_of (s_outgoing s)"
    using sack_loop_total [OF stream_invD(1) [OF assms]] by blast
  have "rx_rel p s t"
    by (rule rx_rel_same [OF in_rel_ack [OF assms t(2,4)] _ t(3)])
      (rule tx_frameD [OF ack_relD(2) [OF t(2)]])+
  then show thesis using t(1) by (intro that) (simp_all add: handle_incoming_sacks_def)
qed

text \<open>Chunks that arrive in order extend what can be read.\<close>

lemma concat_take_range:
  assumes "a \<le> n" "unat n \<le> length chunks"
    and "\<And>k. a \<le> k \<Longrightarrow> k < n \<Longrightarrow> f k = chunks ! unat k"
  shows "concat (take (unat a) chunks) @ concat (map f (u32_range a n))
    = concat (take (unat n) chunks)"
proof -
  have nat: "unat (word_of_nat i :: u32) = i" if "i < unat n" for i
    using that unat_u32_le [of n] by (simp add: unat_of_nat)
  have "map f (u32_range a n) = map (\<lambda>i. chunks ! i) [unat a..<unat n]"
    using assms(3) nat by (auto simp: u32_range_def word_le_nat_alt word_less_nat_alt)
  also have "\<dots> = drop (unat a) (take (unat n) chunks)"
    using assms(2) by (intro nth_equalityI) (auto simp: add.commute)
  finally have "map f (u32_range a n) = drop (unat a) (take (unat n) chunks)" .
  moreover have "take (unat a) chunks = take (unat a) (take (unat n) chunks)"
    using assms(1) by (simp add: word_le_nat_alt min_def)
  ultimately show ?thesis by (metis append_take_drop_id concat_append)
qed

lemma rcvd_inv_receive:
  assumes rc: "rcvd_inv chunks r s" and p: "unat (incoming_seq p) < length chunks"
      "ip_buf p = chunks ! unat (incoming_seq p)"
    and inv: "recv_inv s" "recv_inv t" and n: "s_ack s \<le> n"
    and t: "t = data_received p n s"
      "avail t = avail s @ concat (map (buf_at (stored p s)) (u32_range (s_ack s) n))"
  shows "rcvd_inv chunks r t"
proof -
  have sel: "s_incoming t = stored p s" "s_ack t = n" "s_read_cursor t = s_read_cursor s"
    by (simp_all add: t(1) data_received_def)
  have st: "unat k < length chunks \<and> ip_buf q = chunks ! unat k"
    if "map_of (stored p s) k = Some q" for k q
    using that rc p by (auto simp: stored_def rcvd_inv_def update_conv' split: if_splits)
  have some: "map_of (stored p s) k \<noteq> None" if "s_ack s \<le> k" "k < n" for k
    using recv_invD(3) [OF inv(2), of k] recv_invD(2) [OF inv(1)] that by (auto simp: sel)
  have len: "unat n \<le> length chunks"
  proof (cases "n = s_ack s")
    case False
    let ?k = "n - 1"
    from False n have "unat ?k = unat n - 1" "0 < unat n"
      by (auto simp: word_le_nat_alt unat_sub_if' word_unat_eq_iff)
    then have "s_ack s \<le> ?k" "?k < n"
      using False n by (auto simp: word_le_nat_alt word_less_nat_alt word_unat_eq_iff)
    with some [of ?k] st [of ?k] \<open>unat ?k = unat n - 1\<close> show ?thesis by fastforce
  qed (use rc in \<open>simp add: rcvd_inv_def\<close>)
  have "buf_at (stored p s) k = chunks ! unat k" if "s_ack s \<le> k" "k < n" for k
    using some [OF that] st by (auto simp: buf_at_def)
  from concat_take_range [OF n len this] rc
  have "r @ avail t = concat (take (unat n) chunks)"
    unfolding t(2) rcvd_inv_def by (metis append.assoc)
  then show ?thesis using len st by (simp add: rcvd_inv_def sel)
qed

lemma rx_rel_receive:
  assumes s: "stream_inv s" and p: "fresh_packet p" "has_type p UDX_HEADER_DATA"
  obtains t where "receive_data p s = Some t" "rx_rel p s t"
proof -
  note i = stream_invD [OF s]
  obtain n where n: "receive_data p s = Some (data_received p n s)"
    "recv_inv (data_received p n s)" "no_max (data_received p n s)" "s_ack s \<le> n"
    "avail (data_received p n s)
      = avail s @ concat (map (buf_at (stored p s)) (u32_range (s_ack s) n))"
    using receive_data_total [OF i(2,3) p(1)] by metis
  have "rx_rel p s (data_received p n s)"
    unfolding rx_rel_def
  proof (intro conjI allI impI)
    show "in_rel s (data_received p n s)" by (rule in_rel_receive [OF s refl n(2-4)])
    show "rcvd_inv chunks r (data_received p n s)"
      if "rcvd_inv chunks r s" "genuine_in chunks p" for chunks r
      using that p(2) by (intro rcvd_inv_receive [OF that(1) _ _ i(2) n(2,4) refl n(5)])
        (simp_all add: genuine_in_def)
  qed (simp_all add: data_received_def)
  with n(1) show thesis by (rule that)
qed

lemma handle_incoming_total:
  assumes s: "stream_inv s" and p: "fresh_packet p"
  obtains t where "handle_incoming env p s = Some t" "rx_rel p s t"
proof (cases "case s_on_firewall s of None \<Rightarrow> True | Some f \<Rightarrow> f (ip_from p)")
  case False
  then have "handle_incoming env p s = Some s"
    unfolding handle_incoming_def Let_def by (simp only: if_True not_False_eq_True)
  then show thesis using rx_rel_refl [OF s] by (rule that)
next
  case pass: True
  define s1 where "s1 = s\<lparr>s_stats := (s_stats s)\<lparr>st_rx_packets := st_rx_packets (s_stats s) + 1\<rparr>\<rparr>"
  have r1: "rx_rel p s s1" by (rule rx_rel_quiet [OF s]) (simp_all add: s1_def quiet_def)
  obtain s2 where s2: "(if has_type p UDX_HEADER_SACK then handle_incoming_sacks env p s1
      else Some s1) = Some s2" and r2: "rx_rel p s1 s2"
    using rx_rel_sacks [OF rx_relD(2) [OF r1], of env p p] rx_rel_refl [OF rx_relD(2) [OF r1]]
    by metis
  define u where "u = s2\<lparr>s_state := close_remote (s_state s2)\<rparr>"
  define s3 where "s3 = (if has_type p UDX_HEADER_END then terminate closed_by_remote u else s2)"
  have ru: "rx_rel p s2 u"
    by (rule rx_rel_quiet [OF rx_relD(2) [OF r2]]) (simp_all add: u_def quiet_def)
  have r3: "rx_rel p s2 s3"
    using rx_rel_trans [OF ru rx_rel_terminate [OF rx_relD(2) [OF ru]]]
      rx_rel_refl [OF rx_relD(2) [OF r2]] by (simp add: s3_def)
  obtain s4 where s4: "(if has_type p UDX_HEADER_DATA then receive_data p s3 else Some s3) = Some s4"
    and r4: "rx_rel p s3 s4"
    using rx_rel_receive [OF rx_relD(2) [OF r3] p] rx_rel_refl [OF rx_relD(2) [OF r3]]
    by metis
  have r5: "rx_rel p s4 (grow_cwnd s4)"
    by (rule rx_rel_quiet [OF rx_relD(2) [OF r4]]) (simp_all add: grow_cwnd_def quiet_def)
  define t where "t = (if incoming_ack p > s_seq s4 then s4
    else if incoming_ack p > s_remote_acked s4 then grow_cwnd s4 else s4)"
  have "rx_rel p s4 t"
    using r5 rx_rel_refl [OF rx_relD(2) [OF r4]] by (simp add: t_def)
  then have "rx_rel p s t"
    by (intro rx_rel_trans [OF r1 rx_rel_trans [OF r2 rx_rel_trans [OF r3 rx_rel_trans [OF r4]]]])
  moreover have "handle_incoming env p s = Some t"
    unfolding handle_incoming_def Let_def s1_def [symmetric] s2 bind.bind_lunit
      u_def [symmetric] s3_def [symmetric] s4 using pass by (simp add: t_def)
  ultimately show thesis by (rule that [rotated])
qed

section \<open>Polling\<close>

definition live_rel :: "udx_stream \<Rightarrow> udx_stream \<Rightarrow> bool" where
  "live_rel s t \<longleftrightarrow> in_rel s t \<and> set (s_recv_rx t) \<subseteq> set (s_recv_rx s)
     \<and> (\<forall>chunks r. rcvd_inv chunks r s \<longrightarrow>
          (\<forall>p. EventPacket p \<in> set (s_recv_rx s) \<longrightarrow> genuine_in chunks p) \<longrightarrow> rcvd_inv chunks r t)
     \<and> (\<forall>b. s_remote_acked s \<le> b \<longrightarrow>
          (\<forall>p. EventPacket p \<in> set (s_recv_rx s) \<longrightarrow> incoming_ack p \<le> b) \<longrightarrow> s_remote_acked t \<le> b)"

lemma live_relD:
  assumes "live_rel s t"
  shows "in_rel s t" "stream_inv t" "set (s_recv_rx t) \<subseteq> set (s_recv_rx s)"
    "rcvd_inv chunks r s \<Longrightarrow> (\<And>p. EventPacket p \<in> set (s_recv_rx s) \<Longrightarrow> genuine_in chunks p)
       \<Longrightarrow> rcvd_inv chunks r t"
    "s_remote_acked s \<le> b \<Longrightarrow> (\<And>p. EventPacket p \<in> set (s_recv_rx s) \<Longrightarrow> incoming_ack p \<le> b)
       \<Longrightarrow> s_remote_acked t \<le> b"
  using assms by (auto simp: live_rel_def in_rel_def)

lemma live_rel_refl: "stream_inv s \<Longrightarrow> live_rel s s"
  by (simp add: live_rel_def in_rel_refl)

lemma live_rel_trans:
  assumes st: "live_rel s t" and tu: "live_rel t u"
  shows "live_rel s u"
proof -
  note a = live_relD [OF st] and b = live_relD [OF tu]
  show ?thesis
    unfolding live_rel_def
  proof (intro conjI allI impI)
    show "in_rel s u" by (rule in_rel_trans [OF a(1) b(1)])
    show "set (s_recv_rx u) \<subseteq> set (s_recv_rx s)" using a(3) b(3) by blast
    show "rcvd_inv chunks r u" if "rcvd_inv chunks r s"
      "\<forall>p. EventPacket p \<in> set (s_recv_rx s) \<longrightarrow> genuine_in chunks p" for chunks r
      using that a(3) by (intro b(4) a(4)) blast+
    show "s_remote_acked u \<le> n" if "s_remote_acked s \<le> n"
      "\<forall>p. EventPacket p \<in> set (s_recv_rx s) \<longrightarrow> incoming_ack p \<le> n" for n
      using that a(3) by (intro b(5) a(5)) blast+
  qed
qed

text \<open>A step that leaves the receiving side alone.\<close>

lemma live_rel_same:
  assumes "in_rel s t" "s_recv_rx t = s_recv_rx s" "s_remote_acked t = s_remote_acked s"
    "s_incoming t = s_incoming s" "s_ack t = s_ack s" "s_read_cursor t = s_read_cursor s"
  shows "live_rel s t"
  using assms rcvd_inv_cong [of t s] unfolding live_rel_def by auto

lemma incoming_loop_total:
  "stream_inv s \<Longrightarrow> \<exists>t r. incoming_loop env n ack s = Some (t, r) \<and> live_rel s t
     \<and> s_remote_acked t = s_remote_acked s
     \<and> (\<forall>a. r = Inr a \<longrightarrow> a = ack \<or> (\<exists>p. EventPacket p \<in> set (s_recv_rx s) \<and> a = incoming_ack p))"
proof (induction n arbitrary: ack s)
  case 0
  then show ?case by (simp add: live_rel_refl)
next
  case (Suc n)
  show ?case
  proof (cases "s_recv_rx s")
    case Nil
    then show ?thesis using Suc.prems by (simp add: live_rel_refl)
  next
    case (Cons e rest)
    obtain p where e: "e = EventPacket p" by (cases e)
    let ?s = "s\<lparr>s_recv_rx := rest\<rparr>"
    have "fresh_packet p" using stream_invD(4) [OF Suc.prems, of p] Cons e by simp
    have inv: "stream_inv ?s"
      using Suc.prems recv_inv_cong [of ?s s] Cons
      by (simp add: stream_inv_def acct_def no_max_def)
    obtain u where u: "handle_incoming env p ?s = Some u" "rx_rel p ?s u"
      using handle_incoming_total [OF inv \<open>fresh_packet p\<close>] by metis
    obtain t r where t: "incoming_loop env n (max ack (incoming_ack p)) u = Some (t, r)"
      "live_rel u t" "s_remote_acked t = s_remote_acked u"
      "\<forall>a. r = Inr a \<longrightarrow> a = max ack (incoming_ack p)
         \<or> (\<exists>q. EventPacket q \<in> set (s_recv_rx u) \<and> a = incoming_ack q)"
      using Suc.IH [OF rx_relD(2) [OF u(2)]] by blast
    note d = rx_relD [OF u(2)]
    have "in_rel s ?s"
      using inv by (simp add: in_rel_def sent_inv_def all_refs_def)
    then have "live_rel s u"
      unfolding live_rel_def
      using in_rel_trans [OF _ d(1)] d(3,4) d(5) rcvd_inv_cong [of ?s s]
      by (auto simp: Cons e)
    with t(2) have "live_rel s t" by (blast intro: live_rel_trans)
    moreover have "incoming_loop env (Suc n) ack s = Some (t, r)"
      using u(1) t(1) by (simp add: Cons e Let_def)
    ultimately show ?thesis
      using t(3,4) d(3,4) by (auto simp: Cons e max_def split: if_splits)
  qed
qed

lemma poll_incoming_total:
  assumes s: "stream_inv s"
  obtains t r where "poll_incoming env s = Some (t, r)" "live_rel s t"
proof -
  obtain u r where u: "incoming_loop env (e_recv_budget env) 0 s = Some (u, r)" "live_rel s u"
    "s_remote_acked u = s_remote_acked s"
    "\<forall>a. r = Inr a \<longrightarrow> a = 0 \<or> (\<exists>p. EventPacket p \<in> set (s_recv_rx s) \<and> a = incoming_ack p)"
    using incoming_loop_total [OF s, of env "e_recv_budget env" 0] by blast
  show thesis
  proof (cases r)
    case (Inl e)
    then show ?thesis using u by (intro that [of u "Inl e"]) (simp_all add: poll_incoming_def)
  next
    case (Inr ack)
    note i = live_relD(2) [OF u(2)]
    obtain t where t: "handle_incoming_max_remote_ack env ack u = Some t" "acct t" "tx_frame u t"
      "s_remote_acked t = max ack (s_remote_acked u)" "s_send_queue t = s_send_queue u"
      "s_send_tx t = s_send_tx u" "s_cwnd t = s_cwnd u"
      "map_of (s_outgoing t) = (\<lambda>k. if s_remote_acked u \<le> k \<and> k < ack then None
                                     else map_of (s_outgoing u) k)"
      by (rule max_remote_ack_total [OF stream_invD(1) [OF i], where env = env and ack = ack])
    note f = tx_frameD [OF t(3)]
    have "in_rel u t"
      by (rule in_rel_tx [OF i t(2,3,6)]) (simp_all add: t(5,8) split: if_splits)
    then have "in_rel s t" using live_relD(1) [OF u(2)] by (blast intro: in_rel_trans)
    moreover have "s_remote_acked t \<le> b" if "s_remote_acked s \<le> b"
      "\<forall>p. EventPacket p \<in> set (s_recv_rx s) \<longrightarrow> incoming_ack p \<le> b" for b
      using u(4) [rule_format, OF Inr] that unfolding t(4) u(3) by (metis max.boundedI word_zero_le)
    moreover have "rcvd_inv chunks r t" if "rcvd_inv chunks r u" for chunks r
      using that rcvd_inv_cong [OF f(4,3,5)] by simp
    ultimately have "live_rel s t"
      unfolding live_rel_def using live_relD(3,4) [OF u(2)] by (simp add: f(6))
    then show ?thesis
      using u(1) t(1) by (intro that [of t "Inr ()"]) (simp_all add: poll_incoming_def Inr)
  qed
qed

end
