(* ===== verification/Udx_Stream_Poll.thy ===== *)
theory Udx_Stream_Poll
  imports Udx_Stream_Drive
begin

text \<open>
  The entry points of a stream: handing packets to the socket, one poll of the driver,
  connecting, closing, reading and writing. Every one of them is total on a stream that
  satisfies \<open>stream_inv\<close> and re-establishes it.
\<close>

section \<open>Handing packets to the socket\<close>

text \<open>\<open>seg_ok\<close>: references that fit into one packet set. \<open>set_ok\<close>: the invariant that the
  comments above \<open>PacketSet\<close> ask for.\<close>

definition seg_ok :: "heap \<Rightarrow> usize \<Rightarrow> usize \<Rightarrow> packet_ref list \<Rightarrow> bool" where
  "seg_ok h m g q \<longleftrightarrow>
     (\<forall>r \<in> set q. packet_buf_len (p_buf (deref h r)) = g) \<and> (0 < m \<longrightarrow> length q \<le> m)"

definition set_ok :: "heap \<Rightarrow> socket_addr \<Rightarrow> usize \<Rightarrow> packet_set \<Rightarrow> bool" where
  "set_ok h dest m ps \<longleftrightarrow> ps_dest ps = dest \<and> ps_packets ps \<noteq> []
     \<and> (\<exists>g. ps_segment_size ps = Some g \<and> seg_ok h m g (ps_packets ps))"

lemma seg_ok_single: "g = packet_buf_len (p_buf (deref h r)) \<Longrightarrow> seg_ok h m g [r]"
  by (auto simp: seg_ok_def)

lemma seg_ok_snoc:
  "seg_ok h m g q \<Longrightarrow> packet_buf_len (p_buf (deref h r)) = g \<Longrightarrow> length q \<noteq> m
     \<Longrightarrow> seg_ok h m g (q @ [r])"
  by (auto simp: seg_ok_def)

lemma set_ok_new: "seg_ok h m g q \<Longrightarrow> q \<noteq> [] \<Longrightarrow> set_ok h dest m (packet_set_new dest q g)"
  by (auto simp: set_ok_def packet_set_new_def)

lemma ps_packets_new [simp]: "ps_packets (packet_set_new dest q g) = q"
  by (simp add: packet_set_new_def)

abbreviation handed :: "udx_stream \<Rightarrow> packet_set list \<Rightarrow> udx_stream" where
  "handed s sets \<equiv> s\<lparr>s_send_queue := [], s_send_tx := s_send_tx s @ map Transmit sets\<rparr>"

lemma transmit_loop_open:
  "s_send_open s \<Longrightarrow> seg_ok (s_heap s) m g q \<Longrightarrow>
   \<exists>sets g' q'. transmit_loop m g q s = Some (g', q', handed s sets)
     \<and> concat (map ps_packets sets) @ q' = q @ s_send_queue s
     \<and> (\<forall>ps \<in> set sets. set_ok (s_heap s) (s_remote_addr s) m ps) \<and> seg_ok (s_heap s) m g' q'"
proof (induction "s_send_queue s" arbitrary: g q s)
  case Nil
  then have "transmit_loop m g q s = Some (g, q, handed s [])"
    using Nil(1) [symmetric] by (simp add: transmit_loop.simps [of m g q s])
  with Nil show ?case by (intro exI [of _ "[]"]) auto
next
  case (Cons r rest)
  let ?s = "s\<lparr>s_send_queue := rest\<rparr>"
  let ?len = "packet_buf_len (p_buf (deref (s_heap s) r))"
  note queue = Cons(2) [symmetric]
  show ?case
  proof (cases "?len \<noteq> g \<or> length q = m")
    case False
    from Cons(1) [of ?s g "q @ [r]"] Cons(3,4) False
    show ?thesis by (simp add: transmit_loop.simps [of m g q s] queue seg_ok_snoc Let_def)
  next
    case True
    show ?thesis
    proof (cases "q = []")
      case q: True
      have step: "transmit_loop m g q s = transmit_loop m ?len [r] ?s"
        using True by (simp add: transmit_loop.simps [of m g "[]" s] queue q Let_def)
      from Cons(1) [of ?s ?len "[r]"] Cons(3)
      show ?thesis unfolding step by (simp add: queue q seg_ok_single)
    next
      case q: False
      let ?ps = "packet_set_new (s_remote_addr s) q g"
      let ?t = "?s\<lparr>s_send_tx := s_send_tx s @ [Transmit ?ps]\<rparr>"
      have step: "transmit_loop m g q s = transmit_loop m ?len [r] ?t"
        using True q Cons(3) by (simp add: transmit_loop.simps [of m g q s] queue Let_def)
      from Cons(1) [of ?t ?len "[r]"] Cons(3) obtain sets g' q' where
        t: "transmit_loop m ?len [r] ?t = Some (g', q', handed ?t sets)"
          "concat (map ps_packets sets) @ q' = r # rest"
          "\<forall>ps \<in> set sets. set_ok (s_heap s) (s_remote_addr s) m ps" "seg_ok (s_heap s) m g' q'"
        by (auto simp: seg_ok_single)
      have "set_ok (s_heap s) (s_remote_addr s) m ?ps"
        using Cons(4) q by (rule set_ok_new)
      with t step queue show ?thesis by (intro exI [of _ "?ps # sets"]) auto
    qed
  qed
qed

lemma poll_transmit_open:
  assumes "s_send_open s"
  obtains sets where "poll_transmit s = Some (handed s sets)"
    "concat (map ps_packets sets) = s_send_queue s"
    "\<forall>ps \<in> set sets. set_ok (s_heap s) (s_remote_addr s) (min (s_max_gso_segments s) MAX_SEGMENTS) ps"
proof -
  let ?m = "min (s_max_gso_segments s) MAX_SEGMENTS"
  obtain sets g q where t: "transmit_loop ?m 0 [] s = Some (g, q, handed s sets)"
    "concat (map ps_packets sets) @ q = s_send_queue s"
    "\<forall>ps \<in> set sets. set_ok (s_heap s) (s_remote_addr s) ?m ps" "seg_ok (s_heap s) ?m g q"
    using transmit_loop_open [OF assms, of ?m 0 "[]"] by (auto simp: seg_ok_def)
  show thesis
  proof (cases "q = []")
    case True
    then show ?thesis using t by (intro that [of sets]) (simp_all add: poll_transmit_def Let_def)
  next
    case False
    let ?ps = "packet_set_new (s_remote_addr s) q g"
    show ?thesis
      using False t set_ok_new [OF t(4) False] assms
      by (intro that [of "sets @ [?ps]"]) (auto simp: poll_transmit_def Let_def)
  qed
qed

text \<open>With the socket gone, only a single set can be got rid of.\<close>

lemma transmit_loop_closed:
  "\<not> s_send_open s \<Longrightarrow> q \<noteq> [] \<Longrightarrow> seg_ok (s_heap s) m g q \<Longrightarrow> 0 < m \<Longrightarrow>
   transmit_loop m g q s =
     (if seg_ok (s_heap s) m g (q @ s_send_queue s)
      then Some (g, q @ s_send_queue s, s\<lparr>s_send_queue := []\<rparr>) else None)"
proof (induction "s_send_queue s" arbitrary: q s)
  case Nil
  then show ?case using Nil(1) [symmetric] by (simp add: transmit_loop.simps [of m g q s])
next
  case (Cons r rest)
  let ?s = "s\<lparr>s_send_queue := rest\<rparr>"
  let ?len = "packet_buf_len (p_buf (deref (s_heap s) r))"
  note queue = Cons(2) [symmetric]
  show ?case
  proof (cases "?len \<noteq> g \<or> length q = m")
    case False
    from Cons(1) [of ?s "q @ [r]"] Cons(3-6) False
    show ?thesis by (simp add: transmit_loop.simps [of m g q s] queue seg_ok_snoc Let_def)
  next
    case True
    then have "\<not> seg_ok (s_heap s) m g (q @ s_send_queue s)"
      using Cons(6) by (auto simp: seg_ok_def queue)
    then show ?thesis
      using True Cons(3,4) by (simp add: transmit_loop.simps [of m g q s] queue Let_def)
  qed
qed

lemma poll_transmit_closed:
  assumes "\<not> s_send_open s" "0 < s_max_gso_segments s"
  shows "poll_transmit s =
    (if \<exists>g. seg_ok (s_heap s) (min (s_max_gso_segments s) MAX_SEGMENTS) g (s_send_queue s)
     then Some (s\<lparr>s_send_queue := []\<rparr>) else None)"
proof -
  let ?m = "min (s_max_gso_segments s) MAX_SEGMENTS"
  have m: "0 < ?m" using assms(2) by (simp add: MAX_SEGMENTS_def)
  show ?thesis
  proof (cases "s_send_queue s")
    case Nil
    then have "transmit_loop ?m 0 [] s = Some (0, [], s\<lparr>s_send_queue := []\<rparr>)"
      by (simp add: transmit_loop.simps [of ?m 0 "[]" s])
    with Nil show ?thesis by (simp add: poll_transmit_def seg_ok_def Let_def)
  next
    case (Cons r rest)
    let ?s = "s\<lparr>s_send_queue := rest\<rparr>"
    let ?len = "packet_buf_len (p_buf (deref (s_heap s) r))"
    have uniq: "(\<exists>g. seg_ok (s_heap s) ?m g (s_send_queue s))
        \<longleftrightarrow> seg_ok (s_heap s) ?m ?len (s_send_queue s)"
      unfolding seg_ok_def Cons by auto
    have first: "transmit_loop ?m 0 [] s = transmit_loop ?m ?len [r] ?s"
      by (simp add: transmit_loop.simps [of ?m 0 "[]" s] Cons Let_def)
    have "transmit_loop ?m ?len [r] ?s = (if seg_ok (s_heap s) ?m ?len (s_send_queue s)
        then Some (?len, s_send_queue s, s\<lparr>s_send_queue := []\<rparr>) else None)"
      using transmit_loop_closed [of ?s "[r]" ?m ?len] m assms(1) by (simp add: seg_ok_single Cons)
    then show ?thesis
      unfolding poll_transmit_def uniq first Let_def using assms(1) Cons by simp
  qed
qed

section \<open>One poll of the driver\<close>

lemma live_rel_tx:
  assumes s: "stream_inv s" and t: "acct t" "tx_frame s t" "s_send_tx t = s_send_tx s"
      "s_remote_acked t = s_remote_acked s" "s_outgoing t = s_outgoing s"
    and queue: "\<And>r. r \<in> set (s_send_queue t) \<Longrightarrow> r \<in> set (s_send_queue s)
       \<or> (\<exists>k a. map_of (s_outgoing s) k = Some a \<and> r = Shared a)"
  shows "live_rel s t"
proof -
  note f = tx_frameD [OF t(2)]
  have "in_rel s t" by (rule in_rel_tx [OF s t(1-3) queue]) (simp_all add: t(5))
  then show ?thesis using f(6) t(4) f(4) f(3) f(5) by (rule live_rel_same)
qed

lemma live_rel_check_timeouts:
  assumes s: "stream_inv s"
  obtains t r where "poll_check_timeouts env s = Some (t, r)" "live_rel s t"
proof -
  obtain t r where t: "poll_check_timeouts env s = Some (t, r)" "acct t" "tx_frame s t"
    "s_outgoing t = s_outgoing s" "s_remote_acked t = s_remote_acked s"
    "s_send_queue t = s_send_queue s" "s_send_tx t = s_send_tx s"
    by (rule check_timeouts_total [OF stream_invD(1) [OF s], where env = env])
  show thesis
    using t(1) live_rel_tx [OF s t(2,3,7,5,4)] by (rule that) (simp add: t(6))
qed

lemma flush_loop_queue:
  "r \<in> set (s_send_queue (flush_loop is s)) \<Longrightarrow>
     r \<in> set (s_send_queue s) \<or> (\<exists>k a. map_of (s_outgoing s) k = Some a \<and> r = Shared a)"
proof (induction "is" arbitrary: s)
  case (Cons i "is")
  let ?t = "\<lambda>a. s\<lparr>s_heap := (s_heap s)[a := (s_heap s ! a)\<lparr>p_waiting := False\<rparr>],
      s_inflight := s_inflight s + packet_len (s_heap s ! a),
      s_send_queue := s_send_queue s @ [Shared a]\<rparr>"
  from Cons.prems Cons.IH [of s] Cons.IH [of "?t _"] show ?case
    by (auto simp: Let_def split: option.splits if_splits)
qed simp

lemma live_rel_flush:
  assumes s: "stream_inv s"
  shows "live_rel s (flush_waiting_packets s)"
proof -
  let ?t = "flush_waiting_packets s"
  have "acct ?t" "tx_frame s ?t" "s_outgoing ?t = s_outgoing s"
    "s_remote_acked ?t = s_remote_acked s" "s_send_tx ?t = s_send_tx s"
    using flush_loop_acct [OF stream_invD(1) [OF s]] by (simp_all add: flush_waiting_packets_def)
  with s show ?thesis
    by (intro live_rel_tx) (auto simp: flush_waiting_packets_def dest: flush_loop_queue)
qed

lemma live_rel_transmit:
  assumes s: "stream_inv s" and sets: "concat (map ps_packets sets) = s_send_queue s"
    and ok: "\<forall>ps \<in> set sets. set_ok (s_heap s) dest m ps"
  shows "live_rel s (handed s sets)"
proof -
  let ?t = "handed s sets"
  have "stream_inv ?t"
    using s recv_inv_cong [of ?t s] by (simp add: stream_inv_def acct_def no_max_def)
  moreover have "sent_inv chunks ?t" if "sent_inv chunks s" for chunks
    using that sets [symmetric] ok
    by (auto simp: sent_inv_def all_refs_def event_ok_def set_ok_def seg_ok_def uniform_def)
  ultimately have "in_rel s ?t" by (simp add: in_rel_def)
  then show ?thesis by (rule live_rel_same) simp_all
qed

lemma poll_drive_total:
  assumes s: "stream_inv s" and "open": "s_send_open s"
  obtains t r where "poll_drive env s = Some (t, r)" "live_rel s t"
proof -
  obtain s1 r1 where 1: "poll_incoming env s = Some (s1, r1)" "live_rel s s1"
    by (rule poll_incoming_total [OF s, where env = env])
  obtain s2 r2 where 2: "poll_check_timeouts env s1 = Some (s2, r2)" "live_rel s1 s2"
    by (rule live_rel_check_timeouts [OF live_relD(2) [OF 1(2)], where env = env])
  define s3 where "s3 = flush_waiting_packets s2"
  have 3: "live_rel s2 s3" unfolding s3_def by (rule live_rel_flush [OF live_relD(2) [OF 2(2)]])
  note r12 = live_rel_trans [OF 1(2) 2(2)]
  note r13 = live_rel_trans [OF r12 3]
  have "s_send_open s3" using in_relD(8) [OF live_relD(1) [OF r13]] "open" by simp
  then obtain sets where 4: "poll_transmit s3 = Some (handed s3 sets)"
    "concat (map ps_packets sets) = s_send_queue s3"
    "\<forall>ps \<in> set sets. set_ok (s_heap s3) (s_remote_addr s3) (min (s_max_gso_segments s3) MAX_SEGMENTS) ps"
    by (rule poll_transmit_open)
  note r14 = live_rel_trans [OF r13 live_rel_transmit [OF live_relD(2) [OF r13] 4(2,3)]]
  show thesis
  proof (cases r1)
    case (Inl e)
    then show ?thesis using 1 by (intro that [of s1 "Inl e"]) (simp_all add: poll_drive_def)
  next
    case r1: (Inr x)
    show ?thesis
    proof (cases r2)
      case (Inl e)
      then show ?thesis using 1 2 r1 r12
        by (intro that [of s2 "Inl e"]) (simp_all add: poll_drive_def)
    next
      case (Inr y)
      then show ?thesis using 1 2 r1 r14 4
        by (intro that [of "handed s3 sets" "Inr False"])
          (simp_all add: poll_drive_def s3_def [symmetric] Let_def)
    qed
  qed
qed

lemma live_rel_quiet:
  "stream_inv s \<Longrightarrow> quiet s t \<Longrightarrow> s_send_queue t = s_send_queue s \<Longrightarrow> live_rel s t"
  using in_rel_quiet [of s t "[]"] by (intro live_rel_same) (simp_all add: quiet_def)

lemma live_rel_terminate: "stream_inv s \<Longrightarrow> live_rel s (terminate e s)"
  by (rule live_rel_same) (fact in_rel_terminate)+

text \<open>The state a driver leaves behind when it ends.\<close>

definition finished :: "udx_stream \<Rightarrow> udx_stream" where
  "finished s = s\<lparr>s_drive_waker := None, s_on_close := None,
     s_close_sent := s_close_sent s @ (case s_on_close s of None \<Rightarrow> [] | Some tx \<Rightarrow> [tx]),
     s_send_tx := s_send_tx s @ (if s_send_open s then [StreamDropped (s_local_id s)] else [])\<rparr>"

lemma driver_finished:
  assumes "closed_and_drained s"
  shows "stream_driver_poll env s = Some (finished s, Ready ())"
proof -
  have "closed_and_drained (s\<lparr>s_drive_waker := None\<rparr>)"
    using assms by (simp add: closed_and_drained_def)
  then show ?thesis
    by (cases s) (auto simp: stream_driver_poll_def finished_def Let_def split: option.split)
qed

lemma live_rel_finished:
  assumes s: "stream_inv s"
  shows "live_rel s (finished s)"
proof -
  let ?t = "finished s"
  have "stream_inv ?t"
    using s recv_inv_cong [of ?t s] by (simp add: stream_inv_def acct_def no_max_def finished_def)
  moreover have "sent_inv chunks ?t" if "sent_inv chunks s" for chunks
    using that by (auto simp: sent_inv_def all_refs_def event_ok_def finished_def split: if_splits)
  ultimately have "in_rel s ?t" by (simp add: in_rel_def finished_def)
  then show ?thesis by (rule live_rel_same) (simp_all add: finished_def)
qed

lemma driver_total:
  assumes s: "stream_inv s" and "open": "s_send_open s"
  obtains t r where "stream_driver_poll env s = Some (t, r)" "live_rel s t"
    "r = Ready () \<longleftrightarrow> closed_and_drained s"
proof (cases "closed_and_drained s")
  case True
  then show thesis
    using driver_finished live_rel_finished [OF s] by (intro that [of "finished s" "Ready ()"]) auto
next
  case False
  define s0 where "s0 = s\<lparr>s_drive_waker := None\<rparr>"
  have 0: "live_rel s s0"
    by (rule live_rel_quiet [OF s]) (simp_all add: s0_def quiet_def)
  obtain s1 r where 1: "poll_drive env s0 = Some (s1, r)" "live_rel s0 s1"
    using "open" by (auto simp: s0_def intro: poll_drive_total [OF live_relD(2) [OF 0], where env = env])
  have nd: "\<not> closed_and_drained s0" using False by (simp add: s0_def closed_and_drained_def)
  define u where "u = (case r of Inr _ \<Rightarrow> s1 | Inl err \<Rightarrow> terminate (udx_error_from_io err) s1)"
  define c where "c = (case r of Inr b \<Rightarrow> b | Inl _ \<Rightarrow> True)"
  have 2: "live_rel s1 u"
    using live_relD(2) [OF 1(2)]
    by (simp add: u_def live_rel_refl live_rel_terminate split: sum.split)
  define t where "t = (if c then u\<lparr>s_woken := s_woken u @ [e_waker env]\<rparr>
                       else u\<lparr>s_drive_waker := Some (e_waker env)\<rparr>)"
  have "live_rel u t"
    by (rule live_rel_quiet [OF live_relD(2) [OF 2]]) (simp_all add: t_def quiet_def)
  then have "live_rel s t" by (intro live_rel_trans [OF 0 live_rel_trans [OF 1(2) live_rel_trans [OF 2]]])
  moreover have "stream_driver_poll env s = Some (t, Pending)"
    using nd 1(1) unfolding stream_driver_poll_def s0_def [symmetric] Let_def
    by (cases r) (simp_all add: u_def c_def t_def)
  ultimately show thesis using False by (intro that) auto
qed

section \<open>Connecting and closing\<close>

lemma stream_connect_inv:
  "stream_inv (stream_connect now h gso dest rid lid)"
  "sent_inv [] (stream_connect now h gso dest rid lid)"
  "rcvd_inv chunks [] (stream_connect now h gso dest rid lid)"
  by (simp_all add: stream_connect_def stream_inv_def acct_def books_def recv_inv_def no_max_def
      local_closed_def sent_inv_def all_refs_def rcvd_inv_def avail_def stream_stats_default_def
      udx_constants Let_def)

lemma live_rel_close: "stream_inv s \<Longrightarrow> live_rel s (stream_close tx s)"
proof -
  assume s: "stream_inv s"
  let ?t = "terminate close_graceful s"
  have i: "in_rel s ?t" by (rule in_rel_terminate [OF s])
  have "stream_inv (?t\<lparr>s_on_close := Some tx\<rparr>)"
    using in_relD(1) [OF i] recv_inv_cong [of "?t\<lparr>s_on_close := Some tx\<rparr>" ?t]
    by (simp add: stream_inv_def acct_def no_max_def)
  moreover have "sent_inv c (?t\<lparr>s_on_close := Some tx\<rparr>) = sent_inv c ?t" for c
    by (simp add: sent_inv_def all_refs_def)
  ultimately have "in_rel s (stream_close tx s)"
    using i by (simp add: in_rel_def stream_close_def)
  then show ?thesis
    by (rule live_rel_same) (simp_all add: stream_close_def terminate_eq)
qed

lemma live_rel_drop: "stream_inv s \<Longrightarrow> live_rel s (stream_drop n s)"
  by (simp add: stream_drop_def live_rel_refl live_rel_terminate)

end
