(* ===== verification/Udx_Socket_Props.thy ===== *)
theory Udx_Socket_Props
  imports Udx_Socket Udx_Udp_Props Udx_Stream_Poll
begin

text \<open>
  The socket on any platform that keeps the contracts \<open>udp_layer\<close> and \<open>udp_receiver\<close>. Receiving through
  the shared buffer refines handling the datagrams one by one (\<open>accept\<close>); transmitting moves
  the events of the channel to the kernel in order (\<open>tx_rel\<close>). The lemmas are proved once in the
  locale \<open>udp_socket\<close>, which is interpreted on the platforms of \<open>udx-udp\<close>.
\<close>

section \<open>Receiving\<close>

text \<open>What becomes of one datagram.\<close>

definition route :: "udx_socket \<Rightarrow> u8 list \<Rightarrow> (header \<times> chan) option" where
  "route k data = do {
     header \<leftarrow> header_dec data;
     c \<leftarrow> map_of (k_streams k) (hdr_stream_id header);
     Some (header, c)
   }"

definition incoming :: "header \<Rightarrow> socket_addr \<Rightarrow> u8 list \<Rightarrow> incoming_packet" where
  "incoming header addr data =
     \<lparr>ip_header = header, ip_buf = drop UDX_HEADER_SIZE data, ip_read_offset = 0, ip_from = addr\<rparr>"

definition count_rx :: "u8 list \<Rightarrow> udx_socket \<Rightarrow> udx_socket" where
  "count_rx data k = k\<lparr>k_stats := (k_stats k)\<lparr>sk_rx_bytes := sk_rx_bytes (k_stats k) + length data,
     sk_rx_dgrams := sk_rx_dgrams (k_stats k) + 1\<rparr>\<rparr>"

definition accept :: "socket_addr \<times> u8 list \<Rightarrow> udx_socket \<Rightarrow> udx_socket" where
  "accept = (\<lambda>(addr, data) k.
     case route k data of
       None \<Rightarrow> on_recv_dgram data \<lparr>rm_addr = addr, rm_len = length data, rm_ecn = None, rm_dst_ip = None\<rparr>
                 (count_rx data k)
     | Some (header, c) \<Rightarrow>
         if c \<in> set (k_hung_up k)
         then (count_rx data k)\<lparr>k_streams := AList.delete (hdr_stream_id header) (k_streams k)\<rparr>
         else (count_rx data k)\<lparr>k_inbox := k_inbox k @ [(c, EventPacket (incoming header addr data))]\<rparr>)"

lemma on_recv_dgram_meta: "rm_addr m = rm_addr m' \<Longrightarrow> on_recv_dgram data m k = on_recv_dgram data m' k"
  by (simp add: on_recv_dgram_def)

lemma process_packet_accept:
  assumes "kv_local_addr env = Inr a"
  shows "\<exists>k' res. process_packet env data meta k = Some (k', res)
    \<and> (case res of Inl d \<Rightarrow> on_recv_dgram d meta k' | Inr _ \<Rightarrow> k') = accept (rm_addr meta, data) k"
proof (cases "header_from_bytes data")
  case None
  then show ?thesis using header_from_bytes_total [of data] by simp
next
  case (Some r)
  show ?thesis
  proof (cases r)
    case (Inl e)
    then have "route k data = None" using Some by (simp add: route_def header_dec_def)
    with Inl Some assms show ?thesis
      by (auto simp: process_packet_def accept_def count_rx_def Let_def intro: on_recv_dgram_meta)
  next
    case (Inr h)
    have len: "20 \<le> length data" using header_from_bytes_sound [of data h] Some Inr by simp
    show ?thesis
    proof (cases "map_of (k_streams k) (hdr_stream_id h)")
      case None
      then have "route k data = None" using Some Inr by (simp add: route_def header_dec_def)
      with Inr Some None assms show ?thesis
        by (auto simp: process_packet_def accept_def count_rx_def Let_def intro: on_recv_dgram_meta)
    next
      case (Some c)
      then have "route k data = Some (h, c)"
        using Inr \<open>header_from_bytes data = Some r\<close> by (simp add: route_def header_dec_def)
      with Inr Some len \<open>header_from_bytes data = Some r\<close> assms show ?thesis
        by (simp add: process_packet_def accept_def count_rx_def Let_def incoming_def UDX_HEADER_SIZE_def)
    qed
  qed
qed

text \<open>The datagrams that the calls of \<open>poll_recv\<close> in one poll hand over.\<close>

abbreviation dgrams_of :: "received \<Rightarrow> (socket_addr \<times> u8 list) list" where
  "dgrams_of msgs \<equiv> map (\<lambda>(data, meta). (rm_addr meta, data)) msgs"

fun all_received :: "(usize \<Rightarrow> (io_error + received) poll option) \<Rightarrow> usize \<Rightarrow> nat \<Rightarrow> (socket_addr \<times> u8 list) list" where
  "all_received recv iters 0 = []"
| "all_received recv iters (Suc left) =
     (case recv iters of
        Some (Ready (Inr msgs)) \<Rightarrow> dgrams_of msgs @ all_received recv (iters + 1) left
      | _ \<Rightarrow> [])"

definition buffers_ok :: "usize \<Rightarrow> u8 list list \<Rightarrow> bool" where
  "buffers_ok batch iovs \<longleftrightarrow> length iovs = batch \<and> (\<forall>iov \<in> set iovs. length iov = UDX_MTU)"

lemma process_batch_accept:
  assumes "kv_local_addr env = Inr a"
  shows "length msgs \<le> length iovs \<Longrightarrow> \<forall>iov \<in> set iovs. length iov = UDX_MTU \<Longrightarrow>
    \<forall>(data, meta) \<in> set msgs. rm_len meta = length data \<and> length data \<le> UDX_MTU \<Longrightarrow>
    process_batch env (zip (scatter msgs iovs) (map snd msgs)) k = Some (fold accept (dgrams_of msgs) k)"
proof (induction msgs arbitrary: iovs k)
  case Nil
  then show ?case by simp
next
  case (Cons m msgs)
  obtain data meta where m: "m = (data, meta)" by (cases m)
  obtain iov iovs' where iovs: "iovs = iov # iovs'" using Cons.prems(1) by (cases iovs) auto
  have len: "rm_len meta = length data" "length data \<le> UDX_MTU" "length iov = UDX_MTU"
    using Cons.prems m iovs by auto
  then have sl: "slice (copy_at 0 (take (length iov) data) iov) 0 (rm_len meta) = Some data"
    by (simp add: slice_def copy_at_def)
  obtain k' res where p: "process_packet env data meta k = Some (k', res)"
    "(case res of Inl d \<Rightarrow> on_recv_dgram d meta k' | Inr _ \<Rightarrow> k') = accept (rm_addr meta, data) k"
    using process_packet_accept [OF assms] by blast
  have "process_batch env (zip (scatter msgs iovs') (map snd msgs)) (accept (rm_addr meta, data) k)
      = Some (fold accept (dgrams_of msgs) (accept (rm_addr meta, data) k))"
    using Cons.prems iovs by (intro Cons.IH) auto
  then show ?case by (simp add: m iovs sl p)
qed

lemma scatter_lengths: "map length (scatter msgs iovs) = map length iovs"
  by (induction msgs iovs rule: scatter.induct) (auto simp: copy_at_def)

lemma buffers_ok_iff: "buffers_ok batch iovs \<longleftrightarrow> map length iovs = replicate batch UDX_MTU"
  unfolding buffers_ok_def
proof (induction iovs arbitrary: batch)
  case (Cons iov iovs)
  then show ?case by (cases batch) auto
qed auto

lemma scatter_buffers_ok: "buffers_ok batch iovs \<Longrightarrow> buffers_ok batch (scatter msgs iovs)"
  by (simp add: buffers_ok_iff scatter_lengths)

lemma chunks_mut_exact:
  "length buf = n * Suc sz \<Longrightarrow> concat (chunks_mut (Suc sz) buf) = buf
     \<and> length (chunks_mut (Suc sz) buf) = n \<and> (\<forall>c \<in> set (chunks_mut (Suc sz) buf). length c = Suc sz)"
proof (induction n arbitrary: buf)
  case (Suc n)
  then obtain b rest where buf: "buf = b # rest" by (cases buf) auto
  with Suc.prems have len: "length rest = sz + n * Suc sz" by (simp only: list.size mult_Suc)
  then have "length (drop sz rest) = n * Suc sz" by (simp only: length_drop diff_add_inverse)
  note IH = Suc.IH [OF this]
  have "length (take sz rest) = sz" using len by (simp only: length_take min_def) simp
  with IH show ?case by (simp add: buf del: length_take)
qed simp

lemma iovectors_total:
  assumes "0 < batch" "length buf = UDX_MTU * batch"
  shows "\<exists>iovs. iovectors_from_buf batch buf = Some iovs \<and> buffers_ok batch iovs"
proof -
  have div: "length buf div batch = Suc 1399" using assms by (simp add: UDX_MTU_def)
  have "length buf = batch * Suc 1399" using assms by (simp add: UDX_MTU_def)
  note c = chunks_mut_exact [OF this]
  show ?thesis
    using assms(1) c unfolding iovectors_from_buf_def Let_def div buffers_ok_def UDX_MTU_def by simp
qed

lemma length_concat_buffers: "buffers_ok batch iovs \<Longrightarrow> length (concat iovs) = UDX_MTU * batch"
  unfolding buffers_ok_def by (induction iovs arbitrary: batch) (auto simp: algebra_simps)

context udp_receiver
begin

lemma recv_loop_accept:
  assumes "recv_ok r" "kv_local_addr env = Inr a"
  shows "buffers_ok batch iovs \<Longrightarrow>
    \<exists>iovs' res. recv_loop (poll_recv r) env iters left iovs k
        = Some (fold accept (all_received (poll_recv r) iters left) k, iovs', res) \<and> buffers_ok batch iovs'
      \<and> (\<forall>e. res = Inl e \<longrightarrow> (\<exists>i. poll_recv r i = Some (Ready (Inl e))))"
proof (induction left arbitrary: iters iovs k)
  case 0
  then show ?case by simp
next
  case (Suc left)
  obtain p where p: "poll_recv r iters = Some p" "received_ok batch (arrived r) p"
    using receives [OF assms(1)] by blast
  show ?case
  proof (cases "\<exists>msgs. p = Ready (Inr msgs)")
    case True
    then obtain msgs where msgs: "p = Ready (Inr msgs)" by blast
    with p(2) have "process_batch env (zip (scatter msgs iovs) (map snd msgs)) k
        = Some (fold accept (dgrams_of msgs) k)"
      using Suc.prems by (intro process_batch_accept [OF assms(2)]) (auto simp: received_ok_def buffers_ok_def)
    then show ?thesis
      using Suc.IH [OF scatter_buffers_ok [OF Suc.prems], of "iters + 1" msgs "fold accept (dgrams_of msgs) k"]
        p(1) msgs by (simp add: Let_def)
  next
    case False
    then show ?thesis using p(1) Suc.prems by (cases p) (auto split: sum.splits)
  qed
qed

lemma all_received_arrived:
  assumes "recv_ok r"
  shows "set (all_received (poll_recv r) iters left) \<subseteq> arrived r"
proof (induction left arbitrary: iters)
  case (Suc left)
  obtain p where p: "poll_recv r iters = Some p" "received_ok batch (arrived r) p"
    using receives [OF assms] by blast
  have "set (dgrams_of msgs) \<subseteq> arrived r" if "p = Ready (Inr msgs)" for msgs
    using p(2) that by (auto simp: received_ok_def)
  then show ?case
    using p(1) Suc.IH [of "iters + 1"] by (auto split: poll.splits sum.splits)
qed simp

lemma poll_recv_accept:
  assumes "recv_ok r" "kv_local_addr env = Inr a" "k_recv_buf k = Some buf" "length buf = UDX_MTU * batch"
  shows "\<exists>buf' res. socket_poll_recv (poll_recv r) batch env k
      = Some ((fold accept (all_received (poll_recv r) 1 (MAX_LOOP - 1)) (k\<lparr>k_recv_buf := None\<rparr>))
          \<lparr>k_recv_buf := Some buf'\<rparr>, res) \<and> length buf' = UDX_MTU * batch
      \<and> (\<forall>e. res = Inl e \<longrightarrow> (\<exists>i. poll_recv r i = Some (Ready (Inl e))))"
proof -
  obtain iovs where iovs: "iovectors_from_buf batch buf = Some iovs" "buffers_ok batch iovs"
    using iovectors_total [OF batch_pos assms(4)] by blast
  obtain iovs' res where l: "recv_loop (poll_recv r) env 1 (MAX_LOOP - 1) iovs (k\<lparr>k_recv_buf := None\<rparr>)
      = Some (fold accept (all_received (poll_recv r) 1 (MAX_LOOP - 1)) (k\<lparr>k_recv_buf := None\<rparr>), iovs', res)"
    "buffers_ok batch iovs'" "\<forall>e. res = Inl e \<longrightarrow> (\<exists>i. poll_recv r i = Some (Ready (Inl e)))"
    using recv_loop_accept [OF assms(1,2) iovs(2)] by blast
  then show ?thesis
    using assms(3) iovs(1) length_concat_buffers [OF l(2)]
    by (intro exI [of _ "concat iovs'"] exI [of _ res]) (simp add: socket_poll_recv_def)
qed

end

section \<open>Transmitting\<close>

text \<open>The transmit an event asks for, its packet set and the stream it drops.\<close>

fun transmit_of :: "heap \<Rightarrow> event_outgoing \<Rightarrow> transmit option" where
  "transmit_of h (Transmit ps) = packet_set_to_transmit h ps"
| "transmit_of h (TransmitDgram d) = Some (dgram_into_transmit d)"
| "transmit_of h (StreamDropped _) = None"

fun set_of :: "event_outgoing \<Rightarrow> packet_set option" where
  "set_of (Transmit ps) = Some ps"
| "set_of _ = None"

fun dropped_of :: "event_outgoing \<Rightarrow> u32 option" where
  "dropped_of (StreamDropped i) = Some i"
| "dropped_of _ = None"

abbreviation transmits_of :: "heap \<Rightarrow> event_outgoing list \<Rightarrow> transmit list" where
  "transmits_of h \<equiv> List.map_filter (transmit_of h)"

text \<open>\<open>cap\<close>: whether the platform can segment.\<close>

definition sendable :: "bool \<Rightarrow> event_outgoing \<Rightarrow> bool" where
  "sendable cap e = (case e of
     Transmit ps \<Rightarrow> (\<exists>g. ps_segment_size ps = Some g \<and> 0 < g) \<and> (cap \<or> length (ps_packets ps) = 1)
   | _ \<Rightarrow> True)"

definition transmit_ok :: "bool \<Rightarrow> transmit \<Rightarrow> bool" where
  "transmit_ok cap t \<longleftrightarrow> (\<forall>sz. t_segment_size t = Some sz \<longrightarrow> cap \<and> 0 < sz)"

definition sock_inv :: "bool \<Rightarrow> usize \<Rightarrow> udx_socket \<Rightarrow> bool" where
  "sock_inv cap batch k \<longleftrightarrow>
     (\<exists>buf. k_recv_buf k = Some buf \<and> length buf = UDX_MTU * batch)
     \<and> length (k_recv_dgrams k) \<le> RECV_QUEUE_MAX_LEN
     \<and> list_all (sendable cap) (k_send_rx k) \<and> list_all (transmit_ok cap) (k_outgoing_transmits k)"

definition filled :: "event_outgoing list \<Rightarrow> event_outgoing list \<Rightarrow> udx_socket \<Rightarrow> udx_socket" where
  "filled evs rest k = k\<lparr>k_send_rx := rest,
     k_streams := fold AList.delete (List.map_filter dropped_of evs) (k_streams k),
     k_outgoing_transmits := k_outgoing_transmits k @ transmits_of (k_heap k) evs,
     k_outgoing_packet_sets := k_outgoing_packet_sets k @ List.map_filter set_of evs\<rparr>"

lemma sendable_transmit:
  assumes "sendable cap (Transmit ps)"
  shows "\<exists>t. packet_set_to_transmit h ps = Some t \<and> transmit_ok cap t"
  using assms by (auto simp: sendable_def packet_set_to_transmit_def transmit_ok_def Let_def)

lemma outgoing_event_filled:
  assumes "sendable cap e"
  shows "outgoing_event e (k\<lparr>k_send_rx := rest\<rparr>) = Some (filled [e] rest k)"
  using assms sendable_transmit [of cap _ "k_heap k"]
  by (cases e) (fastforce simp: outgoing_event_def filled_def List.map_filter_def)+

lemma filled_Cons: "filled evs rest (filled [e] (evs @ rest) k) = filled (e # evs) rest k"
  by (cases e) (auto simp: filled_def List.map_filter_def split: option.split)

lemma filled_Nil: "filled [] (k_send_rx k) k = k"
  by (simp add: filled_def List.map_filter_def)

lemma filled_transmits_ok:
  "list_all (sendable cap) evs \<Longrightarrow> list_all (transmit_ok cap) (transmits_of h evs)"
proof (induction evs)
  case (Cons e evs)
  have "transmit_ok cap t" if "transmit_of h e = Some t" for t
    using that Cons.prems sendable_transmit [of cap _ h]
    by (cases e) (fastforce simp: dgram_into_transmit_def transmit_ok_def)+
  with Cons show ?case by (auto simp: List.map_filter_simps split: option.split)
qed (simp add: List.map_filter_simps)

lemma fill_transmits_filled:
  "list_all (sendable cap) (k_send_rx k) \<Longrightarrow>
   \<exists>evs rest pending. fill_transmits batch budget k = Some (filled evs rest k, pending)
     \<and> k_send_rx k = evs @ rest \<and> length evs \<le> budget
     \<and> (pending \<longrightarrow> rest = [] \<or> length evs = budget)
     \<and> (\<not> pending \<longrightarrow> batch \<le> length (k_outgoing_transmits (filled evs rest k)))"
proof (induction budget arbitrary: k)
  case 0
  show ?case
    by (rule exI [of _ "[]"], rule exI [of _ "k_send_rx k"])
      (auto simp: fill_transmits.simps [of batch 0 k] filled_Nil)
next
  case (Suc budget)
  show ?case
  proof (cases "length (k_outgoing_transmits k) < batch \<and> k_send_rx k \<noteq> []")
    case False
    then have "fill_transmits batch (Suc budget) k = Some (k, length (k_outgoing_transmits k) < batch)"
      by (cases "k_send_rx k") (simp_all add: fill_transmits.simps [of batch "Suc budget" k])
    with False show ?thesis
      by (intro exI [of _ "[]"] exI [of _ "k_send_rx k"] exI [of _ "length (k_outgoing_transmits k) < batch"])
        (simp add: filled_Nil)
  next
    case True
    then obtain e es where es: "k_send_rx k = e # es" by (cases "k_send_rx k") auto
    let ?k = "filled [e] es k"
    have rx: "k_send_rx ?k = es" by (simp add: filled_def)
    with Suc.prems es have "list_all (sendable cap) (k_send_rx ?k)" by simp
    from Suc.IH [OF this] obtain evs rest pending where IH:
      "fill_transmits batch budget ?k = Some (filled evs rest ?k, pending)" "es = evs @ rest"
      "length evs \<le> budget" "pending \<longrightarrow> rest = [] \<or> length evs = budget"
      "\<not> pending \<longrightarrow> batch \<le> length (k_outgoing_transmits (filled evs rest ?k))"
      unfolding rx by blast
    have fc: "filled evs rest ?k = filled (e # evs) rest k"
      using filled_Cons [of evs rest e k] by (simp add: IH(2))
    have "fill_transmits batch (Suc budget) k = Some (filled (e # evs) rest k, pending)"
      using True es IH(1) Suc.prems outgoing_event_filled [of cap e es k]
      by (simp add: fill_transmits.simps [of batch "Suc budget" k] fc)
    moreover have "k_send_rx k = (e # evs) @ rest" using es IH(2) by simp
    ultimately show ?thesis
      using IH(3-5) unfolding fc by (intro exI [of _ "e # evs"] exI [of _ rest] exI [of _ pending]) simp
  qed
qed

lemma track_all_total:
  "list_all (transmit_ok cap) ts \<Longrightarrow> \<exists>st'. track_all env ts st = Some st'"
proof (induction ts arbitrary: st)
  case (Cons t ts)
  then have "num_segments t \<noteq> None"
    by (auto simp: num_segments_def transmit_ok_def split: option.splits)
  then have "track_tx env t st \<noteq> None" by (auto simp: track_tx_def Let_def)
  with Cons show ?case by auto
qed simp

text \<open>One round of sending: \<open>evs\<close> leave the channel, \<open>n\<close> transmits the queue, the kernel took
  \<open>taken\<close> of those.\<close>

definition tx_rel :: "event_outgoing list \<Rightarrow> usize \<Rightarrow> transmit list \<Rightarrow> udx_socket \<Rightarrow> udx_socket \<Rightarrow> bool" where
  "tx_rel evs n taken k k' \<longleftrightarrow>
     (let out = k_outgoing_transmits k @ transmits_of (k_heap k) evs;
          sets = k_outgoing_packet_sets k @ List.map_filter set_of evs in
      k_send_rx k = evs @ k_send_rx k' \<and> counted out n taken \<and> k_outgoing_transmits k' = drop n out
      \<and> k_sent k' = k_sent k @ taken
      \<and> k_outgoing_packet_sets k' = drop n sets
      \<and> (\<exists>now. k_heap k' = foldl (set_now now) (k_heap k) (concat (map iter_shared (take n sets))))
      \<and> k_streams k' = fold AList.delete (List.map_filter dropped_of evs) (k_streams k)
      \<and> k_recv_buf k' = k_recv_buf k \<and> k_recv_dgrams k' = k_recv_dgrams k \<and> k_inbox k' = k_inbox k
      \<and> k_hung_up k' = k_hung_up k \<and> k_next_chan k' = k_next_chan k \<and> k_has_refs k' = k_has_refs k
      \<and> (k_max_gso_segments k' = k_max_gso_segments k \<or> k_max_gso_segments k' = 1))"

context udp_layer
begin

lemma poll_transmit_total:
  assumes inv: "sock_inv cap batch k" and slice: "0 < kv_slice env"
    and kern: "\<And>ts. list_all (transmit_ok cap) ts \<Longrightarrow> ok kern ts"
  shows "\<exists>k' res evs n taken. socket_poll_transmit (poll_send kern) batch env k = Some (k', res)
    \<and> tx_rel evs n taken k k' \<and> (\<forall>e. res = Inl e \<longrightarrow> fails kern e)"
proof -
  from inv have sr: "list_all (sendable cap) (k_send_rx k)"
    and out: "list_all (transmit_ok cap) (k_outgoing_transmits k)" by (simp_all add: sock_inv_def)
  obtain evs rest pending where fill:
    "fill_transmits batch (kv_budget env) k = Some (filled evs rest k, pending)" "k_send_rx k = evs @ rest"
    using fill_transmits_filled [OF sr] by blast
  let ?k = "filled evs rest k"
  let ?ts = "take (kv_slice env) (k_outgoing_transmits ?k)"
  have outs: "list_all (transmit_ok cap) (k_outgoing_transmits ?k)"
    using sr out fill(2) filled_transmits_ok [of cap evs "k_heap k"] by (simp add: filled_def)
  have rel0: "tx_rel evs 0 [] k ?k" using fill(2) by (auto simp: tx_rel_def filled_def counted_0 intro: exI [of _ 0])
  show ?thesis
  proof (cases "k_outgoing_transmits ?k = []")
    case True
    then show ?thesis using fill(1) rel0 by (auto simp: socket_poll_transmit_def)
  next
    case ne: False
    have "list_all (transmit_ok cap) ?ts" using outs by (auto simp: list_all_iff dest: in_set_takeD)
    then have "ok kern ?ts" by (rule kern)
    moreover have "?ts \<noteq> []" using ne slice by simp
    ultimately show ?thesis
    proof (cases rule: sends_cases [where gso = "k_max_gso_segments ?k" and lse = "k_last_send_error ?k"])
      case (1 gso' lse')
      let ?k' = "?k\<lparr>k_max_gso_segments := gso', k_last_send_error := lse', k_sent := k_sent ?k @ []\<rparr>"
      have "socket_poll_transmit (poll_send kern) batch env k = Some (?k', Inr False)"
        using 1(2) fill(1) ne by (simp add: socket_poll_transmit_def)
      moreover have "tx_rel evs 0 [] k ?k'" using rel0 1(1) by (auto simp: tx_rel_def filled_def Let_def)
      ultimately show ?thesis by blast
    next
      case (2 gso' lse' e)
      let ?k' = "?k\<lparr>k_max_gso_segments := gso', k_last_send_error := lse', k_sent := k_sent ?k @ []\<rparr>"
      let ?t = "?k'\<lparr>k_send_overflow_timer := Some (kv_now env + from_millis 20)\<rparr>"
      have "socket_poll_transmit (poll_send kern) batch env k
          = Some (if io_kind e = Interrupted then (?t, Inr False) else (?k', Inl e))"
        using 2(3) fill(1) ne by (simp add: socket_poll_transmit_def)
      moreover have "tx_rel evs 0 [] k ?k'" "tx_rel evs 0 [] k ?t"
        using rel0 2(1) by (auto simp: tx_rel_def filled_def Let_def)
      ultimately show ?thesis using 2(2) by (cases "io_kind e = Interrupted") auto
    next
      case (3 gso' lse' taken n)
      let ?sets = "k_outgoing_packet_sets ?k"
      obtain st where st: "track_all env (take n (k_outgoing_transmits ?k)) (k_stats ?k) = Some st"
        using track_all_total [of cap "take n (k_outgoing_transmits ?k)" env "k_stats ?k"] outs
        by (auto simp: list_all_iff dest: in_set_takeD)
      have n: "n \<le> length (k_outgoing_transmits ?k)" using 3(2) by (simp add: counted_def)
      have c: "counted (k_outgoing_transmits ?k) n taken"
        using 3(2) n by (auto simp: counted_def min_absorb1)
      let ?k' = "?k\<lparr>k_max_gso_segments := gso', k_last_send_error := lse', k_sent := k_sent ?k @ taken,
        k_stats := st, k_outgoing_transmits := drop n (k_outgoing_transmits ?k),
        k_outgoing_packet_sets := drop n ?sets,
        k_heap := foldl (set_now (kv_now env)) (k_heap ?k) (concat (map iter_shared (take n ?sets)))\<rparr>"
      have "socket_poll_transmit (poll_send kern) batch env k = Some (?k', Inr (\<not> pending))"
        using 3(3) fill(1) ne n st by (simp add: socket_poll_transmit_def Let_def min_def)
      moreover have "tx_rel evs n taken k ?k'"
        using rel0 c 3(1) by (auto simp: tx_rel_def filled_def Let_def)
      ultimately show ?thesis by blast
    qed
  qed
qed

end

section \<open>The driver\<close>

lemma on_recv_dgram_eq:
  "on_recv_dgram data meta k =
     (if length (k_recv_dgrams k) < RECV_QUEUE_MAX_LEN
      then k\<lparr>k_recv_dgrams := k_recv_dgrams k @ [dgram_new (rm_addr meta) data], k_recv_waker := None,
             k_woken := k_woken k @ (case k_recv_waker k of None \<Rightarrow> [] | Some w \<Rightarrow> [w])\<rparr>
      else k)"
  by (auto simp: on_recv_dgram_def split: option.split)

text \<open>What receiving leaves alone.\<close>

definition rx_frame :: "udx_socket \<Rightarrow> udx_socket \<Rightarrow> bool" where
  "rx_frame k k' \<longleftrightarrow> k_send_rx k' = k_send_rx k \<and> k_outgoing_transmits k' = k_outgoing_transmits k
     \<and> k_outgoing_packet_sets k' = k_outgoing_packet_sets k \<and> k_recv_buf k' = k_recv_buf k
     \<and> k_max_gso_segments k' = k_max_gso_segments k \<and> k_heap k' = k_heap k \<and> k_sent k' = k_sent k
     \<and> k_has_refs k' = k_has_refs k \<and> k_next_chan k' = k_next_chan k \<and> k_hung_up k' = k_hung_up k
     \<and> k_send_overflow_timer k' = k_send_overflow_timer k
     \<and> (length (k_recv_dgrams k) \<le> RECV_QUEUE_MAX_LEN \<longrightarrow> length (k_recv_dgrams k') \<le> RECV_QUEUE_MAX_LEN)"

lemma accept_frame: "rx_frame k (accept d k)"
  by (cases d)
    (auto simp: accept_def rx_frame_def count_rx_def on_recv_dgram_eq split: option.split)

lemma accept_all_frame: "rx_frame k (fold accept ds k)"
proof (induction ds arbitrary: k)
  case (Cons d ds)
  from this [of "accept d k"] show ?case using accept_frame [of k d] by (auto simp: rx_frame_def)
qed (simp add: rx_frame_def)

lemma accept_recv_buf: "accept d (k\<lparr>k_recv_buf := b\<rparr>) = (accept d k)\<lparr>k_recv_buf := b\<rparr>"
  by (cases d)
    (auto simp: accept_def route_def count_rx_def on_recv_dgram_eq split: option.split)

lemma accept_all_recv_buf: "fold accept ds (k\<lparr>k_recv_buf := b\<rparr>) = (fold accept ds k)\<lparr>k_recv_buf := b\<rparr>"
  by (induction ds arbitrary: k) (simp_all add: accept_recv_buf)

lemma sock_inv_accept:
  assumes "sock_inv cap batch k" "length buf = UDX_MTU * batch"
  shows "sock_inv cap batch ((fold accept ds k)\<lparr>k_recv_buf := Some buf\<rparr>)"
  using assms accept_all_frame [of k ds] by (simp add: sock_inv_def rx_frame_def)

lemma tx_rel_refl:
  assumes "k_send_rx k' = k_send_rx k" "k_outgoing_transmits k' = k_outgoing_transmits k"
    "k_sent k' = k_sent k" "k_outgoing_packet_sets k' = k_outgoing_packet_sets k" "k_heap k' = k_heap k"
    "k_streams k' = k_streams k" "k_recv_buf k' = k_recv_buf k" "k_recv_dgrams k' = k_recv_dgrams k"
    "k_inbox k' = k_inbox k" "k_hung_up k' = k_hung_up k" "k_next_chan k' = k_next_chan k"
    "k_has_refs k' = k_has_refs k" "k_max_gso_segments k' = k_max_gso_segments k"
  shows "tx_rel [] 0 [] k k'"
  using assms by (simp add: tx_rel_def Let_def List.map_filter_simps counted_0)

lemma sock_inv_tx:
  assumes "sock_inv cap batch k" "tx_rel evs n taken k k'"
  shows "sock_inv cap batch k'"
proof -
  let ?out = "k_outgoing_transmits k @ transmits_of (k_heap k) evs"
  have rx: "k_send_rx k = evs @ k_send_rx k'" and out: "k_outgoing_transmits k' = drop n ?out"
    and same: "k_recv_buf k' = k_recv_buf k" "k_recv_dgrams k' = k_recv_dgrams k"
    using assms(2) by (simp_all add: tx_rel_def Let_def)
  have "list_all (transmit_ok cap) ?out"
    using assms(1) rx filled_transmits_ok [of cap evs "k_heap k"] by (simp add: sock_inv_def)
  then have "list_all (transmit_ok cap) (k_outgoing_transmits k')"
    unfolding out by (auto simp: list_all_iff dest: in_set_dropD)
  then show ?thesis using assms(1) rx same by (simp add: sock_inv_def)
qed

locale udp_socket = udp_layer poll_send ok fails + udp_receiver poll_recv recv_ok arrived batch
  for poll_send :: "'k \<Rightarrow> usize \<Rightarrow> instant \<Rightarrow> transmit list \<Rightarrow> (sent \<times> (io_error + usize) poll) option"
    and ok :: "'k \<Rightarrow> transmit list \<Rightarrow> bool" and fails :: "'k \<Rightarrow> io_error \<Rightarrow> bool"
    and poll_recv :: "'r \<Rightarrow> usize \<Rightarrow> (io_error + received) poll option"
    and recv_ok :: "'r \<Rightarrow> bool" and arrived :: "'r \<Rightarrow> (socket_addr \<times> u8 list) set" and batch :: usize
begin

lemma socket_driver_total:
  assumes inv: "sock_inv cap batch k" and slice: "0 < kv_slice env"
    and kern: "\<And>ts. list_all (transmit_ok cap) ts \<Longrightarrow> ok kern ts"
    and net: "recv_ok r" and addr: "kv_local_addr env = Inr a"
  shows "\<exists>k' p buf evs n taken. socket_driver_poll (poll_send kern) (poll_recv r) batch env k = Some (k', p)
    \<and> length buf = UDX_MTU * batch
    \<and> tx_rel evs n taken
        ((fold accept (all_received (poll_recv r) 1 (MAX_LOOP - 1)) k)\<lparr>k_recv_buf := Some buf\<rparr>) k'
    \<and> (p = Ready (Inr ()) \<longrightarrow> \<not> k_has_refs k' \<and> k_streams k' = [])"
proof -
  define ds where "ds = all_received (poll_recv r) 1 (MAX_LOOP - 1)"
  obtain buf0 where buf0: "k_recv_buf k = Some buf0" "length buf0 = UDX_MTU * batch"
    using inv by (auto simp: sock_inv_def)
  obtain buf res where rx: "socket_poll_recv (poll_recv r) batch env k
      = Some ((fold accept ds k)\<lparr>k_recv_buf := Some buf\<rparr>, res)" "length buf = UDX_MTU * batch"
    using poll_recv_accept [OF net addr buf0] by (auto simp: accept_all_recv_buf ds_def)
  define k1 where "k1 = (fold accept ds k)\<lparr>k_recv_buf := Some buf\<rparr>"
  note rx = rx [folded k1_def]
  have inv1: "sock_inv cap batch k1" unfolding k1_def using inv rx(2) by (rule sock_inv_accept)
  have "\<exists>k' p evs n taken. socket_driver_poll (poll_send kern) (poll_recv r) batch env k = Some (k', p)
    \<and> tx_rel evs n taken k1 k' \<and> (p = Ready (Inr ()) \<longrightarrow> \<not> k_has_refs k' \<and> k_streams k' = [])"
  proof (cases res)
    case (Inl e)
    then have "socket_driver_poll (poll_send kern) (poll_recv r) batch env k = Some (k1, Ready (Inl e))"
      using rx(1) by (simp add: socket_driver_poll_def)
    moreover have "tx_rel [] 0 [] k1 k1" by (rule tx_rel_refl) simp_all
    ultimately show ?thesis by blast
  next
    case (Inr c)
    obtain k2 res2 evs n taken where tx: "(case k_send_overflow_timer k1 of
             Some deadline \<Rightarrow> if kv_timer_ready env deadline
               then Some (k1\<lparr>k_send_overflow_timer := None\<rparr>, Inr True) else Some (k1, Inr False)
           | None \<Rightarrow> socket_poll_transmit (poll_send kern) batch env k1) = Some (k2, res2)"
        "tx_rel evs n taken k1 k2"
    proof (cases "k_send_overflow_timer k1")
      case None
      then show ?thesis using that poll_transmit_total [OF inv1 slice kern] by auto
    next
      case (Some d)
      have "tx_rel [] 0 [] k1 (k1\<lparr>k_send_overflow_timer := None\<rparr>)" "tx_rel [] 0 [] k1 k1"
        by (rule tx_rel_refl; simp)+
      then show ?thesis using that Some by (cases "kv_timer_ready env d") auto
    qed
    have same: "tx_rel evs n taken k1 (k2\<lparr>k_woken := w\<rparr>)" "tx_rel evs n taken k1 (k2\<lparr>k_drive_waker := v\<rparr>)" for w v
      using tx(2) by (simp_all add: tx_rel_def)
    have "socket_driver_poll (poll_send kern) (poll_recv r) batch env k =
      (case res2 of
         Inl e \<Rightarrow> Some (k2, Ready (Inl e))
       | Inr t \<Rightarrow>
           if \<not> (c \<or> t) \<and> \<not> k_has_refs k2 \<and> k_streams k2 = [] then Some (k2, Ready (Inr ()))
           else if c \<or> t then Some (k2\<lparr>k_woken := k_woken k2 @ [kv_waker env]\<rparr>, Pending)
           else Some (k2\<lparr>k_drive_waker := Some (kv_waker env)\<rparr>, Pending))"
      unfolding socket_driver_poll_def rx(1) Inr by (cases res2) (simp_all add: tx(1))
    then show ?thesis
      using tx(2) by (cases res2) (auto intro: same split: if_splits)
  qed
  then show ?thesis using rx(2) unfolding k1_def ds_def by blast
qed

end

section \<open>A socket under an arbitrary environment\<close>

text \<open>\<open>sends_ok\<close> and \<open>recvs_ok\<close>: the calls of a platform on a kernel that behaves.\<close>

definition sends_ok :: "('k \<Rightarrow> 's) \<Rightarrow> ('k \<Rightarrow> transmit list \<Rightarrow> bool) \<Rightarrow> bool \<Rightarrow> 's \<Rightarrow> bool" where
  "sends_ok poll_send ok cap send \<longleftrightarrow>
     (\<exists>kern. send = poll_send kern \<and> (\<forall>ts. list_all (transmit_ok cap) ts \<longrightarrow> ok kern ts))"

definition recvs_ok :: "('r \<Rightarrow> 's) \<Rightarrow> ('r \<Rightarrow> bool) \<Rightarrow> 's \<Rightarrow> bool" where
  "recvs_ok poll_recv ok recv \<longleftrightarrow> (\<exists>r. recv = poll_recv r \<and> ok r)"

inductive socket_step ::
  "bool \<Rightarrow> usize
    \<Rightarrow> ((usize \<Rightarrow> instant \<Rightarrow> transmit list \<Rightarrow> (sent \<times> (io_error + usize) poll) option) \<Rightarrow> bool)
    \<Rightarrow> ((usize \<Rightarrow> (io_error + received) poll option) \<Rightarrow> bool) \<Rightarrow> udx_socket \<Rightarrow> udx_socket \<Rightarrow> bool"
  for cap batch sends recvs where
  on_send: "socket_step cap batch sends recvs k (socket_send dest buf k)"
| on_connect: "socket_connect env dest lid rid k = Some (k', s) \<Longrightarrow> socket_step cap batch sends recvs k k'"
| on_recv: "socket_step cap batch sends recvs k (fst (recv_future_poll w k))"
| on_drop: "socket_step cap batch sends recvs k (socket_drop n k)"
| on_event: "sendable cap e \<Longrightarrow> socket_step cap batch sends recvs k (k\<lparr>k_send_rx := k_send_rx k @ [e]\<rparr>)"
| on_heap: "socket_step cap batch sends recvs k (k\<lparr>k_heap := h\<rparr>)"
| on_hang_up: "socket_step cap batch sends recvs k (k\<lparr>k_hung_up := c # k_hung_up k\<rparr>)"
| on_drive: "sends send \<Longrightarrow> recvs recv \<Longrightarrow> 0 < kv_slice env \<Longrightarrow> kv_local_addr env = Inr a \<Longrightarrow>
    socket_driver_poll send recv batch env k = Some (k', p) \<Longrightarrow> socket_step cap batch sends recvs k k'"

definition socket_bound :: "usize \<Rightarrow> udx_socket \<Rightarrow> bool" where
  "socket_bound batch k \<longleftrightarrow> (\<exists>lse gso. socket_bind batch (Inr ()) (Some (Inr lse)) gso = Some (Inr k))"

lemma socket_bound_inv: "socket_bound batch k \<Longrightarrow> sock_inv cap batch k"
  by (auto simp: socket_bound_def socket_bind_def sock_inv_def)

context udp_socket
begin

lemma sock_inv_step:
  assumes inv: "sock_inv cap batch k"
    and st: "socket_step cap batch (sends_ok poll_send ok cap) (recvs_ok poll_recv recv_ok) k t"
  shows "sock_inv cap batch t"
  using st
proof cases
  case (on_connect env dest lid rid s)
  then show ?thesis
    using inv by (auto simp: socket_connect_def sock_inv_def Let_def split: sum.splits)
next
  case (on_drive send recv env a p)
  then obtain kern r where send: "send = poll_send kern" "recv = poll_recv r" "recv_ok r"
    and kern: "\<And>ts. list_all (transmit_ok cap) ts \<Longrightarrow> ok kern ts"
    by (auto simp: sends_ok_def recvs_ok_def)
  obtain k' p' buf evs n taken where d:
    "socket_driver_poll (poll_send kern) (poll_recv r) batch env k = Some (k', p')"
    "length buf = UDX_MTU * batch" "tx_rel evs n taken
        ((fold accept (all_received (poll_recv r) 1 (MAX_LOOP - 1)) k)\<lparr>k_recv_buf := Some buf\<rparr>) k'"
    using socket_driver_total [OF inv on_drive(3) kern send(3) on_drive(4)] by blast
  have "sock_inv cap batch k'" using sock_inv_accept [OF inv d(2)] d(3) by (rule sock_inv_tx)
  with d(1) on_drive(5) send show ?thesis by simp
qed (use inv in \<open>auto simp: sock_inv_def socket_send_def recv_future_poll_def socket_drop_def Let_def
       sendable_def split: list.splits option.splits\<close>)

end

interpretation unix_socket:
  udp_socket unix_layer_send unix_kernel_ok readiness_fails unix_layer_recv unix_network_ok unix_arrived
    BATCH_SIZE_UNIX
  by unfold_locales

interpretation fallback_socket:
  udp_socket fallback_layer_send fallback_ok "\<lambda>_ _. False" fallback_layer_recv fallback_network_ok
    fallback_arrived BATCH_SIZE_SINGLE
  by unfold_locales

abbreviation "unix_sends \<equiv> sends_ok unix_layer_send unix_kernel_ok"
abbreviation "unix_recvs \<equiv> recvs_ok unix_layer_recv unix_network_ok"

interpretation unix_machine:
  machine "socket_bound BATCH_SIZE_UNIX" "socket_step cap BATCH_SIZE_UNIX (unix_sends cap) unix_recvs"
    "sock_inv cap BATCH_SIZE_UNIX" for cap
  by unfold_locales (rule socket_bound_inv, assumption, rule unix_socket.sock_inv_step)

section \<open>Example values\<close>

definition ex_kernel :: unix_kernel where
  "ex_kernel = (ex_linux, linux_abi,
     \<lambda>ts. \<lparr>sn_now = 0, sn_ready = [IsReady [SysOk (min (length ts) BATCH_SIZE_UNIX)]]\<rparr>)"

definition ex_network :: unix_network where
  "ex_network = (ex_linux, linux_abi,
     \<lambda>i. if i = 1 then [IsReady [RecvOk [kernel_msg linux_abi ex_dgram]]] else [NotReady])"

definition ex_kenv :: socket_env where
  "ex_kenv = \<lparr>kv_now = 7, kv_elapsed = (\<lambda>_. 0), kv_timer_ready = (\<lambda>_. False), kv_budget = 10, kv_slice = 32,
     kv_local_addr = Inr ex_bound, kv_waker = 3\<rparr>"

definition ex_socket :: udx_socket where
  "ex_socket = \<lparr>k_last_send_error = 0, k_send_rx = [], k_streams = [],
     k_outgoing_transmits = [], k_outgoing_packet_sets = [],
     k_recv_buf = Some (replicate (UDX_MTU * BATCH_SIZE_UNIX) 0), k_max_gso_segments = 64,
     k_stats = socket_stats_default, k_has_refs = True, k_drive_waker = None,
     k_send_overflow_timer = None, k_recv_dgrams = [], k_recv_waker = None,
     k_heap = [], k_next_chan = 0, k_inbox = [], k_hung_up = [], k_sent = [], k_woken = []\<rparr>"

lemma ex_kernel_ok: "unix_kernel_ok ex_kernel ts"
  by (auto simp: unix_kernel_ok_def ex_kernel_def linux_abi_ok can_segment_def ex_linux_def calls_ok_def)

lemma ex_network_ok: "unix_network_ok ex_network"
proof -
  have "\<exists>ds. [kernel_msg linux_abi ex_dgram] = map (kernel_msg linux_abi) ds
      \<and> length ds \<le> BATCH_SIZE_UNIX \<and> list_all fits_buffer ds"
    by (intro exI [of _ "[ex_dgram]"]) (simp add: BATCH_SIZE_UNIX_def ex_dgram_def UDX_MTU_def)
  moreover have "abi_len linux_abi 4 \<noteq> abi_len linux_abi 1" by (simp add: linux_abi_def)
  ultimately show ?thesis
    by (auto simp: unix_network_ok_def ex_network_def linux_abi_ok recv_kernel_ok_def split: if_splits)
qed

lemma ex_socket_bound: "socket_bound BATCH_SIZE_UNIX ex_socket"
  unfolding socket_bound_def
  by (intro exI [of _ 0] exI [of _ 64]) (simp add: socket_bind_def ex_socket_def)

section \<open>Properties\<close>



text \<open>C34: receiving through the shared buffer, in batches and for at most 59 rounds, is handling the
  datagrams that arrived one by one, in their order.\<close>

theorem poll_recv_refines:
  assumes "unix_network_ok net" "kv_local_addr env = Inr a"
    and "k_recv_buf k = Some buf" "length buf = UDX_MTU * BATCH_SIZE_UNIX"
  shows "\<exists>buf' res. socket_poll_recv (unix_layer_recv net) BATCH_SIZE_UNIX env k
      = Some ((fold accept (all_received (unix_layer_recv net) 1 (MAX_LOOP - 1)) k)
          \<lparr>k_recv_buf := Some buf'\<rparr>, res)
    \<and> length buf' = UDX_MTU * BATCH_SIZE_UNIX
    \<and> set (all_received (unix_layer_recv net) 1 (MAX_LOOP - 1)) \<subseteq> unix_arrived net"
  using unix_receiver.poll_recv_accept [OF assms] unix_receiver.all_received_arrived [OF assms(1)]
  unfolding accept_all_recv_buf by fastforce

theorem poll_recv_refines_witness:
  "\<exists>buf' res. socket_poll_recv (unix_layer_recv ex_network) BATCH_SIZE_UNIX ex_kenv ex_socket
      = Some ((fold accept (all_received (unix_layer_recv ex_network) 1 (MAX_LOOP - 1)) ex_socket)
          \<lparr>k_recv_buf := Some buf'\<rparr>, res)
    \<and> length buf' = UDX_MTU * BATCH_SIZE_UNIX
    \<and> set (all_received (unix_layer_recv ex_network) 1 (MAX_LOOP - 1)) \<subseteq> unix_arrived ex_network"
  by (rule poll_recv_refines [where buf = "replicate (UDX_MTU * BATCH_SIZE_UNIX) 0" and a = ex_bound])
    (simp_all add: ex_network_ok ex_kenv_def ex_socket_def)

text \<open>C35: a packet that a stream creates reaches the stream it is addressed to: when its bytes arrive,
  exactly one event goes into the channel of that stream, with the same header, the same data
  and the sender's address, and no other channel and no queue changes.\<close>

theorem packet_reaches_stream:
  assumes "header_fits h" "kv_local_addr env = Inr a"
    and "map_of (k_streams k) (hdr_stream_id h) = Some c" "c \<notin> set (k_hung_up k)"
  shows "\<exists>k'. process_packet env (as_slice (p_buf (packet_new dest h body))) meta k = Some (k', Inr ())
    \<and> k_inbox k' = k_inbox k @ [(c, EventPacket \<lparr>ip_header = h, ip_buf = body, ip_read_offset = 0,
        ip_from = rm_addr meta\<rparr>)]
    \<and> k_streams k' = k_streams k \<and> k_recv_dgrams k' = k_recv_dgrams k"
  using assms header_from_bytes_header_bytes [OF assms(1), of body]
  by (simp add: process_packet_def UDX_HEADER_SIZE_def Let_def)

theorem packet_reaches_stream_witness:
  "\<exists>k'. process_packet ex_kenv (as_slice (p_buf (packet_new ex_bound
        \<lparr>hdr_typ = 1, hdr_data_offset = 0, hdr_stream_id = 4, hdr_recv_win = u32_max, hdr_seq = 2, hdr_ack = 3\<rparr> [9, 8])))
        recv_meta_default (ex_socket\<lparr>k_streams := [(4, 0)]\<rparr>) = Some (k', Inr ())
    \<and> k_inbox k' = k_inbox (ex_socket\<lparr>k_streams := [(4, 0)]\<rparr>) @ [(0, EventPacket \<lparr>ip_header =
        \<lparr>hdr_typ = 1, hdr_data_offset = 0, hdr_stream_id = 4, hdr_recv_win = u32_max, hdr_seq = 2, hdr_ack = 3\<rparr>,
        ip_buf = [9, 8], ip_read_offset = 0, ip_from = rm_addr recv_meta_default\<rparr>)]
    \<and> k_streams k' = k_streams (ex_socket\<lparr>k_streams := [(4, 0)]\<rparr>)
    \<and> k_recv_dgrams k' = k_recv_dgrams (ex_socket\<lparr>k_streams := [(4, 0)]\<rparr>)"
  by (rule packet_reaches_stream [where a = ex_bound])
    (simp_all add: header_fits_def ex_kenv_def ex_socket_def)

text \<open>C36: any other datagram is for the application. One that is no packet or is addressed to no
  stream joins the end of the queue and wakes the waiting task, unless the queue is full; then it is dropped.
  \<open>recv\<close> returns the oldest datagram of the queue.\<close>

theorem foreign_datagram_queued:
  assumes "route k data = None" "kv_local_addr env = Inr a" "rm_len meta = length data"
  shows "\<exists>k'. process_batch env [(data, meta)] k = Some k'
    \<and> k_recv_dgrams k' = (if length (k_recv_dgrams k) < RECV_QUEUE_MAX_LEN
        then k_recv_dgrams k @ [dgram_new (rm_addr meta) data] else k_recv_dgrams k)
    \<and> k_woken k' = k_woken k @ (if length (k_recv_dgrams k) < RECV_QUEUE_MAX_LEN
        then (case k_recv_waker k of None \<Rightarrow> [] | Some w \<Rightarrow> [w]) else [])
    \<and> k_inbox k' = k_inbox k \<and> k_streams k' = k_streams k
    \<and> snd (recv_future_poll w k') = (case k_recv_dgrams k @ [dgram_new (rm_addr meta) data] of
        d # _ \<Rightarrow> Ready (dg_dest d, dg_buf d))"
proof -
  obtain k' res where p: "process_packet env data meta k = Some (k', res)"
    "(case res of Inl d \<Rightarrow> on_recv_dgram d meta k' | Inr _ \<Rightarrow> k') = accept (rm_addr meta, data) k"
    using process_packet_accept [OF assms(2)] by blast
  then have "process_batch env [(data, meta)] k = Some (accept (rm_addr meta, data) k)"
    using assms(3) by (simp add: slice_def)
  then show ?thesis
    using assms(1) by (cases "k_recv_dgrams k")
      (auto simp: accept_def on_recv_dgram_eq count_rx_def recv_future_poll_def RECV_QUEUE_MAX_LEN_def)
qed

theorem foreign_datagram_queued_witness:
  "\<exists>k'. process_batch ex_kenv [([1, 2], recv_meta_default\<lparr>rm_len := 2\<rparr>)] ex_socket = Some k'
    \<and> k_recv_dgrams k' = (if length (k_recv_dgrams ex_socket) < RECV_QUEUE_MAX_LEN
        then k_recv_dgrams ex_socket @ [dgram_new (rm_addr (recv_meta_default\<lparr>rm_len := 2\<rparr>)) [1, 2]]
        else k_recv_dgrams ex_socket)
    \<and> k_woken k' = k_woken ex_socket @ (if length (k_recv_dgrams ex_socket) < RECV_QUEUE_MAX_LEN
        then (case k_recv_waker ex_socket of None \<Rightarrow> [] | Some w \<Rightarrow> [w]) else [])
    \<and> k_inbox k' = k_inbox ex_socket \<and> k_streams k' = k_streams ex_socket
    \<and> snd (recv_future_poll 5 k') = (case k_recv_dgrams ex_socket
          @ [dgram_new (rm_addr (recv_meta_default\<lparr>rm_len := 2\<rparr>)) [1, 2]] of
        d # _ \<Rightarrow> Ready (dg_dest d, dg_buf d))"
  by (rule foreign_datagram_queued [where a = ex_bound])
    (simp_all add: route_def header_dec_def header_from_bytes_def UDX_HEADER_SIZE_def ex_kenv_def)



definition ex_cell :: packet where
  "ex_cell = packet_new ex_bound
     \<lparr>hdr_typ = 1, hdr_data_offset = 0, hdr_stream_id = 4, hdr_recv_win = u32_max, hdr_seq = 0, hdr_ack = 0\<rparr> [9, 8]"

text \<open>A datagram is queued in front of a packet of a stream.\<close>

definition ex_queued_socket :: udx_socket where
  "ex_queued_socket = ex_socket\<lparr>k_heap := [ex_cell],
     k_send_rx := [TransmitDgram (dgram_new ex_bound [1, 2]), Transmit (packet_set_new ex_bound [Shared 0] 22)]\<rparr>"

lemma ex_queued_socket_inv: "sock_inv True BATCH_SIZE_UNIX ex_queued_socket"
  by (simp add: sock_inv_def ex_queued_socket_def ex_socket_def sendable_def packet_set_new_def)


text \<open>C38: the number of transmits that the kernel counted is also taken as the number of packet sets
  that were sent. With a datagram queued in front of a packet set, a kernel that takes
  only the datagram makes the socket stamp the packet as sent, although it still waits in the
  queue.\<close>

theorem packet_stamped_before_sent:
  assumes "n = 1" "k_outgoing_transmits k = [dgram_into_transmit d, t]" "k_outgoing_packet_sets k = [ps]"
    and "k_send_rx k = []" "iter_shared ps = [a]" "a < length (k_heap k)" "2 \<le> kv_slice env" "2 < batch"
    and "send (k_max_gso_segments k) (k_last_send_error k) [dgram_into_transmit d, t]
      = Some ((gso, lse, [dgram_into_transmit d]), Ready (Inr n))"
  shows "\<exists>k'. socket_poll_transmit send batch env k = Some (k', Inr False)
    \<and> k_outgoing_transmits k' = [t] \<and> k_sent k' = k_sent k @ [dgram_into_transmit d]
    \<and> k_outgoing_packet_sets k' = [] \<and> p_time_sent (k_heap k' ! a) = Some (kv_now env)"
proof -
  have "fill_transmits batch (kv_budget env) k = Some (k, True)"
    using assms(2,4,8) by (cases "kv_budget env") (simp_all add: fill_transmits.simps)
  then show ?thesis
    using assms by (simp add: socket_poll_transmit_def track_tx_def num_segments_def dgram_into_transmit_def
        set_now_def Let_def)
qed

theorem packet_stamped_before_sent_witness:
  "\<exists>k'. socket_poll_transmit (\<lambda>gso lse ts. Some ((gso, lse, take 1 ts), Ready (Inr 1))) BATCH_SIZE_UNIX ex_kenv
      (ex_socket\<lparr>k_heap := [ex_cell],
        k_outgoing_transmits := [dgram_into_transmit (dgram_new ex_bound [1, 2]), packet_to_transmit ex_cell],
        k_outgoing_packet_sets := [packet_set_new ex_bound [Shared 0] 22]\<rparr>) = Some (k', Inr False)
    \<and> k_outgoing_transmits k' = [packet_to_transmit ex_cell]
    \<and> k_sent k' = k_sent (ex_socket\<lparr>k_heap := [ex_cell],
        k_outgoing_transmits := [dgram_into_transmit (dgram_new ex_bound [1, 2]), packet_to_transmit ex_cell],
        k_outgoing_packet_sets := [packet_set_new ex_bound [Shared 0] 22]\<rparr>)
        @ [dgram_into_transmit (dgram_new ex_bound [1, 2])]
    \<and> k_outgoing_packet_sets k' = [] \<and> p_time_sent (k_heap k' ! 0) = Some (kv_now ex_kenv)"
  by (rule packet_stamped_before_sent [where ps = "packet_set_new ex_bound [Shared 0] 22" and n = 1])
    (simp_all add: ex_socket_def ex_kenv_def BATCH_SIZE_UNIX_def iter_shared_def packet_set_new_def
       List.map_filter_simps)



end
