(* ===== verification/Udx_Stream_Write.thy ===== *)
theory Udx_Stream_Write
  imports Udx_Stream_Poll
begin

text \<open>
  Writing and reading through a stream. A write cuts its buffer into chunks, one packet
  each; \<open>write_rel s cs t\<close> says that exactly the chunks \<open>cs\<close> were added to what the stream
  has sent. A read moves bytes from \<open>avail\<close> to the caller.
\<close>

section \<open>Sending one data packet\<close>

definition data_packet :: "udx_stream \<Rightarrow> u8 list \<Rightarrow> packet" where
  "data_packet s body = packet_new (s_remote_addr s)
     \<lparr>hdr_typ = UDX_HEADER_DATA, hdr_data_offset = 0, hdr_stream_id = s_remote_id s,
      hdr_recv_win = u32_max, hdr_seq = s_seq s, hdr_ack = s_ack s\<rparr> body"

definition pushed :: "udx_stream \<Rightarrow> u8 list \<Rightarrow> udx_stream" where
  "pushed s body = s\<lparr>
     s_heap := s_heap s @ [data_packet s body],
     s_seq := s_seq s + 1,
     s_stats := (s_stats s)\<lparr>
       st_inflight_bytes := st_inflight_bytes (s_stats s) + length body,
       st_tx_bytes := st_tx_bytes (s_stats s) + length body,
       st_tx_packets := st_tx_packets (s_stats s) + 1,
       st_inflight_packets := st_inflight_packets (s_stats s) + 1\<rparr>,
     s_outgoing := AList.update (s_seq s) (length (s_heap s)) (s_outgoing s),
     s_inflight := s_inflight s + (20 + length body),
     s_send_queue := s_send_queue s @ [Shared (length (s_heap s))],
     s_drive_waker := None,
     s_woken := s_woken s @ waker_list (s_drive_waker s)\<rparr>"

lemma create_data_packet:
  "\<not> local_closed (s_state s) \<Longrightarrow> create_packet s UDX_HEADER_DATA body = data_packet s body"
  by (simp add: create_packet_def create_header_def data_packet_def Let_def)

lemma send_data_packet_eq:
  assumes "\<not> local_closed (s_state s)"
  shows "send_data_packet buf s =
    (if s_inflight s + min (length buf) 1380 > s_cwnd s then Some (s, 0)
     else if s_seq s = u32_max then None
     else Some (pushed s (take 1380 buf), min (length buf) 1380))"
proof -
  have "take (min (length buf) 1380) buf = take 1380 buf"
    by (metis append_take_drop_id length_take take_all_iff min.cobounded2 take_take min.commute order_refl)
  then show ?thesis
    unfolding send_data_packet_def create_data_packet [OF assms] Let_def
    by (simp add: udx_constants u32_inc_def wake_eqs pushed_def data_packet_def)
qed

section \<open>What a write changes\<close>

definition write_rel :: "udx_stream \<Rightarrow> u8 list list \<Rightarrow> udx_stream \<Rightarrow> bool" where
  "write_rel s cs t \<longleftrightarrow> stream_inv t
     \<and> (\<forall>chunks. sent_inv chunks s \<longrightarrow> sent_inv (chunks @ cs) t)
     \<and> (\<forall>c \<in> set cs. c \<noteq> [] \<and> length c \<le> UDX_MAX_DATA_SIZE)
     \<and> unat (s_seq t) = unat (s_seq s) + length cs
     \<and> s_inflight t \<le> max (s_inflight s) (s_cwnd s + UDX_HEADER_SIZE)
     \<and> s_inflight t = s_inflight s + length (concat cs) + UDX_HEADER_SIZE * length cs
     \<and> s_cwnd t = s_cwnd s \<and> s_error t = s_error s
     \<and> s_incoming t = s_incoming s \<and> s_ack t = s_ack s \<and> s_read_cursor t = s_read_cursor s
     \<and> s_recv_rx t = s_recv_rx s \<and> s_remote_acked t = s_remote_acked s
     \<and> s_remote_id t = s_remote_id s \<and> s_local_id t = s_local_id s
     \<and> s_remote_addr t = s_remote_addr s \<and> s_max_gso_segments t = s_max_gso_segments s
     \<and> s_send_open t = s_send_open s \<and> s_recv_open t = s_recv_open s
     \<and> s_on_firewall t = s_on_firewall s \<and> s_send_tx t = s_send_tx s
     \<and> heap_le (s_heap s) (s_heap t)"

lemma write_relD:
  assumes "write_rel s cs t"
  shows "stream_inv t" "sent_inv chunks s \<Longrightarrow> sent_inv (chunks @ cs) t"
    "c \<in> set cs \<Longrightarrow> c \<noteq> []" "c \<in> set cs \<Longrightarrow> length c \<le> UDX_MAX_DATA_SIZE"
    "unat (s_seq t) = unat (s_seq s) + length cs"
    "s_inflight t \<le> max (s_inflight s) (s_cwnd s + UDX_HEADER_SIZE)"
    "s_inflight t = s_inflight s + length (concat cs) + UDX_HEADER_SIZE * length cs"
    "s_cwnd t = s_cwnd s" "s_error t = s_error s"
    "s_incoming t = s_incoming s" "s_ack t = s_ack s" "s_read_cursor t = s_read_cursor s"
    "s_recv_rx t = s_recv_rx s" "s_remote_acked t = s_remote_acked s"
    "s_remote_id t = s_remote_id s" "s_local_id t = s_local_id s"
    "s_remote_addr t = s_remote_addr s" "s_max_gso_segments t = s_max_gso_segments s"
    "s_send_open t = s_send_open s" "s_recv_open t = s_recv_open s"
    "s_on_firewall t = s_on_firewall s" "s_send_tx t = s_send_tx s"
    "heap_le (s_heap s) (s_heap t)"
  using assms by (simp_all add: write_rel_def)

lemma write_rel_refl: "stream_inv s \<Longrightarrow> write_rel s [] s"
  by (simp add: write_rel_def)

lemma write_rel_trans:
  assumes a: "write_rel s cs t" and b: "write_rel t ds u"
  shows "write_rel s (cs @ ds) u"
proof -
  note f = write_relD(5-) [OF a] and g = write_relD(5-) [OF b]
  have "sent_inv (chunks @ cs @ ds) u" if "sent_inv chunks s" for chunks
    using write_relD(2) [OF b write_relD(2) [OF a that]] by simp
  moreover have "s_inflight u \<le> max (s_inflight s) (s_cwnd s + UDX_HEADER_SIZE)"
    using f(2,4) g(2) by linarith
  moreover have "heap_le (s_heap s) (s_heap u)" using f(19) g(19) by (rule heap_le_trans)
  moreover have "s_inflight u
      = s_inflight s + length (concat (cs @ ds)) + UDX_HEADER_SIZE * length (cs @ ds)"
    using f(3) g(3) by (simp add: algebra_simps)
  ultimately show ?thesis
    unfolding write_rel_def
    using write_relD(1,3,4) [OF b] write_relD(3,4) [OF a] f(1,4-18) g(1,4-18) by auto
qed

lemma acct_pushed:
  assumes "acct s" "s_seq s \<noteq> u32_max"
  shows "acct (pushed s body)"
  using assms books_insert [OF acct_books [OF assms(1)] assms(2), of "data_packet s body"]
  by (simp add: acct_def pushed_def data_packet_def)

lemma genuine_data_packet:
  assumes "unat (s_seq s) = length chunks"
  shows "genuine (s_remote_id s) (s_ack s) (chunks @ [body]) (data_packet s body)"
  using assms by (auto simp: genuine_def data_packet_def)

lemma write_rel_pushed:
  assumes s: "stream_inv s" and e: "s_error s = None" and max: "s_seq s \<noteq> u32_max"
    and body: "body \<noteq> []" "length body \<le> 1380" "s_inflight s + length body \<le> s_cwnd s"
  shows "write_rel s [body] (pushed s body)"
proof -
  let ?t = "pushed s body"
  have "stream_inv ?t"
    using s acct_pushed [OF stream_invD(1) [OF s] max, of body] recv_inv_cong [of ?t s]
    by (simp add: stream_inv_def no_max_def pushed_def)
  moreover have "sent_inv (chunks @ [body]) ?t" if c: "sent_inv chunks s" for chunks
  proof -
    let ?Q = "genuine (s_remote_id s) (s_ack s)"
    have len: "unat (s_seq s) = length chunks" and old: "all_refs (?Q chunks) s"
      using c by (simp_all add: sent_inv_def)
    have "all_refs (?Q (chunks @ [body])) ?t"
    proof (rule all_refs_step [OF old])
      show "?Q (chunks @ [body]) q" if "?Q chunks p" "same_cell p q" for p q
        using that genuine_same_cell [of p q] genuine_mono by blast
    qed (use genuine_data_packet [OF len] in
        \<open>auto simp: pushed_def ref_ok_def update_conv' split: if_splits\<close>)
    then show ?thesis using len max by (simp add: sent_inv_def pushed_def unat_u32_inc)
  qed
  ultimately show ?thesis
    using body max by (simp add: write_rel_def pushed_def udx_constants unat_u32_inc)
qed

section \<open>Writing a buffer\<close>

text \<open>How many packets a buffer of \<open>n\<close> bytes takes.\<close>

definition packets_for :: "nat \<Rightarrow> nat" where
  "packets_for n = (n + 1379) div 1380"

lemma packets_for_step: "0 < n \<Longrightarrow> packets_for n = Suc (packets_for (n - min n 1380))"
proof (cases "n \<le> 1380")
  case False
  then have "n + 1379 = (n - 1380 + 1379) + 1380" by simp
  then show ?thesis using False unfolding packets_for_def by (simp only: div_add_self2)
next
  case True
  assume "0 < n"
  then obtain m where "n = Suc m" by (cases n) auto
  with True show ?thesis by (simp add: packets_for_def)
qed

definition write_result ::
  "env \<Rightarrow> u8 list \<Rightarrow> usize \<Rightarrow> udx_stream \<Rightarrow> u8 list list \<Rightarrow> udx_stream
     \<Rightarrow> (io_error + usize) poll \<Rightarrow> bool" where
  "write_result env buf written s cs t r \<longleftrightarrow> write_rel s cs t
     \<and> concat cs = take (length (concat cs)) (drop written buf)
     \<and> (let n = written + length (concat cs) in
          (n = 0 \<and> r = Pending \<and> s_write_waker t = Some (e_waker env)
           \<or> 0 < n \<and> r = Ready (Inr n))
          \<and> (n < length buf \<longrightarrow> s_inflight t + min (length buf - n) UDX_MAX_DATA_SIZE > s_cwnd t))"

lemma write_loop_total:
  "stream_inv s \<Longrightarrow> s_error s = None \<Longrightarrow> buf \<noteq> [] \<Longrightarrow> written \<le> length buf \<Longrightarrow>
   unat (s_seq s) + packets_for (length buf - written) \<le> 4294967295 \<Longrightarrow>
   \<exists>cs t r. write_loop env buf written s = Some (t, r) \<and> write_result env buf written s cs t r"
proof (induction "length buf - written" arbitrary: written s rule: less_induct)
  case less
  note s = less.prems(1) and e = less.prems(2)
  have closed: "\<not> local_closed (s_state s)" using stream_invD(5) [OF s] e by simp
  let ?rest = "drop written buf"
  show ?case
  proof (cases "written = length buf")
    case True
    then have "write_loop env buf written s = Some (s, Ready (Inr written))"
      by (subst write_loop.simps) simp
    then show ?thesis using True less.prems write_rel_refl [OF s]
      by (intro exI [of _ "[]"]) (auto simp: write_result_def)
  next
    case False
    with less.prems have lt: "written < length buf" by simp
    show ?thesis
    proof (cases "s_inflight s + min (length ?rest) 1380 > s_cwnd s")
      case True
      let ?t = "if written = 0 then s\<lparr>s_write_waker := Some (e_waker env)\<rparr> else s"
      have "write_loop env buf written s = Some (?t, if written = 0 then Pending else Ready (Inr written))"
        using lt True by (simp add: write_loop.simps [of env buf written s] send_data_packet_eq [OF closed])
      moreover have "write_rel s [] ?t"
        using s recv_inv_cong [of ?t s]
        by (auto simp: write_rel_def stream_inv_def acct_def no_max_def sent_inv_def all_refs_def)
      ultimately show ?thesis
        using True lt by (intro exI [of _ "[]"]) (auto simp: write_result_def udx_constants)
    next
      case False
      let ?body = "take 1380 ?rest" and ?n = "min (length ?rest) 1380"
      have n: "length ?body = ?n" "0 < ?n" using lt by auto
      have step: "packets_for (length buf - written) = Suc (packets_for (length buf - (written + ?n)))"
        using packets_for_step [of "length buf - written"] lt by (simp add: diff_diff_add)
      have max: "s_seq s \<noteq> u32_max" using less.prems(5) step by auto
      have push: "write_rel s [?body] (pushed s ?body)"
        using False n lt by (intro write_rel_pushed [OF s e max]) auto
      note f = write_relD [OF push]
      have "\<exists>cs t r. write_loop env buf (written + ?n) (pushed s ?body) = Some (t, r)
          \<and> write_result env buf (written + ?n) (pushed s ?body) cs t r"
      proof (intro less.hyps f(1))
        show "length buf - (written + ?n) < length buf - written"
          using lt n(2) by (intro diff_less_mono2) linarith+
      qed (use less.prems lt step in \<open>auto simp: f(5,9)\<close>)
      then obtain cs t r where t: "write_loop env buf (written + ?n) (pushed s ?body) = Some (t, r)"
        "write_result env buf (written + ?n) (pushed s ?body) cs t r" by blast
      have "write_loop env buf written s = Some (t, r)"
        using lt False max t(1)
        by (simp add: write_loop.simps [of env buf written s] send_data_packet_eq [OF closed])
          (auto simp: min_def)
      moreover have "write_result env buf written s (?body # cs) t r"
      proof -
        have cs: "concat cs = take (length (concat cs)) (drop ?n ?rest)"
          using t(2) unfolding write_result_def by (simp add: add.commute)
        have "concat (?body # cs) = take ?n ?rest @ take (length (concat cs)) (drop ?n ?rest)"
          using cs by (simp add: min_def)
        also have "\<dots> = take (?n + length (concat cs)) ?rest" by (simp only: take_add)
        finally have whole: "concat (?body # cs) = take (?n + length (concat cs)) ?rest" .
        have len: "length (concat (?body # cs)) = ?n + length (concat cs)" using n(1) by simp
        have "concat (?body # cs) = take (length (concat (?body # cs))) ?rest"
          unfolding len by (rule whole)
        moreover have "write_rel s (?body # cs) t"
          using write_rel_trans [OF push] t(2) unfolding write_result_def by fastforce
        moreover have "written + ?n + length (concat cs) = written + length (concat (?body # cs))"
          using n(1) by simp
        ultimately show ?thesis
          using t(2) unfolding write_result_def Let_def by metis
      qed
      ultimately show ?thesis by blast
    qed
  qed
qed

section \<open>Reading\<close>

text \<open>\<open>read_rel s q t\<close>: the bytes \<open>q\<close> moved from the front of \<open>avail\<close> to the reader.\<close>

definition read_rel :: "udx_stream \<Rightarrow> u8 list \<Rightarrow> udx_stream \<Rightarrow> bool" where
  "read_rel s q t \<longleftrightarrow> stream_inv t \<and> avail s = q @ avail t
     \<and> (\<forall>chunks. sent_inv chunks t = sent_inv chunks s)
     \<and> (\<forall>chunks r. rcvd_inv chunks r s \<longrightarrow> rcvd_inv chunks (r @ q) t)
     \<and> s_seq t = s_seq s \<and> s_ack t = s_ack s \<and> s_recv_rx t = s_recv_rx s
     \<and> s_remote_acked t = s_remote_acked s \<and> s_remote_id t = s_remote_id s
     \<and> s_local_id t = s_local_id s \<and> s_remote_addr t = s_remote_addr s
     \<and> s_max_gso_segments t = s_max_gso_segments s \<and> s_send_open t = s_send_open s
     \<and> s_recv_open t = s_recv_open s \<and> s_on_firewall t = s_on_firewall s
     \<and> s_send_tx t = s_send_tx s \<and> s_heap t = s_heap s \<and> s_error t = s_error s"

lemma read_resultD:
  assumes "read_result rb d s (t, rb', d')"
  shows "\<exists>inc cur. t = s\<lparr>s_incoming := inc, s_read_cursor := cur\<rparr>"
    "recv_inv t" "avail t = drop (rb_remaining rb) (avail s)"
    "rb' = rb\<lparr>rb_filled := rb_filled rb @ take (rb_remaining rb) (avail s)\<rparr>"
    "d' \<longleftrightarrow> d \<or> s_read_cursor s < s_read_cursor t"
    "map_of (s_incoming t) k = Some q \<Longrightarrow> \<exists>p. map_of (s_incoming s) k = Some p \<and> ip_buf q = ip_buf p"
  using assms unfolding read_result_def prod.case by blast+

lemma read_rel_cases:
  assumes s: "stream_inv s" and r: "read_result rb d s (t, rb', d')"
    and u: "u = t \<or> u = t\<lparr>s_read_waker := w\<rparr>"
  shows "read_rel s (take (rb_remaining rb) (avail s)) u"
proof -
  let ?q = "take (rb_remaining rb) (avail s)"
  obtain inc cur where t: "t = s\<lparr>s_incoming := inc, s_read_cursor := cur\<rparr>"
    using read_resultD(1) [OF r] by blast
  note facts = read_resultD(2,3) [OF r]
  have old: "\<exists>p. map_of (s_incoming s) k = Some p \<and> ip_buf q = ip_buf p"
    if "map_of inc k = Some q" for k q
    using read_resultD(6) [OF r, of k q] that by (simp add: t)
  have sel: "s_incoming u = inc" "s_ack u = s_ack s" "s_read_cursor u = cur"
    using u by (auto simp: t)
  have av: "avail u = avail t" "recv_inv u = recv_inv t"
    using u avail_cong [of u t] recv_inv_cong [of u t] by auto
  have nm: "map_of inc u32_max = None"
    using old [of u32_max] stream_invD(3) [OF s] by (cases "map_of inc u32_max") (auto simp: no_max_def)
  have "stream_inv u"
    using s u facts(1) av nm by (auto simp: stream_inv_def t acct_def no_max_def)
  moreover have "avail s = ?q @ avail u" by (simp add: av facts(2))
  moreover have "rcvd_inv chunks (r @ ?q) u" if "rcvd_inv chunks r s" for chunks r
    using that old unfolding rcvd_inv_def sel av facts(2) by fastforce
  moreover have "sent_inv chunks u = sent_inv chunks s" for chunks
    using u by (auto simp: t sent_inv_def all_refs_def)
  ultimately show ?thesis using u unfolding read_rel_def by (auto simp: t)
qed

lemma poll_read_total:
  assumes s: "stream_inv s"
  obtains t where "read_rel s (take (rb_remaining rb) (avail s)) t"
    "poll_read env rb s = Some (t, rb\<lparr>rb_filled := rb_filled rb @ take (rb_remaining rb) (avail s)\<rparr>,
       if s_read_cursor s < s_read_cursor t then Ready (Inr ())
       else case s_error s of Some e \<Rightarrow> Ready (Inl (io_error_from_udx e)) | None \<Rightarrow> Pending)"
    "s_read_cursor s < s_read_cursor t \<or> s_error s \<noteq> None \<or> s_read_waker t = Some (e_waker env)"
proof -
  let ?rb = "rb\<lparr>rb_filled := rb_filled rb @ take (rb_remaining rb) (avail s)\<rparr>"
  obtain t d where t: "read_next rb False s = Some (t, ?rb, d)" "read_result rb False s (t, ?rb, d)"
  proof -
    obtain t rb' d where r: "read_next rb False s = Some (t, rb', d)"
      "read_result rb False s (t, rb', d)"
      using read_next_queue [OF stream_invD(2) [OF s], of rb False] by auto
    show thesis using r unfolding read_resultD(4) [OF r(2)] by (rule that)
  qed
  have d: "d \<longleftrightarrow> s_read_cursor s < s_read_cursor t" using read_resultD(5) [OF t(2)] by simp
  have err: "s_error t = s_error s" using read_resultD(1) [OF t(2)] by auto
  define u where "u = (if d \<or> s_error s \<noteq> None then t else t\<lparr>s_read_waker := Some (e_waker env)\<rparr>)"
  have cur: "s_read_cursor u = s_read_cursor t" by (simp add: u_def)
  have "read_rel s (take (rb_remaining rb) (avail s)) u"
    by (rule read_rel_cases [OF s t(2), where w = "Some (e_waker env)"]) (simp add: u_def)
  moreover have "poll_read env rb s = Some (u, ?rb, if s_read_cursor s < s_read_cursor u then Ready (Inr ())
       else case s_error s of Some e \<Rightarrow> Ready (Inl (io_error_from_udx e)) | None \<Rightarrow> Pending)"
    unfolding poll_read_def t(1) cur by (cases "s_error s") (auto simp: err u_def d)
  moreover have "s_read_cursor s < s_read_cursor u \<or> s_error s \<noteq> None
      \<or> s_read_waker u = Some (e_waker env)"
    unfolding cur by (simp add: u_def d)
  ultimately show thesis by (rule that)
qed

text \<open>A write of one packet on a stream that has nothing in flight.\<close>

lemma poll_write_one:
  assumes "stream_inv s" "s_error s = None" "s_outgoing s = []" "buf \<noteq> []" "length buf \<le> 1380"
    and "s_seq s \<noteq> u32_max"
  shows "poll_write env buf s = Some (pushed s buf, Ready (Inr (length buf)))"
proof -
  have "s_inflight s = 0" "UDX_MTU \<le> s_cwnd s" "\<not> local_closed (s_state s)"
    using stream_invD(1,5) [OF assms(1)] assms(2,3) by (auto simp: acct_def books_def)
  then have "send_data_packet buf s = Some (pushed s buf, length buf)"
    using assms(5,6) by (simp add: send_data_packet_eq UDX_MTU_def)
  then show ?thesis
    using assms(2,4)
    by (simp add: poll_write_def write_loop.simps [of env buf 0] write_loop.simps [of env buf "length buf"])
qed

end
