(* ===== verification/Udx_Stream_Timers.thy ===== *)
theory Udx_Stream_Timers
  imports Udx_Stream_Write
begin

text \<open>
  Loss recovery of a stream: what a retransmission timeout does to the packets in flight,
  the bound on retransmissions, the round trip estimator, and selective acknowledgements
  against a reference decoding of their ranges.
\<close>

section \<open>Retransmission timeouts\<close>

lemma nth_update_waiting:
  "p_waiting (h ! a) \<Longrightarrow> p_waiting p \<Longrightarrow> p_waiting (h[b := p] ! a)"
  by (cases "a = b \<and> b < length h") (auto simp: nth_list_update list_update_beyond)

lemma mark_lost_keeps_waiting:
  "mark_lost is s = Some (t, r) \<Longrightarrow> p_waiting (s_heap s ! a) \<Longrightarrow> p_waiting (s_heap t ! a)"
proof (induction "is" arbitrary: s)
  case (Cons i "is")
  show ?case
  proof (cases "map_of (s_outgoing s) i")
    case None
    with Cons show ?thesis by simp
  next
    case (Some b)
    with Cons show ?thesis
      by (auto simp: Let_def bind_eq_Some_conv nth_update_waiting split: if_splits)
  qed
qed simp

text \<open>A timeout that does not give up leaves every packet of the range waiting.\<close>

lemma mark_lost_waiting:
  "acct s \<Longrightarrow> mark_lost is s = Some (t, Inr ()) \<Longrightarrow> i \<in> set is \<Longrightarrow> map_of (s_outgoing s) i = Some a
     \<Longrightarrow> p_waiting (s_heap t ! a)"
proof (induction "is" arbitrary: s)
  case (Cons j "is")
  show ?case
  proof (cases "map_of (s_outgoing s) j")
    case None
    with Cons show ?thesis by auto
  next
    case (Some b)
    let ?p = "s_heap s ! b"
    let ?p' = "?p\<lparr>p_transmits := p_transmits ?p + 1, p_waiting := True\<rparr>"
    let ?s = "s\<lparr>s_heap := (s_heap s)[b := ?p'], s_inflight := s_inflight s - packet_len ?p\<rparr>"
    show ?thesis
    proof (cases "p_waiting ?p")
      case True
      with Cons Some have "mark_lost is s = Some (t, Inr ())" by (simp add: Let_def)
      with Cons Some True mark_lost_keeps_waiting [OF this] show ?thesis by auto
    next
      case False
      note bk = acct_books [OF Cons.prems(1)]
      have le: "packet_len ?p \<le> s_inflight s"
        using books_ge(1) [OF bk Some] False by (simp add: flight_def)
      have step: "mark_lost is ?s = Some (t, Inr ())"
        using Cons.prems(2) Some False le by (simp add: Let_def usize_sub_def split: if_splits)
      have cell: "same_cell ?p ?p'" by (simp add: same_cell_def)
      have "acct ?s"
        using Cons.prems(1) le False
          books_cell_waiting [OF bk Some cell, of "s_inflight s - packet_len ?p"]
        by (simp add: acct_def flight_def)
      moreover have "p_waiting (s_heap ?s ! b)" using booksD(2) [OF bk Some] by simp
      ultimately show ?thesis
        using Cons.IH [OF _ step] Cons.prems(3,4) Some mark_lost_keeps_waiting [OF step]
        by (cases "i = j") auto
    qed
  qed
qed simp

lemma mark_lost_timer: "mark_lost is s = Some (t, r) \<Longrightarrow> s_rto_timeout t = s_rto_timeout s"
proof (induction "is" arbitrary: s)
  case (Cons i "is")
  show ?case
  proof (cases "map_of (s_outgoing s) i")
    case None
    with Cons show ?thesis by simp
  next
    case (Some b)
    show ?thesis
      using Cons.prems Some
      by (auto simp: Let_def bind_eq_Some_conv split: if_splits dest!: Cons.IH)
  qed
qed simp

lemma wsum_zero: "(\<And>k v. map_of m k = Some v \<Longrightarrow> w v = 0) \<Longrightarrow> uniq_keys m \<Longrightarrow> wsum w m = 0"
  using wsum_cong [of m w "\<lambda>_. 0"] by (simp add: wsum_def)

text \<open>\<open>may_retransmit\<close>: no packet of the range has used up its retransmissions.\<close>

definition may_retransmit :: "u32 list \<Rightarrow> udx_stream \<Rightarrow> bool" where
  "may_retransmit is s \<longleftrightarrow> (\<forall>i a. i \<in> set is \<longrightarrow> map_of (s_outgoing s) i = Some a \<longrightarrow>
     p_transmits (s_heap s ! a) \<le> unat UDX_MAX_TRANSMITS)"

lemma mark_lost_ok:
  "acct s \<Longrightarrow> distinct is \<Longrightarrow> may_retransmit is s \<Longrightarrow> \<exists>t. mark_lost is s = Some (t, Inr ())"
proof (induction "is" arbitrary: s)
  case (Cons j "is")
  have rest: "may_retransmit is s" using Cons.prems(3) by (simp add: may_retransmit_def)
  show ?case
  proof (cases "map_of (s_outgoing s) j")
    case None
    with Cons rest show ?thesis by simp
  next
    case (Some b)
    let ?p = "s_heap s ! b"
    let ?p' = "?p\<lparr>p_transmits := p_transmits ?p + 1, p_waiting := True\<rparr>"
    let ?s = "s\<lparr>s_heap := (s_heap s)[b := ?p'], s_inflight := s_inflight s - packet_len ?p\<rparr>"
    note bk = acct_books [OF Cons.prems(1)]
    show ?thesis
    proof (cases "p_waiting ?p")
      case True
      with Cons Some rest show ?thesis by (simp add: Let_def)
    next
      case False
      have le: "packet_len ?p \<le> s_inflight s"
        using books_ge(1) [OF bk Some] False by (simp add: flight_def)
      have few: "\<not> p_transmits ?p > unat UDX_MAX_TRANSMITS"
        using Cons.prems(3) Some unfolding may_retransmit_def by (meson leD list.set_intros(1))
      have cell: "same_cell ?p ?p'" by (simp add: same_cell_def)
      have "acct ?s"
        using Cons.prems(1) le False
          books_cell_waiting [OF bk Some cell, of "s_inflight s - packet_len ?p"]
        by (simp add: acct_def flight_def)
      moreover have "may_retransmit is ?s"
        unfolding may_retransmit_def
      proof (intro allI impI)
        fix i a
        assume i: "i \<in> set is" "map_of (s_outgoing ?s) i = Some a"
        then have "a \<noteq> b" using Cons.prems(2) books_inj [OF bk Some, of i] by auto
        then show "p_transmits (s_heap ?s ! a) \<le> unat UDX_MAX_TRANSMITS"
          using rest i by (simp add: may_retransmit_def)
      qed
      ultimately show ?thesis
        using Cons.IH [of ?s] Cons.prems(2) Some False le few
        by (simp add: Let_def usize_sub_def)
    qed
  qed
qed simp

lemma flush_loop_prefix: "\<exists>xs. s_send_queue (flush_loop is s) = s_send_queue s @ xs"
proof (induction "is" arbitrary: s)
  case (Cons i "is")
  show ?case
  proof (cases "map_of (s_outgoing s) i")
    case None
    with Cons show ?thesis by simp
  next
    case (Some a)
    let ?s = "s\<lparr>s_heap := (s_heap s)[a := (s_heap s ! a)\<lparr>p_waiting := False\<rparr>],
      s_inflight := s_inflight s + packet_len (s_heap s ! a),
      s_send_queue := s_send_queue s @ [Shared a]\<rparr>"
    from Cons [of s] Cons [of ?s] Some show ?thesis by (auto simp: Let_def)
  qed
qed simp

lemma flush_loop_inflight:
  "s_inflight (flush_loop is s) \<le> max (s_inflight s) (s_cwnd s) \<and> s_cwnd (flush_loop is s) = s_cwnd s"
proof (induction "is" arbitrary: s)
  case (Cons i "is")
  show ?case
  proof (cases "map_of (s_outgoing s) i")
    case None
    with Cons show ?thesis by simp
  next
    case (Some a)
    let ?s = "s\<lparr>s_heap := (s_heap s)[a := (s_heap s ! a)\<lparr>p_waiting := False\<rparr>],
      s_inflight := s_inflight s + packet_len (s_heap s ! a),
      s_send_queue := s_send_queue s @ [Shared a]\<rparr>"
    from Cons [of s] Cons [of ?s] Some show ?thesis by (auto simp: Let_def)
  qed
qed simp

lemma timeout_step:
  assumes s: "acct s" and ready: "e_sleep_ready env (s_rto_timeout s)"
    and oldest: "map_of (s_outgoing s) (s_remote_acked s) = Some a"
    and keys: "\<forall>k b. map_of (s_outgoing s) k = Some b \<longrightarrow> s_remote_acked s \<le> k"
    and few: "may_retransmit (u32_range (s_remote_acked s) (s_seq s)) s"
  obtains t where "poll_check_timeouts env s = Some (t, Inr ())" "acct t"
    "s_inflight t = 0" "s_cwnd t = max UDX_MTU (s_cwnd s div 2)"
    "s_rto_timeout t = e_now env + 2 * s_rto s"
    "\<forall>k b. map_of (s_outgoing s) k = Some b \<longrightarrow> p_waiting (s_heap t ! b)" "tx_frame s t"
    "s_outgoing t = s_outgoing s" "s_remote_acked t = s_remote_acked s"
    "s_send_queue t = s_send_queue s"
proof -
  let ?is = "u32_range (s_remote_acked s) (s_seq s)"
  let ?s = "s\<lparr>s_rto_timeout := e_now env + 2 * s_rto s, s_cwnd := max UDX_MTU (s_cwnd s div 2)\<rparr>"
  note bk = acct_books [OF s]
  have lt: "s_remote_acked s < s_seq s" using booksD(4) [OF bk oldest] .
  have acct': "acct ?s" using s by (simp add: acct_def)
  have "may_retransmit ?is ?s" using few by (simp add: may_retransmit_def)
  then obtain t where t: "mark_lost ?is ?s = Some (t, Inr ())"
    using mark_lost_ok [OF acct' distinct_u32_range] by blast
  from mark_lost_total [OF acct', of ?is] t have f: "acct t" "tx_frame ?s t"
    "s_outgoing t = s_outgoing s" "s_remote_acked t = s_remote_acked s"
    "s_send_queue t = s_send_queue s" "s_cwnd t = s_cwnd ?s" by auto
  have w: "p_waiting (s_heap t ! b)" if "map_of (s_outgoing s) k = Some b" for k b
    using mark_lost_waiting [OF acct' t, of k b] that keys [rule_format, OF that] booksD(4) [OF bk that] by simp
  have "s_inflight t = wsum (flight (s_heap t)) (s_outgoing s)"
    using booksD(5) [OF acct_books [OF f(1)]] f(3) by simp
  also have "\<dots> = 0"
    using w booksD(1) [OF bk] by (intro wsum_zero) (simp_all add: flight_def)
  finally have "s_inflight t = 0" .
  moreover have "s_rto_timeout t = e_now env + 2 * s_rto s"
    using t by (rule mark_lost_timer [THEN trans]) simp
  moreover have "poll_check_timeouts env s = Some (t, Inr ())"
    using ready lt t by (simp add: poll_check_timeouts_def Let_def)
  moreover have "tx_frame s t"
    using f(2) by (rule tx_frame_trans [rotated]) (simp add: tx_frame_def erase_tx_def)
  ultimately show thesis using f w by (intro that [of t]) simp_all
qed

text \<open>The packets of a heap and how often they may be sent again.\<close>

definition transmits_ok :: "heap \<Rightarrow> bool" where
  "transmits_ok h \<longleftrightarrow> (\<forall>p \<in> set h. p_transmits p \<le> unat UDX_MAX_TRANSMITS + 1)"

lemma mark_lost_transmits:
  "mark_lost is s = Some (t, r) \<Longrightarrow> transmits_ok (s_heap s) \<Longrightarrow> transmits_ok (s_heap t)
     \<and> (\<forall>e. r = Inl e \<longrightarrow> io_kind e = TimedOut
          \<and> (\<exists>i \<in> set is. \<exists>a. map_of (s_outgoing t) i = Some a
                \<and> p_transmits (s_heap t ! a) > unat UDX_MAX_TRANSMITS))"
proof (induction "is" arbitrary: s)
  case (Cons i "is")
  show ?case
  proof (cases "map_of (s_outgoing s) i")
    case None
    with Cons show ?thesis by fastforce
  next
    case (Some b)
    let ?p = "s_heap s ! b"
    let ?p' = "?p\<lparr>p_transmits := p_transmits ?p + 1, p_waiting := True\<rparr>"
    let ?s = "s\<lparr>s_heap := (s_heap s)[b := ?p'], s_inflight := s_inflight s - packet_len ?p\<rparr>"
    show ?thesis
    proof (cases "p_waiting ?p \<or> p_transmits ?p > unat UDX_MAX_TRANSMITS")
      case True
      with Cons Some show ?thesis
        by (cases "p_waiting ?p") (fastforce simp: Let_def io_error_new_def)+
    next
      case False
      with Cons.prems(1) Some have step: "mark_lost is ?s = Some (t, r)"
        by (auto simp: Let_def bind_eq_Some_conv usize_sub_def split: if_splits)
      have "transmits_ok (s_heap ?s)"
        using Cons.prems(2) False set_update_subset_insert [of "s_heap s" b ?p']
        by (auto simp: transmits_ok_def)
      from Cons.IH [OF step this] show ?thesis by auto
    qed
  qed
qed auto

section \<open>The round trip estimator\<close>

lemma rtt_sample_rto:
  "rtt_sample rtt (srtt, v, rto) = (srtt', v', rto')
     \<Longrightarrow> rto' = max (from_millis 1000) (srtt' + max UDX_CLOCK_GRANULARITY_MS (4 * v'))"
  by (auto simp: rtt_sample_def Let_def split: if_splits)

lemma rtt_sample_next:
  assumes "srtt \<noteq> 0" "rtt_sample rtt (srtt, v, rto) = (srtt', v', rto')"
  shows "srtt' = (7 * srtt + rtt) div 8" "v' = (3 * v + (max srtt rtt - min srtt rtt)) div 4"
  using assms by (auto simp: rtt_sample_def Let_def max_def min_def split: if_splits)

lemma weighted_mean:
  "min a b \<le> (7 * a + b) div (8 :: nat)" "(7 * a + b) div 8 \<le> max a b"
  by (auto simp: min_def max_def)

section \<open>Selective acknowledgements\<close>

text \<open>The reference decoding of a SACK payload: pairs of little-endian numbers, eight bytes
  each, a shorter rest is ignored.\<close>

function sack_ranges :: "u8 list \<Rightarrow> (u32 \<times> u32) list" where
  "sack_ranges buf =
     (if length buf < 8 then []
      else (the (read_u32_le (take 4 buf)), the (read_u32_le (take 4 (drop 4 buf))))
             # sack_ranges (drop 8 buf))"
  by pat_completeness auto
termination
  by (relation "measure length") auto

declare sack_ranges.simps [simp del]

fun ack_ranges :: "env \<Rightarrow> (u32 \<times> u32) list \<Rightarrow> udx_stream \<Rightarrow> udx_stream option" where
  "ack_ranges env [] s = Some s"
| "ack_ranges env ((a, b) # rs) s = do {
     s \<leftarrow> sack_range env (u32_range a b) s;
     ack_ranges env rs s
   }"

definition read_ranges :: "u8 list \<Rightarrow> (u32 \<times> u32) list" where
  "read_ranges buf = (if 8 dvd length buf then butlast (sack_ranges buf) else sack_ranges buf)"

lemma sack_ranges_short: "length buf < 8 \<Longrightarrow> sack_ranges buf = []"
  by (simp add: sack_ranges.simps [of buf])

lemma read_ranges_short: "length buf \<le> 8 \<Longrightarrow> read_ranges buf = []"
  by (cases "length buf = 8")
    (auto simp: read_ranges_def sack_ranges_short sack_ranges.simps [of buf])

lemma read_ranges_long:
  assumes "8 < length buf"
  shows "read_ranges buf = (the (read_u32_le (take 4 buf)), the (read_u32_le (take 4 (drop 4 buf))))
     # read_ranges (drop 8 buf)"
proof -
  have dvd: "8 dvd length buf \<longleftrightarrow> 8 dvd length (drop 8 buf)"
    using assms by (simp add: dvd_minus_self)
  have "sack_ranges (drop 8 buf) \<noteq> []" if "8 dvd length buf"
  proof -
    have "0 < length buf - 8" using assms by simp
    then have "8 \<le> length (drop 8 buf)"
      using that assms unfolding dvd by (intro dvd_imp_le) auto
    then show ?thesis by (simp add: sack_ranges.simps [of "drop 8 buf"])
  qed
  then show ?thesis
    using assms dvd by (auto simp: read_ranges_def sack_ranges.simps [of buf])
qed

lemma sack_loop_ranges: "sack_loop env buf i s = ack_ranges env (read_ranges (drop i buf)) s"
proof (induction "length buf - i" arbitrary: i s rule: less_induct)
  case less
  show ?case
  proof (cases "i + 8 < length buf")
    case False
    then show ?thesis by (simp add: sack_loop.simps [of env buf i s] read_ranges_short)
  next
    case True
    obtain x y where x: "read_u32_le (take 4 (drop i buf)) = Some x"
      and y: "read_u32_le (take 4 (drop (i + 4) buf)) = Some y"
      using True read_u32_le_total [of "take 4 (drop i buf)"]
        read_u32_le_total [of "take 4 (drop (i + 4) buf)"] by auto
    have "sack_loop env buf i s = do {
        s \<leftarrow> sack_range env (u32_range x y) s;
        sack_loop env buf (i + 8) s
      }"
      using True x y by (simp add: sack_loop.simps [of env buf i s] slice_def Let_def add.assoc)
    moreover have "sack_loop env buf (i + 8) u = ack_ranges env (read_ranges (drop (i + 8) buf)) u" for u
      using True by (intro less.hyps) simp
    moreover have "read_ranges (drop i buf) = (x, y) # read_ranges (drop (i + 8) buf)"
      using True x y read_ranges_long [of "drop i buf"] by (simp add: add.commute)
    ultimately show ?thesis by simp
  qed
qed

end
