(* ===== verification/Udx_Stream_Props.thy ===== *)
theory Udx_Stream_Props
  imports Udx_Stream_Timers
begin

text \<open>
  The properties of one stream. \<open>stream_step\<close> is the stream as its environment can drive it:
  arbitrary packets arrive, the driver task is polled, the application reads, writes, closes
  and drops, the socket stamps packets and changes the segmentation limit.
\<close>

section \<open>A stream under an arbitrary environment\<close>

inductive stream_step :: "udx_stream \<Rightarrow> udx_stream \<Rightarrow> bool" where
  do_deliver: "fresh_packet p \<Longrightarrow> stream_step s (s\<lparr>s_recv_rx := s_recv_rx s @ [EventPacket p]\<rparr>)"
| do_hang_up: "stream_step s (s\<lparr>s_recv_open := False\<rparr>)"
| do_limit: "stream_step s (s\<lparr>s_max_gso_segments := n\<rparr>)"
| do_stamp: "stream_step s (s\<lparr>s_heap := (s_heap s)[a := (s_heap s ! a)\<lparr>p_time_sent := Some now\<rparr>]\<rparr>)"
| do_drive: "stream_driver_poll env s = Some (t, r) \<Longrightarrow> stream_step s t"
| do_read: "poll_read env rb s = Some (t, rb', w) \<Longrightarrow> stream_step s t"
| do_write: "unat (s_seq s) + packets_for (length buf) \<le> 4294967295 \<Longrightarrow>
    poll_write env buf s = Some (t, w) \<Longrightarrow> stream_step s t"
| do_close: "stream_step s (stream_close tx s)"
| do_drop_handle: "stream_step s (stream_drop n s)"

definition connected :: "udx_stream \<Rightarrow> bool" where
  "connected s \<longleftrightarrow> (\<exists>now h gso dest rid lid. s = stream_connect now h gso dest rid lid)"

definition alive :: "udx_stream \<Rightarrow> bool" where
  "alive s \<longleftrightarrow> stream_inv s \<and> s_send_open s"

lemma stream_connect_open [simp]: "s_send_open (stream_connect now h gso dest rid lid)"
  by (simp add: stream_connect_def Let_def)

lemma poll_write_total:
  assumes s: "stream_inv s" and room: "unat (s_seq s) + packets_for (length buf) \<le> 4294967295"
  shows "\<exists>t r. poll_write env buf s = Some (t, r)
     \<and> (if s_error s \<noteq> None then t = s \<and> r = Ready (Inl (io_error_from_udx (the (s_error s))))
        else if buf = [] then t = s \<and> r = Ready (Inr 0)
        else \<exists>cs. write_result env buf 0 s cs t r)"
proof (cases "s_error s = None \<and> buf \<noteq> []")
  case True
  then show ?thesis
    using write_loop_total [OF s, of buf 0 env] room by (auto simp: poll_write_def)
next
  case False
  then show ?thesis by (cases "s_error s") (auto simp: poll_write_def)
qed

lemma alive_write:
  assumes s: "alive s" and room: "unat (s_seq s) + packets_for (length buf) \<le> 4294967295"
    and w: "poll_write env buf s = Some (t, r)"
  shows "alive t"
proof -
  have "t = s \<or> (\<exists>cs. write_rel s cs t)"
    using poll_write_total [OF _ room, of env] s w
    by (auto simp: alive_def write_result_def split: if_splits)
  with s show ?thesis
    using write_relD(1,19) by (auto simp: alive_def)
qed

lemma alive_live: "alive s \<Longrightarrow> live_rel s t \<Longrightarrow> alive t"
  using live_relD(1,2) [of s t] in_relD(8) [of s t] by (simp add: alive_def)

lemma acct_stamp:
  "acct s \<Longrightarrow> acct (s\<lparr>s_heap := (s_heap s)[a := (s_heap s ! a)\<lparr>p_time_sent := n\<rparr>]\<rparr>)"
  using books_cell [of "s_heap s" _ _ _ _ _ a "(s_heap s ! a)\<lparr>p_time_sent := n\<rparr>"]
  by (simp add: acct_def same_cell_def)

lemma alive_step:
  assumes s: "alive s" and st: "stream_step s t"
  shows "alive t"
proof -
  have inv: "stream_inv s" "s_send_open s" using s by (simp_all add: alive_def)
  note cong = recv_inv_cong [of t s]
  from st show ?thesis
  proof cases
    case (do_deliver p)
    then show ?thesis using inv cong by (auto simp: alive_def stream_inv_def acct_def no_max_def)
  next
    case do_hang_up
    then show ?thesis using inv cong by (auto simp: alive_def stream_inv_def acct_def no_max_def)
  next
    case (do_limit n)
    then show ?thesis using inv cong by (auto simp: alive_def stream_inv_def acct_def no_max_def)
  next
    case (do_stamp a now)
    then show ?thesis
      using inv cong acct_stamp [of s a "Some now"] by (auto simp: alive_def stream_inv_def no_max_def)
  next
    case (do_drive env r)
    obtain u q where "stream_driver_poll env s = Some (u, q)" "live_rel s u"
      using driver_total [OF inv, of env] by metis
    with do_drive show ?thesis using alive_live [OF s] by simp
  next
    case (do_read env rb rb' r)
    obtain u x where "poll_read env rb s = Some (u, x)" "read_rel s (take (rb_remaining rb) (avail s)) u"
      using poll_read_total [OF inv(1), of rb env] by metis
    with do_read inv show ?thesis by (auto simp: alive_def read_rel_def)
  next
    case (do_write buf env r)
    then show ?thesis using alive_write [OF s] by blast
  next
    case (do_close tx)
    then show ?thesis using alive_live [OF s live_rel_close [OF inv(1)]] by simp
  next
    case (do_drop_handle n)
    then show ?thesis using alive_live [OF s live_rel_drop [OF inv(1)]] by simp
  qed
qed

interpretation one_stream: machine connected stream_step alive
proof unfold_locales
  show "alive s" if "connected s" for s
    using that by (auto simp: connected_def alive_def stream_connect_inv)
qed (rule alive_step)

section \<open>Example values\<close>

definition ex_addr :: socket_addr where
  "ex_addr = SocketAddrV4 2130706433 9000"

definition ex_env :: env where
  "ex_env = \<lparr>e_now = 5, e_elapsed = (\<lambda>t. 5 - t), e_sleep_ready = (\<lambda>t. t \<le> 5),
     e_recv_budget = 4, e_waker = 1\<rparr>"

definition ex_stream :: udx_stream where
  "ex_stream = stream_connect 0 [] 4 ex_addr 2 1"

text \<open>A packet that no well-behaved peer sends: every flag set, an acknowledgement far beyond
  anything sent, and two ranges that overlap it.\<close>

definition ex_forged :: incoming_packet where
  "ex_forged = \<lparr>ip_header = \<lparr>hdr_typ = 7, hdr_data_offset = 0, hdr_stream_id = 1,
       hdr_recv_win = 0, hdr_seq = 0, hdr_ack = 4000000000\<rparr>,
     ip_buf = replicate 17 255, ip_read_offset = 0, ip_from = ex_addr\<rparr>"

lemma ex_stream_inv: "stream_inv ex_stream" "alive ex_stream" "connected ex_stream"
  unfolding alive_def connected_def ex_stream_def
  by (simp_all add: stream_connect_inv) blast

lemma ex_reach: "reach connected stream_step ex_stream"
  by (rule reach_init) (rule ex_stream_inv)

lemma ex_fields [simp]:
  "s_send_open ex_stream" "s_recv_open ex_stream" "s_error ex_stream = None" "s_recv_rx ex_stream = []"
  "s_seq ex_stream = 0" "s_outgoing ex_stream = []" "s_send_queue ex_stream = []"
  "s_incoming ex_stream = []" "s_read_cursor ex_stream = 0" "s_ack ex_stream = 0"
  "s_heap ex_stream = []" "s_max_gso_segments ex_stream = 4" "s_remote_acked ex_stream = 0"
  "s_inflight ex_stream = 0" "s_cwnd ex_stream = 2800" "s_state ex_stream = Open"
  by (simp_all add: ex_stream_def stream_connect_def udx_constants Let_def)

lemma ex_forged_fresh: "fresh_packet ex_forged"
  by (simp add: fresh_packet_def ex_forged_def u32_max_def)

section \<open>Safety\<close>



text \<open>C8: The books balance. In every reachable state \<open>inflight\<close> is the sum of the lengths of
  the packets that were sent and are neither acknowledged nor waiting to be sent again, the
  statistics count the payload bytes and packets that are not acknowledged, the congestion
  window is at least one packet, and every packet not acknowledged has a sequence number
  below the next one.\<close>

theorem stream_books_balance:
  assumes "reach connected stream_step s"
  shows "s_inflight s = (\<Sum>(k, a) \<leftarrow> s_outgoing s.
           if p_waiting (s_heap s ! a) then 0 else packet_len (s_heap s ! a))
     \<and> st_inflight_bytes (s_stats s) = (\<Sum>(k, a) \<leftarrow> s_outgoing s. packet_data_len (s_heap s ! a))
     \<and> st_inflight_packets (s_stats s) = length (s_outgoing s)
     \<and> UDX_MTU \<le> s_cwnd s
     \<and> (\<forall>k a. map_of (s_outgoing s) k = Some a \<longrightarrow> packet_seq (s_heap s ! a) = k \<and> k < s_seq s)"
proof -
  have a: "acct s"
    using one_stream.reach_inv [OF assms] by (simp add: alive_def stream_inv_def)
  note b = booksD [OF acct_books [OF a]]
  have "(\<Sum>(k, a) \<leftarrow> s_outgoing s. f a) = wsum f (s_outgoing s)" for f :: "arc \<Rightarrow> nat"
    by (auto simp: wsum_def intro!: arg_cong [where f = sum_list])
  moreover have "wsum (\<lambda>_. 1) m = length m" for m :: "(u32 \<times> arc) list"
    by (induction m) auto
  ultimately show ?thesis
    using a b by (auto simp: acct_def flight_def [abs_def] payload_def [abs_def])
qed

theorem stream_books_balance_witness:
  "reach connected stream_step ex_stream
   \<and> st_inflight_packets (s_stats ex_stream) = length (s_outgoing ex_stream)
   \<and> UDX_MTU \<le> s_cwnd ex_stream"
  using stream_books_balance [OF ex_reach] ex_reach by blast

section \<open>Receiving and reading\<close>

definition ex_data :: "u32 \<Rightarrow> u8 list \<Rightarrow> incoming_packet" where
  "ex_data seq body = \<lparr>ip_header = \<lparr>hdr_typ = UDX_HEADER_DATA, hdr_data_offset = 0, hdr_stream_id = 1,
       hdr_recv_win = u32_max, hdr_seq = seq, hdr_ack = 0\<rparr>,
     ip_buf = body, ip_read_offset = 0, ip_from = ex_addr\<rparr>"

text \<open>A stream that has received \<open>[1, 2, 3]\<close> in order and \<open>[7]\<close> with a gap before it.\<close>

definition ex_rcvd :: udx_stream where
  "ex_rcvd = ex_stream\<lparr>s_incoming := [(0, ex_data 0 [1, 2, 3]), (2, ex_data 2 [7])], s_ack := 1\<rparr>"

lemma u32_cases_1: "(k :: u32) < 1 \<longleftrightarrow> k = 0"
  by (simp add: word_less_nat_alt word_unat_eq_iff)

lemma ex_rcvd_inv: "stream_inv ex_rcvd"
  using ex_stream_inv(1)
  by (auto simp: stream_inv_def acct_def recv_inv_def no_max_def ex_rcvd_def ex_data_def u32_max_def
      u32_cases_1 split: if_splits)

lemma ex_rcvd_avail: "avail ex_rcvd = [1, 2, 3]"
  by (simp add: avail_def ex_rcvd_def u32_range_def unread_def ex_data_def)

text \<open>C10: Receiving a data packet. It never panics and keeps the reassembly invariant. The bytes
  that can be read grow exactly by the packets that are now in sequence, each once and in the
  order of their numbers; a packet whose number was acknowledged before changes neither the
  buffer nor what can be read. In every case an acknowledgement of everything received in
  sequence is queued.\<close>

theorem receive_data_correct:
  assumes "stream_inv s" "fresh_packet p"
  shows "\<exists>t. receive_data p s = Some t \<and> recv_inv t \<and> s_ack s \<le> s_ack t
     \<and> avail t = avail s @ concat (map (buf_at (s_incoming t)) (u32_range (s_ack s) (s_ack t)))
     \<and> map_of (s_incoming t) (s_ack t) = None
     \<and> (incoming_seq p < s_ack s \<longrightarrow> s_incoming t = s_incoming s \<and> s_ack t = s_ack s)
     \<and> (s_ack s \<le> incoming_seq p \<longrightarrow> map_of (s_incoming t) (incoming_seq p) = Some p)
     \<and> (\<exists>q. s_send_queue t = s_send_queue s @ [Owned q] \<and> hdr_ack (p_header q) = s_ack t)"
proof -
  note i = stream_invD [OF assms(1)]
  obtain n where n: "receive_data p s = Some (data_received p n s)"
    "recv_inv (data_received p n s)" "no_max (data_received p n s)" "s_ack s \<le> n"
    "map_of (stored p s) n = None"
    "avail (data_received p n s)
      = avail s @ concat (map (buf_at (stored p s)) (u32_range (s_ack s) n))"
    by (rule receive_data_total [OF i(2,3) assms(2)])
  have "n = s_ack s" if "incoming_seq p < s_ack s"
  proof (rule ccontr)
    assume "n \<noteq> s_ack s"
    with n(4) recv_invD(3) [OF n(2), of "s_ack s"] recv_invD(2) [OF i(2)] that
    have "map_of (s_incoming s) (s_ack s) \<noteq> None"
      by (simp add: data_received_def stored_def not_le [symmetric])
    then show False using recv_invD(5) [OF i(2), of "s_ack s"] by auto
  qed
  then show ?thesis
    using n by (auto simp: data_received_def stored_def update_conv' create_packet_def create_header_def Let_def)
qed

theorem receive_data_correct_witness:
  "\<exists>t. receive_data (ex_data 1 [4, 5, 6]) ex_rcvd = Some t \<and> recv_inv t \<and> s_ack ex_rcvd \<le> s_ack t
     \<and> map_of (s_incoming t) 1 = Some (ex_data 1 [4, 5, 6])"
  using receive_data_correct [OF ex_rcvd_inv, of "ex_data 1 [4, 5, 6]"]
  by (auto simp: fresh_packet_def ex_data_def u32_max_def ex_rcvd_def)

text \<open>C11: Reading implements a byte queue. A read never panics; it moves the longest prefix of
  the readable bytes that fits from the stream into the buffer, and nothing else of the
  readable bytes changes. It reports success when a packet was used up, otherwise the error of
  a closed stream, otherwise \<open>Pending\<close> with the reader's waker stored.\<close>

theorem poll_read_queue:
  assumes "stream_inv s"
  shows "\<exists>t r. poll_read env rb s = Some (t, rb\<lparr>rb_filled := rb_filled rb @ take (rb_remaining rb) (avail s)\<rparr>, r)
     \<and> stream_inv t \<and> avail t = drop (rb_remaining rb) (avail s)
     \<and> (if s_read_cursor s < s_read_cursor t then r = Ready (Inr ())
        else case s_error s of
            Some e \<Rightarrow> r = Ready (Inl (io_error_from_udx e))
          | None \<Rightarrow> r = Pending \<and> s_read_waker t = Some (e_waker env))"
proof -
  obtain t where t: "read_rel s (take (rb_remaining rb) (avail s)) t"
    "poll_read env rb s = Some (t, rb\<lparr>rb_filled := rb_filled rb @ take (rb_remaining rb) (avail s)\<rparr>,
       if s_read_cursor s < s_read_cursor t then Ready (Inr ())
       else case s_error s of Some e \<Rightarrow> Ready (Inl (io_error_from_udx e)) | None \<Rightarrow> Pending)"
    "s_read_cursor s < s_read_cursor t \<or> s_error s \<noteq> None \<or> s_read_waker t = Some (e_waker env)"
    by (rule poll_read_total [OF assms, where rb = rb and env = env])
  have "avail t = drop (rb_remaining rb) (avail s)"
    using t(1) unfolding read_rel_def by (metis append_take_drop_id same_append_eq)
  then show ?thesis
    using t by (auto simp: read_rel_def split: option.split)
qed

theorem poll_read_queue_witness:
  "\<exists>t r. poll_read ex_env \<lparr>rb_filled = [], rb_capacity = 8\<rparr> ex_rcvd
       = Some (t, \<lparr>rb_filled = [1, 2, 3], rb_capacity = 8\<rparr>, r)
     \<and> stream_inv t \<and> avail t = []"
  using poll_read_queue [OF ex_rcvd_inv, of ex_env "\<lparr>rb_filled = [], rb_capacity = 8\<rparr>"]
  by (auto simp: ex_rcvd_avail rb_remaining_def)

text \<open>C26: A read into a buffer that is smaller than the next packet is lost. The bytes are copied
  into the buffer and consumed, and yet the call reports \<open>Pending\<close> (or, on a closed stream, an
  error), so that a caller which honours the result never learns of them.\<close>

theorem small_read_reports_pending:
  assumes "stream_inv s" "s_error s = None"
    and "map_of (s_incoming s) (s_read_cursor s) = Some p"
    and "0 < rb_remaining rb" "rb_remaining rb < length (unread p)"
  shows "\<exists>t rb'. poll_read env rb s = Some (t, rb', Pending)
     \<and> rb_filled rb' = rb_filled rb @ take (rb_remaining rb) (unread p)
     \<and> avail t = drop (rb_remaining rb) (avail s)"
proof -
  note i = stream_invD(2) [OF assms(1)]
  have "read_next rb False s = Some
     (s\<lparr>s_incoming := AList.update (incoming_seq p)
          (p\<lparr>ip_read_offset := ip_read_offset p + rb_remaining rb\<rparr>)
          (AList.delete (s_read_cursor s) (s_incoming s))\<rparr>,
      rb\<lparr>rb_filled := rb_filled rb @ take (rb_remaining rb) (unread p)\<rparr>, False)" (is "_ = Some (?t, ?rb, False)")
    using assms(5) by (intro read_next_partial assms(3) recv_invD(7) [OF i assms(3)]) simp
  then have "poll_read env rb s = Some (?t\<lparr>s_read_waker := Some (e_waker env)\<rparr>, ?rb, Pending)"
    using assms(2) by (simp add: poll_read_def)
  moreover have "avail (?t\<lparr>s_read_waker := Some (e_waker env)\<rparr>) = avail ?t"
    by (rule avail_cong) simp_all
  moreover have "avail ?t = drop (rb_remaining rb) (avail s)"
    using assms(5) by (intro recv_inv_partial(2) [OF i assms(3) _ refl]) simp
  ultimately show ?thesis by auto
qed

theorem small_read_reports_pending_witness:
  "\<exists>t rb'. poll_read ex_env \<lparr>rb_filled = [], rb_capacity = 2\<rparr> ex_rcvd = Some (t, rb', Pending)
     \<and> rb_filled rb' = [1, 2] \<and> avail t = [3]"
  using small_read_reports_pending [OF ex_rcvd_inv, of "ex_data 0 [1, 2, 3]"
      "\<lparr>rb_filled = [], rb_capacity = 2\<rparr>" ex_env]
  by (simp add: ex_rcvd_avail) (simp add: ex_rcvd_def ex_data_def rb_remaining_def unread_def)

section \<open>Writing\<close>

text \<open>C12: Writing. On an open stream a write returns (as long as sequence numbers are left) and
  accepts a prefix of the buffer, cut into chunks of at least one and at most 1380 bytes, each
  with the next sequence number. It stops early only when the window has no room for the
  next chunk, reports \<open>Pending\<close> exactly when nothing was accepted and then leaves the writer's
  waker, and never lets the bytes in flight exceed the window by more than one header.\<close>

theorem poll_write_accepts_prefix:
  assumes "stream_inv s" "s_error s = None" "buf \<noteq> []"
    and "unat (s_seq s) + packets_for (length buf) \<le> 4294967295"
  shows "\<exists>t r cs. poll_write env buf s = Some (t, r) \<and> stream_inv t
     \<and> concat cs = take (length (concat cs)) buf
     \<and> (\<forall>c \<in> set cs. 0 < length c \<and> length c \<le> UDX_MAX_DATA_SIZE)
     \<and> unat (s_seq t) = unat (s_seq s) + length cs
     \<and> (if cs = [] then r = Pending \<and> s_write_waker t = Some (e_waker env)
        else r = Ready (Inr (length (concat cs))))
     \<and> (length (concat cs) < length buf \<longrightarrow>
          s_inflight t + min (length buf - length (concat cs)) UDX_MAX_DATA_SIZE > s_cwnd t)
     \<and> s_inflight t \<le> max (s_inflight s) (s_cwnd s + UDX_HEADER_SIZE)"
proof -
  obtain cs t r where w: "write_loop env buf 0 s = Some (t, r)" "write_result env buf 0 s cs t r"
    using write_loop_total [OF assms(1-3), of 0 env] assms(4) by auto
  then have rel: "write_rel s cs t" by (simp add: write_result_def)
  note d = write_relD [OF rel]
  have "concat cs = [] \<longleftrightarrow> cs = []" using d(3) by (auto simp: concat_eq_Nil_conv)
  moreover have "poll_write env buf s = Some (t, r)"
    using w(1) assms(2,3) by (simp add: poll_write_def)
  ultimately show ?thesis
    using w(2) d(1,3,4,5,6) by (intro exI [of _ t] exI [of _ r] exI [of _ cs])
      (auto simp: write_result_def Let_def)
qed

theorem poll_write_accepts_prefix_witness:
  "\<exists>t r cs. poll_write ex_env [1, 2, 3] ex_stream = Some (t, r) \<and> stream_inv t
     \<and> concat cs = take (length (concat cs)) [1, 2, 3 :: u8]
     \<and> (\<forall>c \<in> set cs. 0 < length c \<and> length c \<le> UDX_MAX_DATA_SIZE)
     \<and> unat (s_seq t) = unat (s_seq ex_stream) + length cs
     \<and> (if cs = [] then r = Pending \<and> s_write_waker t = Some (e_waker ex_env)
        else r = Ready (Inr (length (concat cs))))
     \<and> (length (concat cs) < length [1, 2, 3 :: u8] \<longrightarrow>
          s_inflight t + min (length [1, 2, 3 :: u8] - length (concat cs)) UDX_MAX_DATA_SIZE > s_cwnd t)
     \<and> s_inflight t \<le> max (s_inflight ex_stream) (s_cwnd ex_stream + UDX_HEADER_SIZE)"
  by (rule poll_write_accepts_prefix) (simp_all add: ex_stream_inv packets_for_def)

section \<open>Handing packets to the socket\<close>

text \<open>C13: The driver hands the whole send queue over in order. The packet sets it puts into the
  channel, concatenated, are the queue, and each satisfies the invariant stated with
  \<open>PacketSet\<close>: it is not empty, its packets have exactly the segment size, and (with a positive
  limit) it holds no more than the limit of the platform and no more than ten.\<close>

theorem poll_transmit_partition:
  assumes "s_send_open s"
  shows "\<exists>sets. poll_transmit s
       = Some (s\<lparr>s_send_queue := [], s_send_tx := s_send_tx s @ map Transmit sets\<rparr>)
     \<and> concat (map ps_packets sets) = s_send_queue s
     \<and> (\<forall>ps \<in> set sets. ps_dest ps = s_remote_addr s \<and> ps_packets ps \<noteq> []
          \<and> (\<forall>r \<in> set (ps_packets ps). ps_segment_size ps
               = Some (packet_buf_len (p_buf (deref (s_heap s) r))))
          \<and> (0 < s_max_gso_segments s \<longrightarrow>
               packet_set_len ps \<le> s_max_gso_segments s \<and> packet_set_len ps \<le> MAX_SEGMENTS))"
proof -
  obtain sets where sets: "poll_transmit s = Some (handed s sets)"
    "concat (map ps_packets sets) = s_send_queue s"
    "\<forall>ps \<in> set sets. set_ok (s_heap s) (s_remote_addr s) (min (s_max_gso_segments s) MAX_SEGMENTS) ps"
    by (rule poll_transmit_open [OF assms])
  then show ?thesis
    by (intro exI [of _ sets])
      (auto simp: set_ok_def seg_ok_def packet_set_len_def MAX_SEGMENTS_def)
qed

definition ex_queued :: udx_stream where
  "ex_queued = ex_stream\<lparr>s_send_queue := [Owned (end_packet ex_stream), Owned (data_packet ex_stream [9])]\<rparr>"

theorem poll_transmit_partition_witness:
  "s_send_open ex_queued \<and> (\<exists>sets. poll_transmit ex_queued
       = Some (ex_queued\<lparr>s_send_queue := [], s_send_tx := s_send_tx ex_queued @ map Transmit sets\<rparr>)
     \<and> concat (map ps_packets sets) = s_send_queue ex_queued)"
  using poll_transmit_partition [of ex_queued] by (auto simp: ex_queued_def)



section \<open>Acknowledgements and loss recovery\<close>

text \<open>C15: A cumulative acknowledgement terminates for every number a peer can send. It removes
  from the outgoing packets exactly those between the old and the new number, leaves the
  others, never moves backwards, and keeps the books.\<close>

theorem cumulative_ack_correct:
  assumes "stream_inv s"
  shows "\<exists>t. handle_incoming_max_remote_ack env ack s = Some t \<and> stream_inv t
     \<and> s_remote_acked t = max ack (s_remote_acked s)
     \<and> (\<forall>k. map_of (s_outgoing t) k
          = (if s_remote_acked s \<le> k \<and> k < ack then None else map_of (s_outgoing s) k))
     \<and> s_send_queue t = s_send_queue s \<and> avail t = avail s"
proof -
  obtain t where t: "handle_incoming_max_remote_ack env ack s = Some t" "acct t" "tx_frame s t"
    "s_remote_acked t = max ack (s_remote_acked s)" "s_send_queue t = s_send_queue s"
    "s_send_tx t = s_send_tx s" "s_cwnd t = s_cwnd s"
    "map_of (s_outgoing t) = (\<lambda>k. if s_remote_acked s \<le> k \<and> k < ack then None
                                   else map_of (s_outgoing s) k)"
    by (rule max_remote_ack_total [OF stream_invD(1) [OF assms], where env = env and ack = ack])
  have "in_rel s t"
    by (rule in_rel_tx [OF assms t(2,3,6)]) (simp_all add: t(5,8) split: if_splits)
  moreover have "avail t = avail s" by (rule avail_cong) (rule tx_frameD [OF t(3)])+
  ultimately show ?thesis using t in_relD(1) by (intro exI [of _ t]) simp
qed

text \<open>A stream with two packets of data in flight.\<close>

definition ex_sent :: udx_stream where
  "ex_sent = pushed (pushed ex_stream [1, 2, 3]) [4]"

lemma ex_sent_inv: "stream_inv ex_sent" "s_error ex_sent = None"
proof -
  have max: "(0 :: u32) \<noteq> u32_max" "(1 :: u32) \<noteq> u32_max" by (simp_all add: u32_max_def)
  have 1: "write_rel ex_stream [[1, 2, 3]] (pushed ex_stream [1, 2, 3])"
    using max by (intro write_rel_pushed ex_stream_inv(1)) simp_all
  have 2: "write_rel (pushed ex_stream [1, 2, 3]) [[4]] ex_sent"
    unfolding ex_sent_def using max
    by (intro write_rel_pushed write_relD(1) [OF 1]) (simp_all add: pushed_def)
  show "stream_inv ex_sent" by (rule write_relD(1) [OF 2])
  show "s_error ex_sent = None" by (simp add: ex_sent_def pushed_def)
qed

theorem cumulative_ack_correct_witness:
  "\<exists>t. handle_incoming_max_remote_ack ex_env 1 ex_sent = Some t \<and> stream_inv t
     \<and> s_remote_acked t = 1 \<and> map_of (s_outgoing t) 0 = None \<and> map_of (s_outgoing t) 1 = Some 1"
proof -
  obtain t where t: "handle_incoming_max_remote_ack ex_env 1 ex_sent = Some t" "stream_inv t"
    "s_remote_acked t = max 1 (s_remote_acked ex_sent)"
    "\<forall>k. map_of (s_outgoing t) k = (if s_remote_acked ex_sent \<le> k \<and> k < 1 then None
       else map_of (s_outgoing ex_sent) k)"
    using cumulative_ack_correct [OF ex_sent_inv(1), of ex_env 1] by blast
  have s: "s_remote_acked ex_sent = 0" "map_of (s_outgoing ex_sent) 1 = Some 1"
    by (simp_all add: ex_sent_def pushed_def)
  from t(3) s(1) have "s_remote_acked t = 1" by (simp add: max_def)
  moreover have "map_of (s_outgoing t) 0 = None" "map_of (s_outgoing t) 1 = Some 1"
    using t(4) [rule_format, of 0] t(4) [rule_format, of 1] s by simp_all
  ultimately show ?thesis using t(1,2) by blast
qed

text \<open>C14: Lost packets are sent again. When the retransmission timer of a stream has expired with
  data outstanding and no packet has used up its retransmissions, the check for timeouts
  empties the flight, halves the window down to one packet at the least, restarts the timer
  with twice the timeout, and the flush that follows puts the oldest outstanding packet back
  into the send queue.\<close>

theorem timeout_retransmits_oldest:
  assumes "stream_inv s" "e_sleep_ready env (s_rto_timeout s)"
    and "map_of (s_outgoing s) (s_remote_acked s) = Some a"
    and "packet_len (s_heap s ! a) \<le> UDX_MTU"
    and "\<forall>k b. map_of (s_outgoing s) k = Some b \<longrightarrow> s_remote_acked s \<le> k"
    and "may_retransmit (u32_range (s_remote_acked s) (s_seq s)) s"
  shows "\<exists>t. poll_check_timeouts env s = Some (t, Inr ()) \<and> s_inflight t = 0
     \<and> s_cwnd t = max UDX_MTU (s_cwnd s div 2) \<and> s_rto_timeout t = e_now env + 2 * s_rto s
     \<and> (\<exists>xs. s_send_queue (flush_waiting_packets t) = s_send_queue s @ Shared a # xs)"
proof -
  note acct = stream_invD(1) [OF assms(1)]
  obtain t where t: "poll_check_timeouts env s = Some (t, Inr ())" "acct t"
    "s_inflight t = 0" "s_cwnd t = max UDX_MTU (s_cwnd s div 2)"
    "s_rto_timeout t = e_now env + 2 * s_rto s"
    "\<forall>k b. map_of (s_outgoing s) k = Some b \<longrightarrow> p_waiting (s_heap t ! b)" "tx_frame s t"
    "s_outgoing t = s_outgoing s" "s_remote_acked t = s_remote_acked s"
    "s_send_queue t = s_send_queue s"
    by (rule timeout_step [OF acct assms(2,3,5,6)])
  note f = tx_frameD [OF t(7)]
  have lt: "s_remote_acked s < s_seq s" by (rule booksD(4) [OF acct_books [OF acct] assms(3)])
  have "same_cell (s_heap s ! a) (s_heap t ! a)"
    using f(20) booksD(2) [OF acct_books [OF acct] assms(3)] by (simp add: heap_le_def)
  then have "packet_len (s_heap t ! a) \<le> s_cwnd t"
    using assms(4) t(4) same_cell_simps(1) by fastforce
  define u where "u = t\<lparr>s_heap := (s_heap t)[a := (s_heap t ! a)\<lparr>p_waiting := False\<rparr>],
         s_inflight := s_inflight t + packet_len (s_heap t ! a),
         s_send_queue := s_send_queue t @ [Shared a]\<rparr>"
  have "flush_waiting_packets t = flush_loop (u32_range (s_remote_acked s + 1) (s_seq s)) u"
    using assms(3) t(3,6) \<open>packet_len (s_heap t ! a) \<le> s_cwnd t\<close> unfolding u_def
    by (simp add: flush_waiting_packets_def t(8,9) f(1) u32_range_Cons [OF lt] Let_def)
  moreover obtain xs where "s_send_queue (flush_loop (u32_range (s_remote_acked s + 1) (s_seq s)) u)
      = s_send_queue u @ xs"
    using flush_loop_prefix by blast
  ultimately have "s_send_queue (flush_waiting_packets t) = s_send_queue s @ Shared a # xs"
    by (simp add: u_def t(10))
  then show ?thesis using t(1,3-5) by blast
qed

theorem timeout_retransmits_oldest_witness:
  "\<exists>t. poll_check_timeouts (ex_env\<lparr>e_sleep_ready := \<lambda>_. True\<rparr>) ex_sent = Some (t, Inr ()) \<and> s_inflight t = 0
     \<and> s_cwnd t = max UDX_MTU (s_cwnd ex_sent div 2)
     \<and> s_rto_timeout t = e_now (ex_env\<lparr>e_sleep_ready := \<lambda>_. True\<rparr>) + 2 * s_rto ex_sent
     \<and> (\<exists>xs. s_send_queue (flush_waiting_packets t) = s_send_queue ex_sent @ Shared 0 # xs)"
proof (rule timeout_retransmits_oldest [OF ex_sent_inv(1)])
  show "may_retransmit (u32_range (s_remote_acked ex_sent) (s_seq ex_sent)) ex_sent"
    by (auto simp: may_retransmit_def ex_sent_def pushed_def data_packet_def nth_append split: if_splits)
qed (auto simp: ex_sent_def pushed_def data_packet_def udx_constants)





text \<open>C20: Selective acknowledgements against the reference decoding of their ranges: the code
  acknowledges the packets of every range in order, except that it drops the last range of
  every payload that consists of whole ranges, and so ignores a payload with one range.\<close>

theorem handle_sacks_equiv:
  "handle_incoming_sacks env p s = ack_ranges env
     (if 8 dvd length (ip_buf p) then butlast (sack_ranges (ip_buf p)) else sack_ranges (ip_buf p)) s"
  by (simp add: handle_incoming_sacks_def sack_loop_ranges read_ranges_def)

section \<open>Closing\<close>

text \<open>C17: Terminating a stream (closing it, dropping its last handle, an error, or an END packet
  of the peer) records the error, queues one packet that carries the END flag and the
  current acknowledgement, and wakes the reader, the writer and the driver if they wait.
  From then on every write fails with the recorded error and changes nothing, and what had
  arrived before stays readable.\<close>

theorem terminate_correct:
  assumes "stream_inv s"
  shows "\<exists>p. stream_inv (terminate e s) \<and> s_error (terminate e s) = Some e
     \<and> local_closed (s_state (terminate e s))
     \<and> s_send_queue (terminate e s) = s_send_queue s @ [Owned p]
     \<and> header_from_bytes (as_slice (p_buf p)) = Some (Inr (p_header p))
     \<and> hdr_typ (p_header p) = UDX_HEADER_END \<and> hdr_ack (p_header p) = s_ack s
     \<and> (\<forall>w. Some w \<in> {s_read_waker s, s_write_waker s, s_drive_waker s} \<longrightarrow>
          w \<in> set (s_woken (terminate e s)))
     \<and> poll_write env buf (terminate e s) = Some (terminate e s, Ready (Inl (io_error_from_udx e)))
     \<and> avail (terminate e s) = avail s"
proof -
  have "header_fits (p_header (end_packet s))"
    by (simp add: header_fits_def end_packet_def udx_constants)
  from header_from_bytes_header_bytes [OF this, of "[]"]
  have "header_from_bytes (as_slice (p_buf (end_packet s))) = Some (Inr (p_header (end_packet s)))"
    by (simp add: end_packet_def)
  moreover have "avail (terminate e s) = avail s" by (rule avail_cong) (simp_all add: terminate_eq)
  moreover have "w \<in> set (s_woken (terminate e s))"
    if "Some w \<in> {s_read_waker s, s_write_waker s, s_drive_waker s}" for w
    using that by (auto simp: terminate_eq waker_list_def split: option.split)
  moreover have "s_send_queue (terminate e s) = s_send_queue s @ [Owned (end_packet s)]"
    "s_error (terminate e s) = Some e" "local_closed (s_state (terminate e s))"
    "hdr_typ (p_header (end_packet s)) = UDX_HEADER_END" "hdr_ack (p_header (end_packet s)) = s_ack s"
    by (simp_all add: terminate_eq end_packet_def)
  ultimately show ?thesis
    using in_relD(1) [OF in_rel_terminate(1) [OF assms]]
    by (intro exI [of _ "end_packet s"]) (simp add: poll_write_def)
qed

theorem terminate_correct_witness:
  "stream_inv ex_rcvd \<and> s_error (terminate closed_by_remote ex_rcvd) = Some closed_by_remote
   \<and> avail (terminate closed_by_remote ex_rcvd) = avail ex_rcvd"
  using terminate_correct [OF ex_rcvd_inv, of closed_by_remote ex_env "[]"] ex_rcvd_inv by blast

lemma mark_lost_nothing: "s_outgoing s = [] \<Longrightarrow> mark_lost is s = Some (s, Inr ())"
  by (induction "is") simp_all

lemma flush_loop_nothing: "s_outgoing s = [] \<Longrightarrow> flush_loop is s = s"
  by (induction "is") simp_all

lemma check_timeouts_nothing:
  assumes "s_outgoing s = []"
  obtains c n where "poll_check_timeouts env s = Some (s\<lparr>s_rto_timeout := n, s_cwnd := c\<rparr>, Inr ())"
proof (cases "\<not> e_sleep_ready env (s_rto_timeout s) \<or> s_remote_acked s = s_seq s")
  case True
  then have "poll_check_timeouts env s
      = Some (s\<lparr>s_rto_timeout := s_rto_timeout s, s_cwnd := s_cwnd s\<rparr>, Inr ())"
    by (auto simp: poll_check_timeouts_def)
  then show thesis by (rule that)
next
  case False
  show thesis
    by (rule that) (use False assms in \<open>simp add: poll_check_timeouts_def mark_lost_nothing Let_def\<close>)
qed

lemma poll_incoming_nothing:
  "s_recv_rx s = [] \<Longrightarrow> s_recv_open s \<Longrightarrow> poll_incoming env s = Some (s, Inr ())"
  by (cases "e_recv_budget env") (simp_all add: poll_incoming_def handle_incoming_max_remote_ack_def)

text \<open>C16: Closing completes. A stream that has no unacknowledged data and receives nothing more
  finishes two polls after \<open>close\<close>: the first hands everything queued, the END packet last, to
  the socket, the second ends the driver, notifies whoever waits for the close and tells the
  socket to forget the stream. The first poll leaves nothing to do and still does not schedule the
  second: it registers its waker and calls nobody, so who waits for the close waits for the next
  event on the stream.\<close>

theorem close_completes:
  assumes "stream_inv s" "s_send_open s" "s_recv_open s" "s_recv_rx s = []" "s_outgoing s = []"
  shows "\<exists>t u sets. stream_driver_poll env (stream_close tx s) = Some (t, Pending)
     \<and> s_send_tx t = s_send_tx s @ map Transmit sets
     \<and> concat (map ps_packets sets) = s_send_queue s @ [Owned (end_packet s)]
     \<and> closed_and_drained t \<and> s_close_sent t = s_close_sent s
     \<and> s_drive_waker t = Some (e_waker env) \<and> s_woken t = s_woken (stream_close tx s)
     \<and> stream_driver_poll env' t = Some (u, Ready ())
     \<and> tx \<in> set (s_close_sent u) \<and> s_send_tx u = s_send_tx t @ [StreamDropped (s_local_id s)]"
proof -
  let ?s = "(stream_close tx s)\<lparr>s_drive_waker := None\<rparr>"
  have fields: "s_outgoing ?s = []" "s_recv_rx ?s = []" "s_recv_open ?s" "s_send_open ?s"
    "s_send_queue ?s = s_send_queue s @ [Owned (end_packet s)]" "s_send_tx ?s = s_send_tx s"
    using assms by (simp_all add: stream_close_def terminate_eq)
  obtain c n where to: "poll_check_timeouts env ?s = Some (?s\<lparr>s_rto_timeout := n, s_cwnd := c\<rparr>, Inr ())"
    by (rule check_timeouts_nothing [OF fields(1)])
  define v where "v = ?s\<lparr>s_rto_timeout := n, s_cwnd := c\<rparr>"
  have "s_send_open v" using fields(4) by (simp add: v_def)
  then obtain sets where sets: "poll_transmit v = Some (handed v sets)"
    "concat (map ps_packets sets) = s_send_queue v"
    by (rule poll_transmit_open)
  have "flush_waiting_packets v = v"
    using fields(1) by (simp add: flush_waiting_packets_def flush_loop_nothing v_def)
  then have drive: "poll_drive env ?s = Some (handed v sets, Inr False)"
    using to sets(1) poll_incoming_nothing [OF fields(2,3)]
    by (simp add: poll_drive_def v_def Let_def)
  define t where "t = (handed v sets)\<lparr>s_drive_waker := Some (e_waker env)\<rparr>"
  have "\<not> closed_and_drained ?s" using fields(5) by (simp add: closed_and_drained_def)
  then have 1: "stream_driver_poll env (stream_close tx s) = Some (t, Pending)"
    unfolding stream_driver_poll_def Let_def using drive by (simp add: t_def)
  have drained: "closed_and_drained t"
    using fields(1) by (simp add: closed_and_drained_def t_def v_def stream_close_def terminate_eq)
  note 2 = driver_finished [OF drained, of env']
  have "s_close_sent t = s_close_sent s" "s_drive_waker t = Some (e_waker env)"
    "s_woken t = s_woken (stream_close tx s)"
    by (simp_all add: t_def v_def stream_close_def terminate_eq)
  moreover have "s_on_close t = Some tx" "s_send_open t" "s_local_id t = s_local_id s"
    "s_send_tx t = s_send_tx s @ map Transmit sets"
    using fields(4,6) by (simp_all add: t_def v_def stream_close_def terminate_eq)
  moreover from this have "tx \<in> set (s_close_sent (finished t))"
    "s_send_tx (finished t) = s_send_tx t @ [StreamDropped (s_local_id s)]"
    by (simp_all add: finished_def)
  moreover have "concat (map ps_packets sets) = s_send_queue s @ [Owned (end_packet s)]"
    using sets(2) fields(5) by (simp add: v_def)
  ultimately show ?thesis
    using 1 2 drained by (intro exI [of _ t] exI [of _ "finished t"] exI [of _ sets]) simp
qed

theorem close_completes_witness:
  "\<exists>t u sets. stream_driver_poll ex_env (stream_close 3 ex_stream) = Some (t, Pending)
     \<and> s_send_tx t = s_send_tx ex_stream @ map Transmit sets
     \<and> concat (map ps_packets sets) = s_send_queue ex_stream @ [Owned (end_packet ex_stream)]
     \<and> closed_and_drained t \<and> s_close_sent t = s_close_sent ex_stream
     \<and> s_drive_waker t = Some (e_waker ex_env) \<and> s_woken t = s_woken (stream_close 3 ex_stream)
     \<and> stream_driver_poll ex_env t = Some (u, Ready ())
     \<and> 3 \<in> set (s_close_sent u) \<and> s_send_tx u = s_send_tx t @ [StreamDropped (s_local_id ex_stream)]"
  by (rule close_completes) (simp_all add: ex_stream_inv)

text \<open>C28: A stream whose receive channel was closed before it drained never finishes. Every poll
  of its driver schedules the next one at once, sends nothing, and leaves one more packet in
  the send queue, which keeps it from draining.\<close>

theorem orphaned_stream_spins:
  assumes "\<not> s_recv_open s" "s_recv_rx s = []" "\<not> closed_and_drained s" "0 < e_recv_budget env"
  shows "\<exists>t p. stream_driver_poll env s = Some (t, Pending) \<and> last (s_woken t) = e_waker env
     \<and> s_send_queue t = s_send_queue s @ [p] \<and> s_send_tx t = s_send_tx s
     \<and> \<not> s_recv_open t \<and> s_recv_rx t = [] \<and> \<not> closed_and_drained t"
proof -
  let ?s = "s\<lparr>s_drive_waker := None\<rparr>"
  let ?e = "io_error_new BrokenPipe ''Socket driver future was dropped''"
  let ?t = "terminate (udx_error_from_io ?e) ?s"
  obtain n where "e_recv_budget env = Suc n" using assms(4) gr0_conv_Suc by auto
  then have "poll_drive env ?s = Some (?s, Inl ?e)"
    using assms(1,2) by (simp add: poll_drive_def poll_incoming_def)
  moreover have "\<not> closed_and_drained ?s" using assms(3) by (simp add: closed_and_drained_def)
  ultimately have "stream_driver_poll env s = Some (?t\<lparr>s_woken := s_woken ?t @ [e_waker env]\<rparr>, Pending)"
    by (simp add: stream_driver_poll_def Let_def)
  then show ?thesis
    using assms(1,2) by (simp add: terminate_eq closed_and_drained_def)
qed

theorem orphaned_stream_spins_witness:
  "\<exists>t p. stream_driver_poll ex_env (ex_stream\<lparr>s_recv_open := False\<rparr>) = Some (t, Pending)
     \<and> last (s_woken t) = e_waker ex_env
     \<and> s_send_queue t = s_send_queue (ex_stream\<lparr>s_recv_open := False\<rparr>) @ [p]
     \<and> s_send_tx t = s_send_tx (ex_stream\<lparr>s_recv_open := False\<rparr>)
     \<and> \<not> s_recv_open t \<and> s_recv_rx t = [] \<and> \<not> closed_and_drained t"
  by (rule orphaned_stream_spins) (simp_all add: closed_and_drained_def ex_env_def)



definition ex_end :: incoming_packet where
  "ex_end = \<lparr>ip_header = \<lparr>hdr_typ = UDX_HEADER_END, hdr_data_offset = 0, hdr_stream_id = 1, hdr_recv_win = u32_max,
       hdr_seq = 0, hdr_ack = 0\<rparr>, ip_buf = [], ip_read_offset = 0, ip_from = ex_addr\<rparr>"


text \<open>C24: The check that an acknowledgement lies within what was sent does not protect the stream.
  A bare acknowledgement of a packet that was never sent is skipped where packets are
  handled, but its number still counts as the highest acknowledgement of the poll: everything
  outstanding is dropped as acknowledged and the acknowledged number passes the sequence
  number.\<close>

theorem forged_ack_accepted:
  assumes "stream_inv s" "s_recv_rx s = [EventPacket p]" "s_recv_open s" "s_on_firewall s = None"
    and "hdr_typ (ip_header p) = 0" "s_seq s < incoming_ack p" "s_remote_acked s \<le> s_seq s"
    and "2 \<le> e_recv_budget env"
  shows "\<exists>u t. handle_incoming env p (s\<lparr>s_recv_rx := []\<rparr>) = Some u \<and> s_remote_acked u = s_remote_acked s
     \<and> s_outgoing u = s_outgoing s
     \<and> poll_incoming env s = Some (t, Inr ()) \<and> s_remote_acked t = incoming_ack p \<and> s_seq t = s_seq s
     \<and> (\<forall>k. s_remote_acked s \<le> k \<longrightarrow> map_of (s_outgoing t) k = None)"
proof -
  let ?u = "s\<lparr>s_recv_rx := [], s_stats := (s_stats s)\<lparr>st_rx_packets := st_rx_packets (s_stats s) + 1\<rparr>\<rparr>"
  have h: "handle_incoming env p (s\<lparr>s_recv_rx := []\<rparr>) = Some ?u"
    using assms(4-6) by (simp add: handle_incoming_def has_type_def)
  have "acct ?u" using stream_invD(1) [OF assms(1)] by (simp add: acct_def)
  then obtain t where t: "handle_incoming_max_remote_ack env (incoming_ack p) ?u = Some t" "tx_frame ?u t"
    "s_remote_acked t = max (incoming_ack p) (s_remote_acked ?u)"
    "map_of (s_outgoing t) = (\<lambda>k. if s_remote_acked ?u \<le> k \<and> k < incoming_ack p then None else map_of (s_outgoing ?u) k)"
    by (rule max_remote_ack_total [where env = env and ack = "incoming_ack p"])
  obtain n where n: "e_recv_budget env = Suc (Suc n)"
    using assms(8) by (metis Suc_le_D numeral_2_eq_2 Suc_le_mono)
  have "poll_incoming env s = Some (t, Inr ())"
    using assms(2,3) h t(1) by (simp add: poll_incoming_def n)
  moreover have "map_of (s_outgoing t) k = None" if "s_remote_acked s \<le> k" for k
  proof (cases "k < incoming_ack p")
    case True
    then show ?thesis using that by (simp add: t(4))
  next
    case False
    then have "\<not> k < s_seq s" using assms(6) by simp
    then have "map_of (s_outgoing s) k = None"
      using stream_invD(1) [OF assms(1)] booksD(4) [of "s_heap s" "s_outgoing s" "s_seq s"]
      by (cases "map_of (s_outgoing s) k") (auto simp: acct_def)
    then show ?thesis by (simp add: t(4))
  qed
  moreover have "s_remote_acked t = incoming_ack p" using t(3) assms(6,7) by (simp add: max_absorb1)
  ultimately show ?thesis using h tx_frameD(1) [OF t(2)] by (intro exI [of _ ?u] exI [of _ t]) simp
qed

theorem forged_ack_accepted_witness:
  "\<exists>t. poll_incoming ex_env (ex_sent\<lparr>s_recv_rx := [EventPacket (ex_end\<lparr>ip_header := (ip_header ex_end)
       \<lparr>hdr_typ := 0, hdr_ack := 1000\<rparr>\<rparr>)]\<rparr>) = Some (t, Inr ())
     \<and> s_remote_acked t = 1000 \<and> s_seq t = 2 \<and> map_of (s_outgoing t) 0 = None \<and> map_of (s_outgoing t) 1 = None"
proof -
  let ?p = "ex_end\<lparr>ip_header := (ip_header ex_end)\<lparr>hdr_typ := 0, hdr_ack := 1000\<rparr>\<rparr>"
  let ?s = "ex_sent\<lparr>s_recv_rx := [EventPacket ?p]\<rparr>"
  have f: "s_on_firewall ex_sent = None" "s_recv_open ex_sent" "s_seq ex_sent = 2" "s_remote_acked ex_sent = 0"
    by (simp_all add: ex_sent_def pushed_def ex_stream_def stream_connect_def Let_def)
  have "stream_inv ?s"
    using ex_sent_inv(1) recv_inv_cong [of ?s ex_sent]
    by (simp add: stream_inv_def acct_def no_max_def fresh_packet_def ex_end_def u32_max_def)
  from forged_ack_accepted [OF this, of ?p ex_env] f
  obtain t where t: "poll_incoming ex_env ?s = Some (t, Inr ())" "s_remote_acked t = 1000" "s_seq t = 2"
    "\<forall>k. 0 \<le> k \<longrightarrow> map_of (s_outgoing t) k = None"
    by (auto simp: ex_end_def ex_env_def)
  then show ?thesis by auto
qed

end
