(* ===== verification/Udx_Network.thy ===== *)
theory Udx_Network
  imports Udx_Socket_Props Udx_Stream_Props
begin

text \<open>
  Two endpoints, each a stream on a socket, joined by a network that loses, duplicates and
  reorders datagrams. A stream and its socket share the packet cells and two channels:
  \<open>after_stream\<close> and \<open>after_socket\<close> pass on what one of them put there. Everything an endpoint's
  kernel ever sent is kept, and any of it may arrive at the other endpoint at any time. How
  a kernel cuts a transmit into datagrams is the argument \<open>split\<close>; \<open>gso_split\<close> states what
  segmentation offload documents. Applications may use the sockets for datagrams of their own that are not
  packets of the protocol.
\<close>

section \<open>Endpoints and their steps\<close>

datatype side = Here | There

fun peer :: "side \<Rightarrow> side" where
  "peer Here = There"
| "peer There = Here"

lemma peer_peer [simp]: "peer (peer i) = i"
  by (cases i) simp_all

lemma peer_neq [simp]: "peer i \<noteq> i" "i \<noteq> peer i"
  by (cases i; simp)+

text \<open>The last three fields record what the application wrote and read and what the kernel
  sent.\<close>

record endpoint =
  ep_stream :: udx_stream
  ep_socket :: udx_socket
  ep_written :: "u8 list"
  ep_read :: "u8 list"
  ep_wire :: "u8 list list"

type_synonym system = "side \<Rightarrow> endpoint"

definition after_stream :: "udx_stream \<Rightarrow> endpoint \<Rightarrow> endpoint" where
  "after_stream t e = e\<lparr>ep_stream := t\<lparr>s_send_tx := []\<rparr>,
     ep_socket := (ep_socket e)\<lparr>k_heap := s_heap t, k_send_rx := k_send_rx (ep_socket e) @ s_send_tx t\<rparr>\<rparr>"

text \<open>The stream is the first that its socket connected, so its channel is 0.\<close>

definition after_socket :: "udx_socket \<Rightarrow> endpoint \<Rightarrow> endpoint" where
  "after_socket k e = e\<lparr>ep_socket := k\<lparr>k_inbox := []\<rparr>,
     ep_stream := (ep_stream e)\<lparr>s_heap := k_heap k, s_max_gso_segments := k_max_gso_segments k,
       s_recv_rx := s_recv_rx (ep_stream e) @ map snd (filter (\<lambda>(c, _). c = 0) (k_inbox k)),
       s_recv_open := (0 \<in> snd ` set (k_streams k))\<rparr>\<rparr>"

text \<open>A transmit without a segment size is one datagram. Otherwise its contents are cut into
  datagrams of that size, only the last of which may be shorter.\<close>

definition gso_split :: "(transmit \<Rightarrow> u8 list list) \<Rightarrow> bool" where
  "gso_split split \<longleftrightarrow> (\<forall>t. case t_segment_size t of
     None \<Rightarrow> split t = [t_contents t]
   | Some g \<Rightarrow> 0 < g \<longrightarrow> concat (split t) = t_contents t
       \<and> (\<forall>d \<in> set (split t). d \<noteq> [] \<and> length d \<le> g) \<and> (\<forall>d \<in> set (butlast (split t)). length d = g))"

text \<open>What may arrive: something that the other side sent, or something that is not a packet.\<close>

definition deliverable :: "u8 list list \<Rightarrow> (socket_addr \<times> u8 list) set \<Rightarrow> bool" where
  "deliverable wire arrived \<longleftrightarrow> (\<forall>(addr, d) \<in> arrived. d \<in> set wire \<or> header_dec d = None)"

inductive net_step :: "(transmit \<Rightarrow> u8 list list) \<Rightarrow> system \<Rightarrow> system \<Rightarrow> bool" for split where
  net_drive: "stream_driver_poll env (ep_stream (S i)) = Some (t, r) \<Longrightarrow>
    net_step split S (S(i := after_stream t (S i)))"
| net_read: "poll_read env rb (ep_stream (S i)) = Some (t, rb', r) \<Longrightarrow>
    net_step split S (S(i := (after_stream t (S i))
      \<lparr>ep_read := ep_read (S i) @ drop (length (rb_filled rb)) (rb_filled rb')\<rparr>))"
| net_write: "unat (s_seq (ep_stream (S i))) + packets_for (length buf) \<le> 4294967295 \<Longrightarrow>
    poll_write env buf (ep_stream (S i)) = Some (t, r) \<Longrightarrow> s_seq t \<noteq> u32_max \<Longrightarrow>
    net_step split S (S(i := (after_stream t (S i))
      \<lparr>ep_written := ep_written (S i) @ (case r of Ready (Inr n) \<Rightarrow> take n buf | _ \<Rightarrow> [])\<rparr>))"
| net_close: "net_step split S (S(i := after_stream (stream_close tx (ep_stream (S i))) (S i)))"
| net_drop: "net_step split S (S(i := after_stream (stream_drop n (ep_stream (S i))) (S i)))"
| net_send: "header_dec buf = None \<Longrightarrow>
    net_step split S (S(i := (S i)\<lparr>ep_socket := socket_send dest buf (ep_socket (S i))\<rparr>))"
| net_recv: "net_step split S (S(i := (S i)\<lparr>ep_socket := fst (recv_future_poll w (ep_socket (S i)))\<rparr>))"
| net_drop_socket: "net_step split S (S(i := (S i)\<lparr>ep_socket := socket_drop n (ep_socket (S i))\<rparr>))"
| net_hang_up: "net_step split S (S(i := (S i)\<lparr>ep_socket := (ep_socket (S i))\<lparr>k_hung_up := [0]\<rparr>\<rparr>))"
| net_socket: "\<forall>ts. list_all (transmit_ok True) ts \<longrightarrow> unix_kernel_ok kern ts \<Longrightarrow>
    unix_network_ok net \<Longrightarrow> deliverable (ep_wire (S (peer i))) (unix_arrived net) \<Longrightarrow>
    0 < kv_slice env \<Longrightarrow> kv_local_addr env = Inr a \<Longrightarrow>
    socket_driver_poll (unix_layer_send kern) (unix_layer_recv net) BATCH_SIZE_UNIX env (ep_socket (S i))
      = Some (k', p) \<Longrightarrow>
    net_step split S (S(i := (after_socket k' (S i))\<lparr>ep_wire := ep_wire (S i)
      @ concat (map split (drop (length (k_sent (ep_socket (S i)))) (k_sent k')))\<rparr>))"

text \<open>Initially each side has bound its socket and connected a stream to the other side's id.\<close>

definition joined :: "(side \<Rightarrow> u32) \<Rightarrow> system \<Rightarrow> bool" where
  "joined ids S \<longleftrightarrow> (\<forall>i. \<exists>k0 env dest k s. socket_bound BATCH_SIZE_UNIX k0
     \<and> socket_connect env dest (ids i) (ids (peer i)) k0 = Some (k, s)
     \<and> S i = \<lparr>ep_stream = s, ep_socket = k, ep_written = [], ep_read = [], ep_wire = []\<rparr>)"

section \<open>What is on the wire\<close>

definition wire_ok :: "(packet \<Rightarrow> bool) \<Rightarrow> u8 list \<Rightarrow> bool" where
  "wire_ok Q d \<longleftrightarrow> header_dec d = None \<or> (\<exists>p. Q p \<and> d = as_slice (p_buf p))"

lemma wire_ok_mono: "wire_ok Q d \<Longrightarrow> (\<And>p. Q p \<Longrightarrow> Q' p) \<Longrightarrow> wire_ok Q' d"
  by (auto simp: wire_ok_def)

lemma header_dec_Nil [simp]: "header_dec [] = None"
  by (simp add: header_dec_def header_from_bytes_def UDX_HEADER_SIZE_def)

lemma cut_unique:
  "concat es = concat ds \<Longrightarrow> 0 < g \<Longrightarrow> \<forall>d \<in> set ds. length d = g \<Longrightarrow>
   \<forall>d \<in> set es. d \<noteq> [] \<and> length d \<le> g \<Longrightarrow> \<forall>d \<in> set (butlast es). length d = g \<Longrightarrow> es = ds"
proof (induction es arbitrary: ds)
  case Nil
  then show ?case by (cases ds) auto
next
  case (Cons e es)
  then obtain d ds' where ds: "ds = d # ds'" by (cases ds) auto
  have "length e = g"
  proof (cases "es = []")
    case True
    then have "length e = length d + length (concat ds')" using Cons.prems(1) ds by simp
    then show ?thesis using Cons.prems ds by simp
  next
    case False
    then show ?thesis using Cons.prems(5) by simp
  qed
  then have "e = d" "concat es = concat ds'" using Cons.prems ds by auto
  moreover have "es = ds'"
    using Cons.prems ds calculation by (intro Cons.IH) (auto split: if_splits dest: in_set_butlastD)
  ultimately show ?case using ds by simp
qed

lemma ref_ok_deref: "ref_ok Q h r \<Longrightarrow> Q (deref h r)"
  by (cases r) (auto simp: ref_ok_def)

lemma split_packet_set:
  assumes split: "gso_split split" and ev: "event_ok Q h (Transmit ps)"
    and len: "\<And>p. Q p \<Longrightarrow> 0 < packet_buf_len (p_buf p)"
    and t: "packet_set_to_transmit h ps = Some t" and d: "d \<in> set (split t)"
  shows "wire_ok Q d"
proof -
  obtain g where g: "ps_segment_size ps = Some g"
    "\<forall>r \<in> set (ps_packets ps). packet_buf_len (p_buf (deref h r)) = g" "ps_packets ps \<noteq> []"
    using ev by (auto simp: event_ok_def uniform_def)
  define ds where "ds = map (as_slice \<circ> p_buf) (filter (\<lambda>p. \<not> p_skip p) (map (deref h) (ps_packets ps)))"
  have good: "wire_ok Q x \<and> length x = g" if "x \<in> set ds" for x
    using that ev g(2) ref_ok_deref [of Q h]
    by (auto simp: ds_def event_ok_def wire_ok_def packet_buf_len_def)
  have "0 < g" using g ev len ref_ok_deref [of Q h] by (cases "ps_packets ps") (auto simp: event_ok_def)
  have contents: "t_contents t = concat ds"
    "t_segment_size t = (if length (ps_packets ps) = 1 then None else Some g)"
    using t g(1) by (auto simp: packet_set_to_transmit_def ds_def Let_def)
  show ?thesis
  proof (cases "length (ps_packets ps) = 1")
    case True
    then have "split t = [concat ds]"
      using split [unfolded gso_split_def, THEN spec, of t] contents by simp
    moreover have "length ds \<le> length (ps_packets ps)"
      unfolding ds_def length_map by (rule order_trans [OF length_filter_le]) simp
    with True have "ds = [] \<or> (\<exists>x. ds = [x])" by (cases ds) auto
    ultimately show ?thesis using d good by (auto simp: wire_ok_def)
  next
    case False
    then have "concat (split t) = concat ds \<and> (\<forall>d \<in> set (split t). d \<noteq> [] \<and> length d \<le> g)
        \<and> (\<forall>d \<in> set (butlast (split t)). length d = g)"
      using split [unfolded gso_split_def, THEN spec, of t] contents \<open>0 < g\<close> by simp
    then have "split t = ds" using good \<open>0 < g\<close> by (intro cut_unique [of _ _ g]) auto
    then show ?thesis using d good by simp
  qed
qed

lemma genuine_bytes:
  "genuine rid ack c p \<Longrightarrow> \<exists>body. as_slice (p_buf p) = header_bytes (p_header p) @ body"
  by (auto simp: genuine_def)

lemma genuine_len: "genuine rid ack c p \<Longrightarrow> 0 < packet_buf_len (p_buf p)"
  using genuine_bytes by (fastforce simp: packet_buf_len_def)

lemma genuine_decodes:
  assumes "genuine rid ack c p"
  shows "header_dec (as_slice (p_buf p)) = Some (p_header p)"
proof -
  have "header_fits (p_header p)"
    using assms by (auto simp: genuine_def header_fits_def UDX_HEADER_DATA_def UDX_HEADER_END_def)
  then show ?thesis
    using genuine_bytes [OF assms] header_from_bytes_header_bytes by (auto simp: header_dec_eq_Some)
qed

section \<open>The invariant\<close>

text \<open>A packet that waits to be handled: the sender's chunks are \<open>inp\<close> and it has acknowledged
  \<open>pack\<close> packets.\<close>

definition good_in :: "u8 list list \<Rightarrow> u32 \<Rightarrow> incoming_packet \<Rightarrow> bool" where
  "good_in inp pack p \<longleftrightarrow> fresh_packet p \<and> genuine_in inp p \<and> incoming_ack p \<le> pack"

definition sock_event :: "(packet \<Rightarrow> bool) \<Rightarrow> heap \<Rightarrow> event_outgoing \<Rightarrow> bool" where
  "sock_event Q h e = (case e of TransmitDgram d \<Rightarrow> header_dec (dg_buf d) = None | _ \<Rightarrow> event_ok Q h e)"

definition sock_good :: "(transmit \<Rightarrow> u8 list list) \<Rightarrow> (packet \<Rightarrow> bool) \<Rightarrow> udx_socket \<Rightarrow> bool" where
  "sock_good split Q k \<longleftrightarrow> (\<forall>e \<in> set (k_send_rx k). sock_event Q (k_heap k) e)
     \<and> (\<forall>t \<in> set (k_outgoing_transmits k). \<forall>d \<in> set (split t). wire_ok Q d)"

definition chunk_ok :: "u8 list \<Rightarrow> bool" where
  "chunk_ok c \<longleftrightarrow> c \<noteq> [] \<and> length c \<le> UDX_MAX_DATA_SIZE"

definition end_inv ::
  "(transmit \<Rightarrow> u8 list list) \<Rightarrow> u32 \<Rightarrow> u8 list list \<Rightarrow> u8 list list \<Rightarrow> u32 \<Rightarrow> endpoint \<Rightarrow> bool" where
  "end_inv split rid out inp pack e \<longleftrightarrow>
     (let s = ep_stream e; k = ep_socket e; Q = genuine rid (s_ack s) out in
      alive s \<and> s_send_tx s = [] \<and> s_heap s = k_heap k \<and> k_inbox k = [] \<and> s_remote_id s = rid
      \<and> sent_inv out s \<and> concat out = ep_written e \<and> length out < 4294967295
      \<and> sock_inv True BATCH_SIZE_UNIX k \<and> sock_good split Q k \<and> (\<forall>d \<in> set (ep_wire e). wire_ok Q d)
      \<and> (\<forall>p. EventPacket p \<in> set (s_recv_rx s) \<longrightarrow> good_in inp pack p)
      \<and> rcvd_inv inp (ep_read e) s \<and> s_remote_acked s \<le> pack \<and> (\<forall>c \<in> set out. chunk_ok c))"

definition sys_inv :: "(transmit \<Rightarrow> u8 list list) \<Rightarrow> (side \<Rightarrow> u32) \<Rightarrow> (side \<Rightarrow> u8 list list) \<Rightarrow> system \<Rightarrow> bool" where
  "sys_inv split ids chunks S \<longleftrightarrow> (\<forall>i. end_inv split (ids (peer i)) (chunks i) (chunks (peer i))
     (s_ack (ep_stream (S (peer i)))) (S i))"

lemma end_invD:
  assumes "end_inv split rid out inp pack e"
  shows "stream_inv (ep_stream e)" "s_send_open (ep_stream e)" "s_send_tx (ep_stream e) = []"
    "s_heap (ep_stream e) = k_heap (ep_socket e)" "k_inbox (ep_socket e) = []"
    "s_remote_id (ep_stream e) = rid" "sent_inv out (ep_stream e)" "concat out = ep_written e"
    "length out < 4294967295" "sock_inv True BATCH_SIZE_UNIX (ep_socket e)"
    "sock_good split (genuine rid (s_ack (ep_stream e)) out) (ep_socket e)"
    "d \<in> set (ep_wire e) \<Longrightarrow> wire_ok (genuine rid (s_ack (ep_stream e)) out) d"
    "EventPacket p \<in> set (s_recv_rx (ep_stream e)) \<Longrightarrow> good_in inp pack p"
    "rcvd_inv inp (ep_read e) (ep_stream e)" "s_remote_acked (ep_stream e) \<le> pack" "alive (ep_stream e)"
    "c \<in> set out \<Longrightarrow> chunk_ok c"
  using assms by (auto simp: end_inv_def alive_def Let_def)

lemma end_invI:
  assumes "ep_stream e = s" "ep_socket e = k"
    and "alive s" "s_send_tx s = []" "s_heap s = k_heap k" "k_inbox k = []" "s_remote_id s = rid"
    and "sent_inv out s" "concat out = ep_written e" "length out < 4294967295"
    and "sock_inv True BATCH_SIZE_UNIX k" "sock_good split (genuine rid (s_ack s) out) k"
    and "\<And>d. d \<in> set (ep_wire e) \<Longrightarrow> wire_ok (genuine rid (s_ack s) out) d"
    and "\<And>p. EventPacket p \<in> set (s_recv_rx s) \<Longrightarrow> good_in inp pack p"
    and "rcvd_inv inp (ep_read e) s" "s_remote_acked s \<le> pack" "\<And>c. c \<in> set out \<Longrightarrow> chunk_ok c"
  shows "end_inv split rid out inp pack e"
  using assms by (simp add: end_inv_def)

lemma good_in_mono: "good_in inp pack p \<Longrightarrow> pack \<le> pack' \<Longrightarrow> good_in (inp @ cs) pack' p"
  by (auto simp: good_in_def genuine_in_def nth_append)

lemma rcvd_inv_mono:
  assumes "rcvd_inv inp r s"
  shows "rcvd_inv (inp @ cs) r s"
proof -
  have "unat k < length (inp @ cs) \<and> ip_buf p = (inp @ cs) ! unat k" if "map_of (s_incoming s) k = Some p" for k p
  proof -
    have "unat k < length inp \<and> ip_buf p = inp ! unat k" using assms that unfolding rcvd_inv_def by blast
    then show ?thesis by (simp add: nth_append)
  qed
  then show ?thesis using assms by (simp add: rcvd_inv_def)
qed

lemma end_inv_peer:
  assumes "end_inv split rid out inp pack e" "pack \<le> pack'"
  shows "end_inv split rid out (inp @ cs) pack' e"
  using assms good_in_mono [of inp pack _ pack' cs] rcvd_inv_mono [of inp _ _ cs]
  by (auto simp: end_inv_def Let_def)

lemma sys_inv_update:
  assumes S: "sys_inv split ids chunks S"
    and e: "end_inv split (ids (peer i)) (chunks i @ cs) (chunks (peer i)) (s_ack (ep_stream (S (peer i)))) e"
    and ack: "s_ack (ep_stream (S i)) \<le> s_ack (ep_stream e)"
  shows "sys_inv split ids (chunks(i := chunks i @ cs)) (S(i := e))"
  unfolding sys_inv_def
proof
  fix j
  show "end_inv split (ids (peer j)) ((chunks(i := chunks i @ cs)) j) ((chunks(i := chunks i @ cs)) (peer j))
      (s_ack (ep_stream ((S(i := e)) (peer j)))) ((S(i := e)) j)"
  proof (cases "j = i")
    case True
    then show ?thesis using e by simp
  next
    case False
    then have j: "j = peer i" by (cases i; cases j) simp_all
    have "end_inv split (ids (peer j)) (chunks j) (chunks (peer j)) (s_ack (ep_stream (S (peer j)))) (S j)"
      using S by (simp add: sys_inv_def)
    from end_inv_peer [OF this, of "s_ack (ep_stream e)" cs] show ?thesis using ack by (simp add: j)
  qed
qed

section \<open>Steps of a stream\<close>

lemma sock_event_mono:
  assumes "sock_event Q h e" "heap_le h h'" "\<And>p q. Q p \<Longrightarrow> same_cell p q \<Longrightarrow> Q' q"
  shows "sock_event Q' h' e"
  using assms event_ok_mono [of Q h e h' Q'] by (auto simp: sock_event_def split: event_outgoing.splits)

lemma genuine_later:
  assumes "ack \<le> ack'" "genuine rid ack out p" "same_cell p q"
  shows "genuine rid ack' (out @ cs) q"
  using genuine_mono [OF assms(2,1) refl] genuine_same_cell [OF assms(3)] by simp

lemma event_ok_sendable:
  assumes "event_ok Q h e" "\<And>p. Q p \<Longrightarrow> 0 < packet_buf_len (p_buf p)"
  shows "sendable True e"
proof (cases e)
  case (Transmit ps)
  then obtain r where "r \<in> set (ps_packets ps)" using assms(1) by (cases "ps_packets ps") (auto simp: event_ok_def uniform_def)
  then show ?thesis
    using assms Transmit ref_ok_deref [of Q h r] by (auto simp: event_ok_def uniform_def sendable_def)
qed (simp_all add: sendable_def)

lemma sock_event_of_event_ok: "event_ok Q h e \<Longrightarrow> sock_event Q h e"
  by (cases e) (simp_all add: sock_event_def event_ok_def)

lemma end_inv_stream:
  assumes e: "end_inv split rid out inp pack e" and t: "alive t" "sent_inv (out @ cs) t"
    and frame: "heap_le (s_heap (ep_stream e)) (s_heap t)" "s_ack (ep_stream e) \<le> s_ack t"
      "s_remote_id t = s_remote_id (ep_stream e)" "set (s_recv_rx t) \<subseteq> set (s_recv_rx (ep_stream e))"
    and rcvd: "rcvd_inv inp (ep_read e @ q) t" and acked: "s_remote_acked t \<le> pack"
    and len: "length (out @ cs) < 4294967295" and cs: "\<And>c. c \<in> set cs \<Longrightarrow> chunk_ok c"
  shows "end_inv split rid (out @ cs) inp pack
    ((after_stream t e)\<lparr>ep_written := ep_written e @ concat cs, ep_read := ep_read e @ q\<rparr>)"
proof -
  note d = end_invD [OF e]
  let ?Q = "genuine rid (s_ack (ep_stream e)) out" and ?Q' = "genuine rid (s_ack t) (out @ cs)"
  let ?k = "(ep_socket e)\<lparr>k_heap := s_heap t, k_send_rx := k_send_rx (ep_socket e) @ s_send_tx t\<rparr>"
  have later: "?Q' p'" if "?Q p" "same_cell p p'" for p p' using frame(2) that by (rule genuine_later)
  have stays: "?Q' p" if "?Q p" for p using later [OF that] by (simp add: same_cell_def)
  have rid: "s_remote_id t = rid" using frame(3) d(6) by simp
  have sent: "event_ok ?Q' (s_heap t) ev" if "ev \<in> set (s_send_tx t)" for ev
    using t(2) that by (simp add: sent_inv_def all_refs_def rid)
  have "alive (t\<lparr>s_send_tx := []\<rparr>)"
    using t(1) recv_inv_cong [of "t\<lparr>s_send_tx := []\<rparr>" t]
    by (simp add: alive_def stream_inv_def acct_def no_max_def)
  moreover have "sent_inv (out @ cs) (t\<lparr>s_send_tx := []\<rparr>)"
    using t(2) by (simp add: sent_inv_def all_refs_def)
  moreover have "sock_inv True BATCH_SIZE_UNIX ?k"
    using d(10) event_ok_sendable [OF sent genuine_len] by (auto simp: sock_inv_def list_all_iff)
  moreover have "sock_good split ?Q' ?k"
  proof -
    have "sock_event ?Q' (s_heap t) ev" if "ev \<in> set (k_send_rx (ep_socket e))" for ev
    proof (rule sock_event_mono [OF _ frame(1) later])
      show "sock_event ?Q (s_heap (ep_stream e)) ev" using d(11) that by (simp add: sock_good_def d(4))
    qed
    moreover have "wire_ok ?Q' x" if "tr \<in> set (k_outgoing_transmits (ep_socket e))" "x \<in> set (split tr)" for tr x
    proof (rule wire_ok_mono [OF _ stays])
      show "wire_ok ?Q x" using d(11) that by (simp add: sock_good_def)
    qed
    ultimately show ?thesis
      using sock_event_of_event_ok [OF sent] by (auto simp: sock_good_def)
  qed
  moreover have "wire_ok ?Q' x" if "x \<in> set (ep_wire e)" for x
    using d(12) [OF that] stays by (rule wire_ok_mono)
  moreover have "rcvd_inv inp (ep_read e @ q) (t\<lparr>s_send_tx := []\<rparr>)"
    using rcvd rcvd_inv_cong [of "t\<lparr>s_send_tx := []\<rparr>" t] by simp
  moreover have "good_in inp pack p" if "EventPacket p \<in> set (s_recv_rx t)" for p
    using that frame(4) d(13) by blast
  ultimately show ?thesis
    using d(5,8,17) acked len rid cs
    by (intro end_invI [where s = "t\<lparr>s_send_tx := []\<rparr>" and k = ?k]) (auto simp: after_stream_def)
qed


section \<open>Steps of a socket\<close>

lemma heap_le_set_now: "heap_le h (set_now now h a)"
  by (cases "a < length h") (auto simp: heap_le_def set_now_def same_cell_def nth_list_update)

lemma heap_le_stamps: "heap_le h (foldl (set_now now) h as)"
proof (induction as rule: rev_induct)
  case (snoc a as)
  then show ?case using heap_le_set_now by (auto intro: heap_le_trans)
qed (simp add: heap_le_refl)

lemma acct_stamps: "acct s \<Longrightarrow> acct (s\<lparr>s_heap := foldl (set_now now) (s_heap s) as\<rparr>)"
proof (induction as rule: rev_induct)
  case (snoc a as)
  then show ?case
    using acct_stamp [of "s\<lparr>s_heap := foldl (set_now now) (s_heap s) as\<rparr>" a "Some now"]
    by (simp flip: set_now_def)
qed simp

definition came_in :: "(socket_addr \<times> u8 list) list \<Rightarrow> event_incoming \<Rightarrow> bool" where
  "came_in ds ev = (case ev of EventPacket p \<Rightarrow> \<exists>(addr, d) \<in> set ds.
     header_dec d = Some (ip_header p) \<and> ip_buf p = drop UDX_HEADER_SIZE d \<and> ip_read_offset p = 0)"

lemma accept_inbox:
  "set (k_inbox (fold accept ds k)) \<subseteq> set (k_inbox k) \<union> {(c, ev). came_in ds ev}"
proof (induction ds arbitrary: k)
  case (Cons d ds)
  obtain addr data where d: "d = (addr, data)" by (cases d)
  have "set (k_inbox (accept d k)) \<subseteq> set (k_inbox k) \<union> {(c, ev). came_in (d # ds) ev}"
    by (auto simp: d accept_def route_def count_rx_def on_recv_dgram_eq incoming_def came_in_def bind_eq_Some_conv
        split: option.splits)
  moreover have "came_in ds ev \<Longrightarrow> came_in (d # ds) ev" for ev
    by (auto simp: came_in_def split: event_incoming.splits)
  ultimately show ?case using Cons.IH [of "accept d k"] by fastforce
qed simp

lemma came_in_good:
  assumes "came_in ds (EventPacket p)" "\<And>addr d. (addr, d) \<in> set ds \<Longrightarrow> wire_ok (genuine rid pack inp) d"
    and "length inp < 4294967295"
  shows "good_in inp pack p"
proof -
  obtain addr d where d: "(addr, d) \<in> set ds" "header_dec d = Some (ip_header p)"
    "ip_buf p = drop UDX_HEADER_SIZE d" "ip_read_offset p = 0"
    using assms(1) by (auto simp: came_in_def)
  then obtain q where q: "genuine rid pack inp q" "d = as_slice (p_buf q)"
    using assms(2) [OF d(1)] by (auto simp: wire_ok_def)
  then have h: "ip_header p = p_header q" using genuine_decodes [OF q(1)] d(2) by simp
  have seq: "unat (incoming_seq p) \<le> length inp" using q(1) by (simp add: genuine_def h)
  then have "incoming_seq p \<noteq> u32_max" using assms(3) by auto
  moreover have "genuine_in inp p"
    using q d(3) by (auto simp: genuine_def genuine_in_def has_type_def h udx_constants)
  moreover have "incoming_ack p \<le> pack" using q(1) by (simp add: genuine_def h)
  ultimately show ?thesis using d(4) by (simp add: good_in_def fresh_packet_def)
qed

lemma set_map_filter_eq: "set (List.map_filter f xs) = {y. \<exists>x \<in> set xs. f x = Some y}"
  by (induction xs) (auto simp: List.map_filter_simps split: option.split)

lemma sent_wire:
  assumes "gso_split split" "sock_event Q h ev" "\<And>p. Q p \<Longrightarrow> 0 < packet_buf_len (p_buf p)"
    and "transmit_of h ev = Some t" "d \<in> set (split t)"
  shows "wire_ok Q d"
proof (cases ev)
  case (Transmit ps)
  then show ?thesis
    using assms split_packet_set [of split Q h ps t d] by (simp add: sock_event_def)
next
  case (TransmitDgram dg)
  then have "split t = [dg_buf dg]"
    using assms(1) [unfolded gso_split_def, THEN spec, of t] assms(4)
    by (auto simp: dgram_into_transmit_def)
  then show ?thesis using assms(2,5) TransmitDgram by (simp add: sock_event_def wire_ok_def)
qed (use assms(4) in simp)

lemma end_inv_socket:
  assumes split: "gso_split split" and e: "end_inv split rid out inp pack e"
    and tx: "tx_rel evs n taken ((fold accept ds (ep_socket e))\<lparr>k_recv_buf := Some buf\<rparr>) k'"
    and buf: "length buf = UDX_MTU * BATCH_SIZE_UNIX"
    and ds: "\<And>addr d. (addr, d) \<in> set ds \<Longrightarrow> wire_ok (genuine rid' pack inp) d"
    and len: "length inp < 4294967295"
  shows "end_inv split rid out inp pack ((after_socket k' e)\<lparr>ep_wire := ep_wire e
    @ concat (map split (drop (length (k_sent (ep_socket e))) (k_sent k')))\<rparr>)"
proof -
  note d = end_invD [OF e]
  define s where "s = ep_stream e"
  define k where "k = ep_socket e"
  define k1 where "k1 = (fold accept ds k)\<lparr>k_recv_buf := Some buf\<rparr>"
  let ?Q = "genuine rid (s_ack s) out"
  note d = d [folded s_def k_def] and tx = tx [folded k_def, folded k1_def]
  have fr: "k_send_rx k1 = k_send_rx k" "k_outgoing_transmits k1 = k_outgoing_transmits k"
    "k_heap k1 = k_heap k" "k_sent k1 = k_sent k"
    using accept_all_frame [of k ds] by (simp_all add: k1_def rx_frame_def)
  let ?ts = "k_outgoing_transmits k @ transmits_of (k_heap k) evs"
  obtain now as where t: "k_send_rx k = evs @ k_send_rx k'" "k_outgoing_transmits k' = drop n ?ts"
    "k_sent k' = k_sent k @ taken" "subseq taken (take n ?ts)" "k_inbox k' = k_inbox k1"
    and heap: "k_heap k' = foldl (set_now now) (k_heap k) as"
    using tx unfolding tx_rel_def counted_def Let_def fr by blast
  have le: "heap_le (k_heap k) (k_heap k')" unfolding heap by (rule heap_le_stamps)
  have good: "wire_ok ?Q x" if tr: "tr \<in> set ?ts" and x: "x \<in> set (split tr)" for tr x
  proof (cases "tr \<in> set (k_outgoing_transmits k)")
    case True
    then show ?thesis using d(11) x by (simp add: sock_good_def)
  next
    case False
    then obtain ev where ev: "ev \<in> set evs" "transmit_of (k_heap k) ev = Some tr"
      using tr unfolding set_append set_map_filter_eq by blast
    then have "sock_event ?Q (k_heap k) ev" using d(11) t(1) by (simp add: sock_good_def)
    from sent_wire [OF split this genuine_len ev(2) x] show ?thesis .
  qed
  let ?new = "map snd (filter (\<lambda>(c, _). c = 0) (k_inbox k'))"
  let ?s = "s\<lparr>s_heap := k_heap k', s_max_gso_segments := k_max_gso_segments k',
    s_recv_rx := s_recv_rx s @ ?new, s_recv_open := (0 \<in> snd ` set (k_streams k'))\<rparr>"
  have new: "good_in inp pack p" if "EventPacket p \<in> set ?new" for p
  proof -
    have "came_in ds (EventPacket p)"
      using that accept_inbox [of ds k] d(5) by (auto simp: t(5) k1_def)
    then show ?thesis using ds len by (rule came_in_good)
  qed
  have rx: "good_in inp pack p" if "EventPacket p \<in> set (s_recv_rx ?s)" for p
    using that new d(13) by auto
  have "acct ?s" using acct_stamps [of s now as] stream_invD(1) [OF d(1)] by (simp add: acct_def heap d(4))
  then have alive: "alive ?s"
    using d(1,2) rx recv_inv_cong [of ?s s] by (auto simp: alive_def stream_inv_def no_max_def good_in_def)
  have sent: "sent_inv out ?s" by (rule sent_inv_step [OF d(7)]) (simp_all add: d(4) le)
  have "sock_inv True BATCH_SIZE_UNIX k'"
    using sock_inv_accept [OF d(10) buf, of ds] tx unfolding k1_def by (rule sock_inv_tx)
  then have inv: "sock_inv True BATCH_SIZE_UNIX (k'\<lparr>k_inbox := []\<rparr>)" by (simp add: sock_inv_def)
  have "sock_event ?Q (k_heap k') ev" if "ev \<in> set (k_send_rx k')" for ev
  proof (rule sock_event_mono [OF _ le])
    show "sock_event ?Q (k_heap k) ev" using d(11) that by (simp add: sock_good_def t(1))
  qed (simp add: genuine_same_cell)
  then have sg: "sock_good split ?Q (k'\<lparr>k_inbox := []\<rparr>)"
    using good in_set_dropD [of _ n ?ts] by (auto simp: sock_good_def t(2))
  have "set taken \<subseteq> set ?ts"
    using list_emb_set [OF t(4)] set_take_subset [of n ?ts] by blast
  then have wire: "wire_ok ?Q x" if "x \<in> set (ep_wire e @ concat (map split taken))" for x
    using that d(12) good by auto
  have eq: "after_socket k' e = e\<lparr>ep_socket := k'\<lparr>k_inbox := []\<rparr>, ep_stream := ?s\<rparr>"
    by (simp add: after_socket_def s_def)
  have taken: "drop (length (k_sent k)) (k_sent k') = taken" by (simp add: t(3))
  show ?thesis
    unfolding eq k_def [symmetric] taken
    by (rule end_invI [where s = ?s and k = "k'\<lparr>k_inbox := []\<rparr>"])
      (use alive d(3,6,8,9,14,15,17) sent inv sg wire rx rcvd_inv_cong [of ?s s] in \<open>simp_all\<close>)
qed


section \<open>Every step keeps the invariant\<close>

lemma step_live:
  assumes S: "sys_inv split ids chunks S" and t: "live_rel (ep_stream (S i)) t"
  shows "sys_inv split ids chunks (S(i := after_stream t (S i)))"
proof -
  have e: "end_inv split (ids (peer i)) (chunks i) (chunks (peer i)) (s_ack (ep_stream (S (peer i)))) (S i)"
    using S by (simp add: sys_inv_def)
  note d = end_invD [OF e] and r = in_relD [OF live_relD(1) [OF t]]
  have "end_inv split (ids (peer i)) (chunks i @ []) (chunks (peer i)) (s_ack (ep_stream (S (peer i))))
      ((after_stream t (S i))\<lparr>ep_written := ep_written (S i) @ concat [], ep_read := ep_read (S i) @ []\<rparr>)"
  proof (rule end_inv_stream [OF e])
    show "alive t" using d(16) t by (rule alive_live)
    show "rcvd_inv (chunks (peer i)) (ep_read (S i) @ []) t"
      using live_relD(4) [OF t, of "chunks (peer i)" "ep_read (S i)"] d(13,14) by (auto simp: good_in_def)
    show "s_remote_acked t \<le> s_ack (ep_stream (S (peer i)))"
      using live_relD(5) [OF t d(15)] d(13) by (auto simp: good_in_def)
  qed (use r d live_relD(3) [OF t] in simp_all)
  moreover have "(after_stream t (S i))\<lparr>ep_written := ep_written (S i) @ concat [], ep_read := ep_read (S i) @ []\<rparr>
      = after_stream t (S i)" by (simp add: after_stream_def)
  ultimately have "sys_inv split ids (chunks(i := chunks i @ [])) (S(i := after_stream t (S i)))"
    using r(12) by (intro sys_inv_update [OF S]) (simp_all add: after_stream_def)
  then show ?thesis by simp
qed

lemma step_write:
  assumes S: "sys_inv split ids chunks S" and w: "write_rel (ep_stream (S i)) cs t"
    and max: "s_seq t \<noteq> u32_max"
  shows "\<exists>chunks'. sys_inv split ids chunks'
    (S(i := (after_stream t (S i))\<lparr>ep_written := ep_written (S i) @ concat cs\<rparr>))"
proof -
  have e: "end_inv split (ids (peer i)) (chunks i) (chunks (peer i)) (s_ack (ep_stream (S (peer i)))) (S i)"
    using S by (simp add: sys_inv_def)
  note d = end_invD [OF e]
  have f: "s_ack t = s_ack (ep_stream (S i))" "s_remote_id t = s_remote_id (ep_stream (S i))"
    "s_recv_rx t = s_recv_rx (ep_stream (S i))" "s_remote_acked t = s_remote_acked (ep_stream (S i))"
    "s_incoming t = s_incoming (ep_stream (S i))" "s_read_cursor t = s_read_cursor (ep_stream (S i))"
    "s_send_open t = s_send_open (ep_stream (S i))" "heap_le (s_heap (ep_stream (S i))) (s_heap t)"
    using w by (simp_all add: write_rel_def)
  have "end_inv split (ids (peer i)) (chunks i @ cs) (chunks (peer i)) (s_ack (ep_stream (S (peer i))))
      ((after_stream t (S i))\<lparr>ep_written := ep_written (S i) @ concat cs, ep_read := ep_read (S i) @ []\<rparr>)"
  proof (rule end_inv_stream [OF e])
    show "alive t" using write_relD(1) [OF w] d(2) f(7) by (simp add: alive_def)
    show "rcvd_inv (chunks (peer i)) (ep_read (S i) @ []) t"
      using d(14) f rcvd_inv_cong [of t "ep_stream (S i)"] by simp
    show "length (chunks i @ cs) < 4294967295"
      using unat_less_max [OF max] write_relD(5) [OF w] d(7) by (simp add: sent_inv_def)
    show "chunk_ok c" if "c \<in> set cs" for c using write_relD(3,4) [OF w that] by (simp add: chunk_ok_def)
  qed (use f d write_relD(2) [OF w] in simp_all)
  moreover have "(after_stream t (S i))\<lparr>ep_written := ep_written (S i) @ concat cs, ep_read := ep_read (S i) @ []\<rparr>
      = (after_stream t (S i))\<lparr>ep_written := ep_written (S i) @ concat cs\<rparr>" by (simp add: after_stream_def)
  ultimately have "sys_inv split ids (chunks(i := chunks i @ cs))
      (S(i := (after_stream t (S i))\<lparr>ep_written := ep_written (S i) @ concat cs\<rparr>))"
    using f(1) by (intro sys_inv_update [OF S]) (simp_all add: after_stream_def)
  then show ?thesis by blast
qed

lemma step_read:
  assumes S: "sys_inv split ids chunks S" and r: "read_rel (ep_stream (S i)) q t"
  shows "sys_inv split ids chunks (S(i := (after_stream t (S i))\<lparr>ep_read := ep_read (S i) @ q\<rparr>))"
proof -
  have e: "end_inv split (ids (peer i)) (chunks i) (chunks (peer i)) (s_ack (ep_stream (S (peer i)))) (S i)"
    using S by (simp add: sys_inv_def)
  note d = end_invD [OF e]
  have f: "stream_inv t" "s_ack t = s_ack (ep_stream (S i))" "s_remote_id t = s_remote_id (ep_stream (S i))"
    "s_recv_rx t = s_recv_rx (ep_stream (S i))" "s_remote_acked t = s_remote_acked (ep_stream (S i))"
    "s_send_open t = s_send_open (ep_stream (S i))" "s_heap t = s_heap (ep_stream (S i))"
    "sent_inv (chunks i) t" "rcvd_inv (chunks (peer i)) (ep_read (S i) @ q) t"
    using r d(7,14) by (simp_all add: read_rel_def)
  have "end_inv split (ids (peer i)) (chunks i @ []) (chunks (peer i)) (s_ack (ep_stream (S (peer i))))
      ((after_stream t (S i))\<lparr>ep_written := ep_written (S i) @ concat [], ep_read := ep_read (S i) @ q\<rparr>)"
    by (rule end_inv_stream [OF e]) (use f d in \<open>simp_all add: alive_def heap_le_refl\<close>)
  moreover have "(after_stream t (S i))\<lparr>ep_written := ep_written (S i) @ concat [], ep_read := ep_read (S i) @ q\<rparr>
      = (after_stream t (S i))\<lparr>ep_read := ep_read (S i) @ q\<rparr>" by (simp add: after_stream_def)
  ultimately have "sys_inv split ids (chunks(i := chunks i @ []))
      (S(i := (after_stream t (S i))\<lparr>ep_read := ep_read (S i) @ q\<rparr>))"
    using f(2) by (intro sys_inv_update [OF S]) (simp_all add: after_stream_def)
  then show ?thesis by simp
qed

lemma step_handle:
  assumes S: "sys_inv split ids chunks S" and k: "sock_inv True BATCH_SIZE_UNIX k"
    and same: "k_heap k = k_heap (ep_socket (S i))" "k_inbox k = k_inbox (ep_socket (S i))"
      "k_outgoing_transmits k = k_outgoing_transmits (ep_socket (S i))"
    and rx: "\<And>ev. ev \<in> set (k_send_rx k) \<Longrightarrow> ev \<in> set (k_send_rx (ep_socket (S i)))
      \<or> (\<exists>dg. ev = TransmitDgram dg \<and> header_dec (dg_buf dg) = None)"
  shows "sys_inv split ids chunks (S(i := (S i)\<lparr>ep_socket := k\<rparr>))"
proof -
  have e: "end_inv split (ids (peer i)) (chunks i) (chunks (peer i)) (s_ack (ep_stream (S (peer i)))) (S i)"
    using S by (simp add: sys_inv_def)
  note d = end_invD [OF e]
  let ?Q = "genuine (ids (peer i)) (s_ack (ep_stream (S i))) (chunks i)"
  have "sock_good split ?Q k"
    using d(11) rx same by (fastforce simp: sock_good_def sock_event_def)
  then have "end_inv split (ids (peer i)) (chunks i @ []) (chunks (peer i)) (s_ack (ep_stream (S (peer i))))
      ((S i)\<lparr>ep_socket := k\<rparr>)"
    using d k same by (intro end_invI [where s = "ep_stream (S i)" and k = k]) simp_all
  then have "sys_inv split ids (chunks(i := chunks i @ [])) (S(i := (S i)\<lparr>ep_socket := k\<rparr>))"
    by (intro sys_inv_update [OF S]) simp_all
  then show ?thesis by simp
qed


definition net_inv :: "(transmit \<Rightarrow> u8 list list) \<Rightarrow> (side \<Rightarrow> u32) \<Rightarrow> system \<Rightarrow> bool" where
  "net_inv split ids S \<longleftrightarrow> (\<exists>chunks. sys_inv split ids chunks S)"

lemma net_inv_joined:
  assumes "joined ids S"
  shows "net_inv split ids S"
proof -
  have "end_inv split (ids (peer i)) [] [] (s_ack (ep_stream (S (peer i)))) (S i)" for i
  proof -
    obtain k0 env dest k s where i: "socket_bound BATCH_SIZE_UNIX k0"
      "socket_connect env dest (ids i) (ids (peer i)) k0 = Some (k, s)"
      "S i = \<lparr>ep_stream = s, ep_socket = k, ep_written = [], ep_read = [], ep_wire = []\<rparr>"
      using assms unfolding joined_def by blast
    let ?s = "stream_connect (kv_now env) (k_heap k0) (k_max_gso_segments k0) dest (ids (peer i)) (ids i)"
    have s: "s = ?s" and k: "k = k0\<lparr>k_next_chan := k_next_chan k0 + 1,
        k_streams := AList.update (ids i) (k_next_chan k0) (k_streams k0)\<rparr>"
      using i(2) by (auto simp: socket_connect_def Let_def split: sum.splits)
    have f: "k_send_rx k0 = []" "k_outgoing_transmits k0 = []" "k_inbox k0 = []"
      using i(1) by (auto simp: socket_bound_def socket_bind_def)
    have "alive ?s" by (simp add: alive_def stream_connect_inv)
    moreover have "s_send_tx ?s = []" "s_heap ?s = k_heap k0" "s_recv_rx ?s = []" "s_remote_acked ?s = 0"
      "s_remote_id ?s = ids (peer i)" by (simp_all add: stream_connect_def Let_def)
    moreover have "sock_inv True BATCH_SIZE_UNIX k"
      using socket_bound_inv [OF i(1), of True] by (simp add: k sock_inv_def)
    ultimately show ?thesis
      using f stream_connect_inv(2,3)
      by (intro end_invI [where s = ?s and k = k]) (simp_all add: i(3) s k sock_good_def)
  qed
  then show ?thesis by (auto simp: net_inv_def sys_inv_def intro: exI [of _ "\<lambda>_. []"])
qed

lemma net_inv_step:
  assumes split: "gso_split split" and inv: "net_inv split ids S" and st: "net_step split S T"
  shows "net_inv split ids T"
proof -
  obtain chunks where S: "sys_inv split ids chunks S" using inv by (auto simp: net_inv_def)
  have e: "end_inv split (ids (peer i)) (chunks i) (chunks (peer i)) (s_ack (ep_stream (S (peer i)))) (S i)" for i
    using S by (simp add: sys_inv_def)
  note d = end_invD [OF e]
  from st have "\<exists>chunks'. sys_inv split ids chunks' T"
  proof cases
    case (net_drive env i t r)
    obtain u q where "stream_driver_poll env (ep_stream (S i)) = Some (u, q)" "live_rel (ep_stream (S i)) u"
      using driver_total [OF d(1) [of i] d(2) [of i], of env] by metis
    then show ?thesis using net_drive step_live [OF S] by auto
  next
    case (net_read env rb i t rb' r)
    obtain u x where "poll_read env rb (ep_stream (S i))
        = Some (u, rb\<lparr>rb_filled := rb_filled rb @ take (rb_remaining rb) (avail (ep_stream (S i)))\<rparr>, x)"
      "read_rel (ep_stream (S i)) (take (rb_remaining rb) (avail (ep_stream (S i)))) u"
      using poll_read_total [OF d(1) [of i], of rb env] by metis
    then show ?thesis using net_read step_read [OF S] by auto
  next
    case (net_write i buf env t r)
    let ?s = "ep_stream (S i)"
    let ?w = "case r of Ready (Inr n) \<Rightarrow> take n buf | _ \<Rightarrow> []"
    have "\<exists>cs. write_rel ?s cs t \<and> ?w = concat cs"
    proof (cases "s_error ?s = None \<and> buf \<noteq> []")
      case False
      then have "t = ?s" "?w = []"
        using poll_write_total [OF d(1) [of i] net_write(2), of env] net_write(3) by (auto split: if_splits)
      then show ?thesis using write_rel_refl [OF d(1) [of i]] by (intro exI [of _ "[]"]) simp
    next
      case True
      then obtain cs where cs: "write_result env buf 0 ?s cs t r"
        using poll_write_total [OF d(1) [of i] net_write(2), of env] net_write(3) by auto
      then have "?w = concat cs" by (auto simp: write_result_def Let_def)
      with cs show ?thesis by (auto simp: write_result_def)
    qed
    then obtain cs where "write_rel ?s cs t" "?w = concat cs" by blast
    then show ?thesis using step_write [OF S, of i cs t] net_write by auto
  next
    case (net_close i tx)
    then show ?thesis using step_live [OF S live_rel_close [OF d(1)]] by blast
  next
    case (net_drop i n)
    then show ?thesis using step_live [OF S live_rel_drop [OF d(1)]] by blast
  next
    case (net_send buf i dest)
    let ?k = "socket_send dest buf (ep_socket (S i))"
    have "sys_inv split ids chunks (S(i := (S i)\<lparr>ep_socket := ?k\<rparr>))"
      using d(10) [of i] net_send
      by (intro step_handle [OF S]) (auto simp: socket_send_def dgram_new_def sock_inv_def sendable_def)
    then show ?thesis using net_send by blast
  next
    case (net_recv i w)
    let ?k = "fst (recv_future_poll w (ep_socket (S i)))"
    have "sys_inv split ids chunks (S(i := (S i)\<lparr>ep_socket := ?k\<rparr>))"
      using d(10) [of i]
      by (intro step_handle [OF S]) (auto simp: recv_future_poll_def sock_inv_def split: list.splits)
    then show ?thesis using net_recv by blast
  next
    case (net_drop_socket i n)
    let ?k = "socket_drop n (ep_socket (S i))"
    have "sys_inv split ids chunks (S(i := (S i)\<lparr>ep_socket := ?k\<rparr>))"
      using d(10) [of i]
      by (intro step_handle [OF S]) (auto simp: socket_drop_def sock_inv_def Let_def split: option.splits if_splits)
    then show ?thesis using net_drop_socket by blast
  next
    case (net_hang_up i)
    let ?k = "(ep_socket (S i))\<lparr>k_hung_up := [0]\<rparr>"
    have "sys_inv split ids chunks (S(i := (S i)\<lparr>ep_socket := ?k\<rparr>))"
      using d(10) [of i] by (intro step_handle [OF S]) (auto simp: sock_inv_def)
    then show ?thesis using net_hang_up by blast
  next
    case (net_socket kern net i env a k' p)
    let ?ds = "all_received (unix_layer_recv net) 1 (MAX_LOOP - 1)"
    obtain k2 p2 buf evs n taken where dr:
      "socket_driver_poll (unix_layer_send kern) (unix_layer_recv net) BATCH_SIZE_UNIX env (ep_socket (S i))
        = Some (k2, p2)" "length buf = UDX_MTU * BATCH_SIZE_UNIX"
      "tx_rel evs n taken ((fold accept ?ds (ep_socket (S i)))\<lparr>k_recv_buf := Some buf\<rparr>) k2"
      using unix_socket.socket_driver_total [OF d(10) [of i] net_socket(5) _ net_socket(3,6), of kern] net_socket(2)
      by blast
    let ?e = "(after_socket k' (S i))\<lparr>ep_wire := ep_wire (S i)
      @ concat (map split (drop (length (k_sent (ep_socket (S i)))) (k_sent k')))\<rparr>"
    have k': "k2 = k'" using dr(1) net_socket(7) by simp
    have "wire_ok (genuine (ids i) (s_ack (ep_stream (S (peer i)))) (chunks (peer i))) x"
      if "(addr, x) \<in> set ?ds" for addr x
    proof -
      have "x \<in> set (ep_wire (S (peer i))) \<or> header_dec x = None"
        using that unix_receiver.all_received_arrived [OF net_socket(3)] net_socket(4)
        by (fastforce simp: deliverable_def)
      then show ?thesis using d(12) [of x "peer i"] by (auto simp: wire_ok_def)
    qed
    then have "end_inv split (ids (peer i)) (chunks i @ []) (chunks (peer i)) (s_ack (ep_stream (S (peer i)))) ?e"
      using end_inv_socket [OF split e dr(3) [unfolded k'] dr(2), of "ids i"] d(9) [of "peer i"] by simp
    then have "sys_inv split ids (chunks(i := chunks i @ [])) (S(i := ?e))"
      by (intro sys_inv_update [OF S]) (simp_all add: after_socket_def)
    then show ?thesis using net_socket by auto
  qed
  then show ?thesis by (simp add: net_inv_def)
qed


text \<open>The steps of the network form a machine whose invariant is \<open>net_inv\<close>.\<close>

lemma network_machine:
  assumes "gso_split split"
  shows "machine (joined ids) (net_step split) (net_inv split ids)"
  by unfold_locales (rule net_inv_joined, assumption, rule net_inv_step [OF assms])

lemma net_reach:
  assumes "gso_split split" "reach (joined ids) (net_step split) S"
  shows "\<exists>chunks. \<forall>i. end_inv split (ids (peer i)) (chunks i) (chunks (peer i))
    (s_ack (ep_stream (S (peer i)))) (S i)"
  using machine.reach_inv [OF network_machine [OF assms(1)] assms(2)] by (auto simp: net_inv_def sys_inv_def)

end
