(* ===== verification/Udx_Network_Run.thy ===== *)
theory Udx_Network_Run
  imports Udx_Network
begin

text \<open>
  Runs of the two endpoints in which nothing is lost. From a state in which both sides are at rest, a
  message is written, sent, received, read and acknowledged, and both sides are at rest again. The
  rounds add up to a run that delivers any amount of data in both directions.
\<close>

section \<open>A kernel that takes everything, a network that hands over given datagrams\<close>

definition handing :: "(socket_addr \<times> u8 list) list \<Rightarrow> unix_network" where
  "handing ds = (ex_linux, linux_abi, \<lambda>i. if i = 1
     then [IsReady [RecvOk (map (\<lambda>(addr, d). kernel_msg linux_abi (addr, [], d)) ds)]] else [NotReady])"

lemma handing_map:
  "map (\<lambda>(addr, d). kernel_msg linux_abi (addr, [], d)) ds
     = map (kernel_msg linux_abi) (map (\<lambda>(addr, d). (addr, [], d)) ds)"
  by (simp add: case_prod_unfold del: kernel_msg.simps)

lemma handing_ok:
  assumes "length ds \<le> BATCH_SIZE_UNIX" "list_all (\<lambda>(addr, d). length d \<le> UDX_MTU) ds"
  shows "unix_network_ok (handing ds)"
proof -
  have "\<exists>ks. map (\<lambda>(addr, d). kernel_msg linux_abi (addr, [], d)) ds = map (kernel_msg linux_abi) ks
      \<and> length ks \<le> BATCH_SIZE_UNIX \<and> list_all fits_buffer ks"
    by (intro exI [of _ "map (\<lambda>(addr, d). (addr, [], d)) ds"] conjI handing_map)
      (use assms in \<open>auto simp: list_all_iff\<close>)
  moreover have "abi_len linux_abi 4 \<noteq> abi_len linux_abi 1" by (simp add: linux_abi_def)
  ultimately show ?thesis
    by (auto simp: unix_network_ok_def handing_def linux_abi_ok recv_kernel_ok_def split: if_splits)
qed

lemma handing_arrived: "unix_arrived (handing ds) \<subseteq> set ds"
proof -
  have "(addr, data) \<in> set ds"
    if "map (kernel_msg linux_abi) ks = map (\<lambda>(addr, d). kernel_msg linux_abi (addr, [], d)) ds"
      "(addr, info, data) \<in> set ks" for addr info data ks
  proof -
    have "kernel_msg linux_abi (addr, info, data) \<in> set (map (kernel_msg linux_abi) ks)"
      using that(2) by (simp del: kernel_msg.simps)
    then show ?thesis unfolding that(1) by auto
  qed
  then show ?thesis by (auto simp: unix_arrived_def handing_def split: if_splits)
qed

lemma handing_first:
  assumes "length ds \<le> BATCH_SIZE_UNIX"
  shows "unix_layer_recv (handing ds) 1 = Some (Ready (Inr (handed_over (map (\<lambda>(addr, d). (addr, [], d)) ds))))"
proof -
  let ?ks = "map (\<lambda>(addr, d). (addr, [], d)) ds"
  have lens: "abi_len linux_abi 4 \<noteq> abi_len linux_abi 1" by (simp add: linux_abi_def)
  have "those (map (\<lambda>m. decode_recv ex_linux linux_abi m (length (rv_data m))) (map (kernel_msg linux_abi) ?ks))
      = Some (map kernel_meta ?ks)"
    unfolding map_map comp_def rv_data_kernel_msg using lens
    by (intro those_map_Some) (rule decode_kernel_msg [OF linux_abi_ok])
  moreover have zip: "zip (map rv_data (map (kernel_msg linux_abi) ks)) (map kernel_meta ks) = handed_over ks" for ks
    by (induction ks) simp_all
  ultimately show ?thesis
    using assms
    by (simp add: unix_layer_recv_def handing_def unix_poll_recv_def handing_map zip del: kernel_msg.simps map_map)
qed

lemma handing_received:
  assumes "length ds \<le> BATCH_SIZE_UNIX"
  shows "all_received (unix_layer_recv (handing ds)) 1 (MAX_LOOP - 1) = ds"
proof -
  have "unix_layer_recv (handing ds) (Suc 1) = Some Pending"
    by (simp add: unix_layer_recv_def handing_def unix_poll_recv_def)
  then have "all_received (unix_layer_recv (handing ds)) 1 (Suc (Suc n)) = ds" for n
    using handing_first [OF assms] by (simp add: comp_def case_prod_unfold)
  from this [of 57] show ?thesis by (simp add: MAX_LOOP_def)
qed

lemma ex_kernel_takes:
  assumes "length ts \<le> BATCH_SIZE_UNIX"
  shows "unix_layer_send ex_kernel gso lse ts = Some ((gso, lse, ts), Ready (Inr (length ts)))"
proof -
  have "prepare_msg ex_linux linux_abi t \<noteq> None" for t
    by (rule prepare_msg_total [OF linux_abi_ok, of ex_linux t]) (simp_all add: can_segment_def ex_linux_def)
  then obtain ms where "those (map (prepare_msg ex_linux linux_abi) (take BATCH_SIZE_UNIX ts)) = Some ms"
    using those_map_Some [of "take BATCH_SIZE_UNIX ts" "prepare_msg ex_linux linux_abi"
        "\<lambda>t. the (prepare_msg ex_linux linux_abi t)"] by auto
  then show ?thesis
    using assms by (simp add: unix_layer_send_def ex_kernel_def unix_poll_send_def unix_send_def)
qed


section \<open>A round of a socket\<close>

lemma length_map_filter: "length (List.map_filter f xs) \<le> length xs"
  by (induction xs) (auto simp: List.map_filter_simps split: option.split)

lemma length_sets_of: "list_all (sendable True) evs \<Longrightarrow>
    length (List.map_filter set_of evs) \<le> length (transmits_of h evs)"
proof (induction evs)
  case (Cons ev evs)
  then show ?case
    using sendable_transmit [of True _ h] by (cases ev) (fastforce simp: List.map_filter_simps)+
qed simp

lemma fill_all:
  assumes inv: "sock_inv True BATCH_SIZE_UNIX k" and k: "k_outgoing_transmits k = []"
    and len: "length (k_send_rx k) < budget" "budget \<le> BATCH_SIZE_UNIX"
  shows "\<exists>c. fill_transmits BATCH_SIZE_UNIX budget k = Some (filled (k_send_rx k) [] k, c)"
proof -
  have "list_all (sendable True) (k_send_rx k)" using inv by (simp add: sock_inv_def)
  from fill_transmits_filled [OF this] obtain evs rest c where fill:
    "fill_transmits BATCH_SIZE_UNIX budget k = Some (filled evs rest k, c)" "k_send_rx k = evs @ rest"
    "c \<longrightarrow> rest = [] \<or> length evs = budget"
    "\<not> c \<longrightarrow> BATCH_SIZE_UNIX \<le> length (k_outgoing_transmits (filled evs rest k))" by blast
  have "length evs < budget" using fill(2) len(1) by simp
  moreover have "length (k_outgoing_transmits (filled evs rest k)) \<le> length evs"
    using length_map_filter [of "transmit_of (k_heap k)" evs] by (simp add: filled_def k)
  ultimately have "rest = []" using fill(3,4) len(2) by (cases c) auto
  with fill(1,2) show ?thesis by auto
qed

lemma poll_transmit_all:
  assumes inv: "sock_inv True BATCH_SIZE_UNIX k" and k: "k_outgoing_transmits k = []" "k_outgoing_packet_sets k = []"
    and len: "length (k_send_rx k) < kv_budget env" "kv_budget env \<le> BATCH_SIZE_UNIX" "kv_slice env = BATCH_SIZE_UNIX"
  defines "ts \<equiv> transmits_of (k_heap k) (k_send_rx k)"
  shows "\<exists>k' c. socket_poll_transmit (unix_layer_send ex_kernel) BATCH_SIZE_UNIX env k = Some (k', Inr c)
    \<and> tx_rel (k_send_rx k) (length ts) ts k k' \<and> k_outgoing_packet_sets k' = []
    \<and> k_send_overflow_timer k' = k_send_overflow_timer k"
proof -
  let ?k = "filled (k_send_rx k) [] k"
  obtain c where fill: "fill_transmits BATCH_SIZE_UNIX (kv_budget env) k = Some (?k, c)"
    using fill_all [OF inv k(1) len(1,2)] by blast
  have out: "k_outgoing_transmits ?k = ts" by (simp add: filled_def k ts_def)
  have sr: "list_all (sendable True) (k_send_rx k)" using inv by (simp add: sock_inv_def)
  have sets: "length (k_outgoing_packet_sets ?k) \<le> length ts"
    using length_sets_of [OF sr] by (simp add: filled_def k ts_def)
  have ts: "length ts \<le> BATCH_SIZE_UNIX"
    using length_map_filter [of "transmit_of (k_heap k)" "k_send_rx k"] len(1,2) unfolding ts_def by linarith
  show ?thesis
  proof (cases "ts = []")
    case True
    have "tx_rel (k_send_rx k) (length ts) ts k ?k"
      using True by (auto simp: tx_rel_def filled_def k counted_0 ts_def intro: exI [of _ 0])
    moreover have "k_outgoing_packet_sets ?k = []" using sets True by simp
    moreover have "socket_poll_transmit (unix_layer_send ex_kernel) BATCH_SIZE_UNIX env k = Some (?k, Inr False)"
      using fill out True by (simp add: socket_poll_transmit_def)
    moreover have "k_send_overflow_timer ?k = k_send_overflow_timer k" by (simp add: filled_def)
    ultimately show ?thesis by blast
  next
    case False
    have "list_all (transmit_ok True) ts" unfolding ts_def using sr by (rule filled_transmits_ok)
    then obtain st where st: "track_all env ts (k_stats ?k) = Some st"
      using track_all_total by blast
    have send: "unix_layer_send ex_kernel g l (take (kv_slice env) ts) = Some ((g, l, ts), Ready (Inr (length ts)))" for g l
      using ex_kernel_takes [OF ts] ts len(3) by simp
    let ?k' = "?k\<lparr>k_sent := k_sent ?k @ ts, k_stats := st, k_outgoing_transmits := [], k_outgoing_packet_sets := [],
      k_heap := foldl (set_now (kv_now env)) (k_heap ?k) (concat (map iter_shared (k_outgoing_packet_sets ?k)))\<rparr>"
    have "socket_poll_transmit (unix_layer_send ex_kernel) BATCH_SIZE_UNIX env k = Some (?k', Inr (\<not> c))"
      using fill out False send st sets by (simp add: socket_poll_transmit_def Let_def min_def)
    moreover have "tx_rel (k_send_rx k) (length ts) ts k ?k'"
      using sets by (auto simp: tx_rel_def filled_def k ts_def counted_def Let_def)
    moreover have "k_send_overflow_timer ?k' = k_send_overflow_timer k" by (simp add: filled_def)
    ultimately show ?thesis by (intro exI [of _ ?k'] exI [of _ "\<not> c"]) simp
  qed
qed


definition idle_socket :: "udx_socket \<Rightarrow> bool" where
  "idle_socket k \<longleftrightarrow> k_outgoing_transmits k = [] \<and> k_outgoing_packet_sets k = [] \<and> k_send_overflow_timer k = None"

lemma handing_no_error: "length ds \<le> BATCH_SIZE_UNIX \<Longrightarrow> unix_layer_recv (handing ds) i \<noteq> Some (Ready (Inl e))"
proof (cases "i = 1")
  case False
  then show ?thesis by (simp add: unix_layer_recv_def handing_def unix_poll_recv_def)
qed (simp only: handing_first, simp)

lemma sock_round:
  assumes inv: "sock_inv True BATCH_SIZE_UNIX k" and idle: "idle_socket k" and len: "length (k_send_rx k) < 10"
    and ds: "length ds \<le> BATCH_SIZE_UNIX" "list_all (\<lambda>(addr, d). length d \<le> UDX_MTU) ds"
  defines "ts \<equiv> transmits_of (k_heap k) (k_send_rx k)"
  shows "\<exists>k' p buf. socket_driver_poll (unix_layer_send ex_kernel) (unix_layer_recv (handing ds)) BATCH_SIZE_UNIX
      ex_kenv k = Some (k', p)
    \<and> idle_socket k' \<and> tx_rel (k_send_rx k) (length ts) ts ((fold accept ds k)\<lparr>k_recv_buf := Some buf\<rparr>) k'"
proof -
  obtain buf0 where buf0: "k_recv_buf k = Some buf0" "length buf0 = UDX_MTU * BATCH_SIZE_UNIX"
    using inv by (auto simp: sock_inv_def)
  obtain buf res where rx: "socket_poll_recv (unix_layer_recv (handing ds)) BATCH_SIZE_UNIX ex_kenv k
      = Some ((fold accept ds k)\<lparr>k_recv_buf := Some buf\<rparr>, res)" "length buf = UDX_MTU * BATCH_SIZE_UNIX"
    "\<forall>e. res \<noteq> Inl e"
    using unix_receiver.poll_recv_accept [OF handing_ok [OF ds] _ buf0, of ex_kenv ex_bound] handing_no_error [OF ds(1)]
    unfolding handing_received [OF ds(1)] accept_all_recv_buf by (auto simp: ex_kenv_def)
  obtain c where c: "res = Inr c" using rx(3) by (cases res) auto
  define k1 where "k1 = (fold accept ds k)\<lparr>k_recv_buf := Some buf\<rparr>"
  note rx = rx(1) [folded k1_def] rx(2)
  have inv1: "sock_inv True BATCH_SIZE_UNIX k1" unfolding k1_def using inv rx(2) by (rule sock_inv_accept)
  have fr: "k_send_rx k1 = k_send_rx k" "k_outgoing_transmits k1 = []" "k_outgoing_packet_sets k1 = []"
    "k_heap k1 = k_heap k" "k_send_overflow_timer k1 = None"
    using accept_all_frame [of k ds] idle by (simp_all add: k1_def rx_frame_def idle_socket_def)
  obtain k2 c2 where tx: "socket_poll_transmit (unix_layer_send ex_kernel) BATCH_SIZE_UNIX ex_kenv k1 = Some (k2, Inr c2)"
    "tx_rel (k_send_rx k) (length ts) ts k1 k2" "k_outgoing_packet_sets k2 = []" "k_send_overflow_timer k2 = None"
    using poll_transmit_all [OF inv1 fr(2,3), of ex_kenv] len
    by (auto simp: fr ts_def ex_kenv_def BATCH_SIZE_UNIX_def)
  have idle2: "idle_socket (k2\<lparr>k_woken := w\<rparr>)" "idle_socket (k2\<lparr>k_drive_waker := v\<rparr>)" "idle_socket k2" for w v
    using tx(2-4) by (simp_all add: idle_socket_def tx_rel_def Let_def fr ts_def)
  have same: "tx_rel (k_send_rx k) (length ts) ts k1 (k2\<lparr>k_woken := w\<rparr>)"
    "tx_rel (k_send_rx k) (length ts) ts k1 (k2\<lparr>k_drive_waker := v\<rparr>)" for w v
    using tx(2) by (simp_all add: tx_rel_def)
  have "socket_driver_poll (unix_layer_send ex_kernel) (unix_layer_recv (handing ds)) BATCH_SIZE_UNIX ex_kenv k =
      (if \<not> (c \<or> c2) \<and> \<not> k_has_refs k2 \<and> k_streams k2 = [] then Some (k2, Ready (Inr ()))
       else if c \<or> c2 then Some (k2\<lparr>k_woken := k_woken k2 @ [kv_waker ex_kenv]\<rparr>, Pending)
       else Some (k2\<lparr>k_drive_waker := Some (kv_waker ex_kenv)\<rparr>, Pending))"
    unfolding socket_driver_poll_def rx(1) c by (simp add: fr tx(1))
  then have "\<exists>k' p. socket_driver_poll (unix_layer_send ex_kernel) (unix_layer_recv (handing ds)) BATCH_SIZE_UNIX
      ex_kenv k = Some (k', p) \<and> idle_socket k' \<and> tx_rel (k_send_rx k) (length ts) ts k1 k'"
    using tx(2) same idle2 by (simp split: if_split)
  then show ?thesis unfolding k1_def by blast
qed


section \<open>Polls of a stream in which nothing is lost\<close>

definition run_env :: env where
  "run_env = \<lparr>e_now = 0, e_elapsed = (\<lambda>_. 0), e_sleep_ready = (\<lambda>_. False), e_recv_budget = 2, e_waker = 0\<rparr>"

text \<open>\<open>calm\<close>: nothing waits to be handled, sent or read. \<open>at_rest\<close>: and everything is
  acknowledged. \<open>awaiting\<close>: and all but the last packet.\<close>

definition calm :: "udx_stream \<Rightarrow> bool" where
  "calm s \<longleftrightarrow> s_error s = None \<and> s_state s = Open \<and> s_send_queue s = [] \<and> s_incoming s = [] \<and> s_recv_rx s = []
     \<and> s_recv_open s \<and> s_on_firewall s = None \<and> s_read_cursor s = s_ack s"

definition at_rest :: "udx_stream \<Rightarrow> bool" where
  "at_rest s \<longleftrightarrow> calm s \<and> s_outgoing s = [] \<and> s_remote_acked s = s_seq s"

definition awaiting :: "udx_stream \<Rightarrow> bool" where
  "awaiting s \<longleftrightarrow> calm s \<and> (\<forall>k. k \<noteq> s_remote_acked s \<longrightarrow> map_of (s_outgoing s) k = None)
     \<and> s_seq s = s_remote_acked s + 1"

text \<open>The cell of the one packet that awaits its acknowledgement and may be sent again.\<close>

definition in_flight :: "udx_stream \<Rightarrow> arc \<Rightarrow> bool" where
  "in_flight s c \<longleftrightarrow> s_outgoing s = [(s_remote_acked s, c)] \<and> \<not> p_waiting (s_heap s ! c) \<and> \<not> p_skip (s_heap s ! c)
     \<and> p_transmits (s_heap s ! c) \<le> unat UDX_MAX_TRANSMITS \<and> hdr_typ (p_header (s_heap s ! c)) = UDX_HEADER_DATA"

lemma set_now_nth:
  "b < length h \<Longrightarrow> set_now now h c ! b = (if c = b then (h ! b)\<lparr>p_time_sent := Some now\<rparr> else h ! b)"
  by (simp add: set_now_def nth_list_update)

lemma length_set_now [simp]: "length (set_now now h c) = length h"
  by (simp add: set_now_def)

lemma length_stamps [simp]: "length (foldl (set_now now) h cs) = length h"
  by (induction cs rule: rev_induct) simp_all

lemma stamps_nth: "c < length h \<Longrightarrow> \<exists>n. foldl (set_now now) h cs ! c = (h ! c)\<lparr>p_time_sent := n\<rparr>"
proof (induction cs rule: rev_induct)
  case Nil
  then show ?case by (intro exI [of _ "p_time_sent (h ! c)"]) simp
next
  case (snoc b cs)
  then obtain n where "foldl (set_now now) h cs ! c = (h ! c)\<lparr>p_time_sent := n\<rparr>" by blast
  then show ?case using snoc.prems by (cases "b = c") (auto simp: set_now_nth)
qed

definition one_set :: "udx_stream \<Rightarrow> packet_ref \<Rightarrow> packet_set" where
  "one_set s r = packet_set_new (s_remote_addr s) [r] (packet_buf_len (p_buf (deref (s_heap s) r)))"

lemma poll_transmit_one:
  assumes "s_send_open s" "s_send_queue s = [r]" "0 < packet_buf_len (p_buf (deref (s_heap s) r))"
  shows "poll_transmit s = Some (s\<lparr>s_send_queue := [], s_send_tx := s_send_tx s @ [Transmit (one_set s r)]\<rparr>)"
  using assms by (simp add: poll_transmit_def transmit_loop.simps one_set_def Let_def)

lemma poll_transmit_none: "s_send_queue s = [] \<Longrightarrow> poll_transmit s = Some s"
  by (simp add: poll_transmit_def transmit_loop.simps Let_def)

lemma driver_run:
  assumes "s_error s = None" "poll_incoming run_env (s\<lparr>s_drive_waker := None\<rparr>) = Some (u, Inr ())"
    and "flush_waiting_packets u = u" "poll_transmit u = Some t"
  shows "stream_driver_poll run_env s = Some (t\<lparr>s_drive_waker := Some 0\<rparr>, Pending)"
  using assms
  by (simp add: stream_driver_poll_def closed_and_drained_def poll_drive_def poll_check_timeouts_def run_env_def)

lemma poll_incoming_empty:
  "s_recv_rx s = [] \<Longrightarrow> s_recv_open s \<Longrightarrow> poll_incoming run_env s = Some (s, Inr ())"
  by (simp add: poll_incoming_def run_env_def numeral_2_eq_2 handle_incoming_max_remote_ack_def)

lemma poll_incoming_one:
  assumes "s_recv_rx s = [EventPacket p]" "handle_incoming run_env p (s\<lparr>s_recv_rx := []\<rparr>) = Some u"
    "s_recv_rx u = []" "s_recv_open u"
    "handle_incoming_max_remote_ack run_env (incoming_ack p) u = Some t"
  shows "poll_incoming run_env s = Some (t, Inr ())"
  using assms by (simp add: poll_incoming_def run_env_def numeral_2_eq_2)

lemma flush_none: "s_seq u = s_remote_acked u \<Longrightarrow> flush_waiting_packets u = u"
  by (simp add: flush_waiting_packets_def)

text \<open>The write.\<close>

lemma write_one:
  assumes "stream_inv s" "at_rest s" "buf \<noteq> []" "length buf \<le> 1380" "s_seq s \<noteq> u32_max"
  shows "poll_write run_env buf s = Some (pushed s buf, Ready (Inr (length buf)))"
  using assms(2) by (intro poll_write_one [OF assms(1) _ _ assms(3-5)]) (simp_all add: at_rest_def calm_def)

text \<open>The poll that hands the packet to the socket.\<close>

lemma drive_pushed:
  fixes buf :: "u8 list"
  assumes "stream_inv s" "s_send_open s" "at_rest s" "s_seq s \<noteq> u32_max"
  defines "u \<equiv> (pushed s buf)\<lparr>s_drive_waker := None\<rparr>"
  shows "stream_driver_poll run_env (pushed s buf) = Some (u\<lparr>s_send_queue := [],
     s_send_tx := s_send_tx s @ [Transmit (one_set u (Shared (length (s_heap s))))], s_drive_waker := Some 0\<rparr>, Pending)"
proof (rule driver_run)
  have less: "s_seq s < s_seq s + 1" using assms(4) by (simp add: word_less_nat_alt unat_u32_inc)
  have r: "s_remote_acked s = s_seq s" "s_outgoing s = []" "s_send_queue s = []" "calm s"
    using assms(3) by (auto simp: at_rest_def calm_def)
  show "s_error (pushed s buf) = None" using r(4) by (simp add: pushed_def calm_def)
  show "poll_incoming run_env ((pushed s buf)\<lparr>s_drive_waker := None\<rparr>) = Some (u, Inr ())"
    unfolding u_def using r(4) by (intro poll_incoming_empty) (simp_all add: pushed_def calm_def)
  show "flush_waiting_packets u = u"
    using r u32_range_Cons [OF less]
    by (simp add: flush_waiting_packets_def u_def pushed_def data_packet_def nth_append)
  show "poll_transmit u = Some (u\<lparr>s_send_queue := [],
     s_send_tx := s_send_tx s @ [Transmit (one_set u (Shared (length (s_heap s))))]\<rparr>)"
    using poll_transmit_one [of u "Shared (length (s_heap s))"] assms(2) r(3)
    by (simp add: u_def pushed_def data_packet_def nth_append)
qed


text \<open>The poll that receives the packet: the data becomes readable and an acknowledgement goes to the socket.\<close>

definition ack_packet :: "udx_stream \<Rightarrow> packet" where
  "ack_packet s = packet_new (s_remote_addr s)
     \<lparr>hdr_typ = 0, hdr_data_offset = 0, hdr_stream_id = s_remote_id s, hdr_recv_win = u32_max,
      hdr_seq = s_seq s, hdr_ack = s_ack s\<rparr> []"

lemma advance_ack_one:
  assumes "s_incoming s = [(s_ack s, p)]" "s_ack s \<noteq> u32_max"
  shows "advance_ack s = Some (s\<lparr>s_ack := s_ack s + 1\<rparr>)"
proof -
  have "s_ack s + 1 \<noteq> s_ack s" by simp
  then show ?thesis
    using assms by (simp add: advance_ack.simps [of s] advance_ack.simps [of "s\<lparr>s_ack := s_ack s + 1\<rparr>"] u32_inc_def)
qed

lemma receive_data_one:
  assumes "s_incoming s = []" "incoming_seq p = s_ack s" "s_ack s \<noteq> u32_max" "s_state s = Open" "s_error s = None"
  shows "\<exists>w st. receive_data p s = Some (s\<lparr>s_incoming := [(s_ack s, p)], s_ack := s_ack s + 1,
    s_read_waker := None, s_drive_waker := None, s_woken := w, s_stats := st,
    s_send_queue := s_send_queue s @ [Owned (ack_packet (s\<lparr>s_ack := s_ack s + 1\<rparr>))]\<rparr>)"
proof -
  have "s_ack s \<le> s_ack s + 1" using assms(3) by (simp add: word_le_nat_alt unat_u32_inc)
  then show ?thesis
    using assms advance_ack_one [of "s\<lparr>s_stats := (s_stats s)\<lparr>st_rx_bytes := st_rx_bytes (s_stats s) + incoming_data_len p\<rparr>,
        s_incoming := [(s_ack s, p)]\<rparr>" p]
    by (intro exI [of _ "s_woken s @ waker_list (s_read_waker s) @ waker_list (s_drive_waker s)"]
        exI [of _ "tx_packets_inc ((s_stats s)\<lparr>st_rx_bytes := st_rx_bytes (s_stats s) + incoming_data_len p\<rparr>)"])
      (simp add: receive_data_def send_state_packet_eq wake_eqs ack_packet_def create_packet_def create_header_def
        state_typ_def local_closed_def Let_def)
qed

lemma data_only: "hdr_typ (ip_header p) = UDX_HEADER_DATA \<Longrightarrow>
    has_type p UDX_HEADER_DATA \<and> \<not> has_type p UDX_HEADER_SACK \<and> \<not> has_type p UDX_HEADER_END"
  by (simp add: has_type_def udx_constants)

lemma drive_data:
  assumes s: "s_send_open s" "at_rest (s\<lparr>s_recv_rx := []\<rparr>)" "s_recv_rx s = [EventPacket p]"
    and p: "hdr_typ (ip_header p) = UDX_HEADER_DATA" "incoming_seq p = s_ack s" "incoming_ack p \<le> s_seq s"
    and max: "s_ack s \<noteq> u32_max"
  defines "u \<equiv> s\<lparr>s_ack := s_ack s + 1\<rparr>"
  shows "\<exists>w st. stream_driver_poll run_env s = Some (u\<lparr>s_recv_rx := [], s_incoming := [(s_ack s, p)],
    s_read_waker := None, s_drive_waker := Some 0, s_woken := w, s_stats := st,
    s_send_tx := s_send_tx s @ [Transmit (one_set u (Owned (ack_packet u)))]\<rparr>, Pending)"
proof -
  let ?s = "s\<lparr>s_drive_waker := None, s_recv_rx := [],
    s_stats := (s_stats s)\<lparr>st_rx_packets := st_rx_packets (s_stats s) + 1\<rparr>\<rparr>"
  have r: "s_error s = None" "s_state s = Open" "s_send_queue s = []" "s_incoming s = []" "s_recv_open s"
    "s_on_firewall s = None" "s_remote_acked s = s_seq s"
    using s(2) by (simp_all add: at_rest_def calm_def)
  obtain w st where w: "receive_data p ?s = Some (?s\<lparr>s_incoming := [(s_ack s, p)], s_ack := s_ack s + 1,
      s_read_waker := None, s_drive_waker := None, s_woken := w, s_stats := st,
      s_send_queue := [Owned (ack_packet u)]\<rparr>)"
    using receive_data_one [of ?s p] r p(2) max by (auto simp: ack_packet_def u_def)
  define v where "v = ?s\<lparr>s_incoming := [(s_ack s, p)], s_ack := s_ack s + 1,
      s_read_waker := None, s_drive_waker := None, s_woken := w, s_stats := st, s_send_queue := [Owned (ack_packet u)]\<rparr>"
  note w = w [folded v_def]
  have v: "s_seq v = s_seq s" "s_remote_acked v = s_seq s" "s_send_queue v = [Owned (ack_packet u)]" "s_recv_rx v = []"
    "s_recv_open v" "s_send_open v" "s_send_tx v = s_send_tx s" "s_remote_addr v = s_remote_addr s"
    using r s(1) by (simp_all add: v_def)
  have "handle_incoming run_env p ((s\<lparr>s_drive_waker := None\<rparr>)\<lparr>s_recv_rx := []\<rparr>) = Some v"
    using data_only [OF p(1)] r w p(3) [THEN leD] v(1,2) by (simp add: handle_incoming_def Let_def)
  then have "poll_incoming run_env (s\<lparr>s_drive_waker := None\<rparr>) = Some (v, Inr ())"
    by (rule poll_incoming_one [rotated]) (use s(3) v p(3) in \<open>simp_all add: handle_incoming_max_remote_ack_def\<close>)
  moreover have "poll_transmit v = Some (v\<lparr>s_send_queue := [],
      s_send_tx := s_send_tx s @ [Transmit (one_set u (Owned (ack_packet u)))]\<rparr>)"
    using poll_transmit_one [of v "Owned (ack_packet u)"] v
    by (simp add: one_set_def u_def ack_packet_def)
  ultimately have "stream_driver_poll run_env s = Some (v\<lparr>s_send_queue := [],
      s_send_tx := s_send_tx s @ [Transmit (one_set u (Owned (ack_packet u)))], s_drive_waker := Some 0\<rparr>, Pending)"
    using r(1) v by (intro driver_run [of s v] flush_none) simp_all
  then show ?thesis using r(3) by (intro exI [of _ w] exI [of _ st]) (simp add: v_def u_def)
qed

text \<open>The poll that receives the acknowledgement.\<close>

lemma grow_cwnd_eq: "\<exists>c. grow_cwnd s = s\<lparr>s_cwnd := c\<rparr> \<and> s_cwnd s \<le> c"
proof (cases "s_cwnd s < SSTHRESH")
  case True
  then show ?thesis by (intro exI [of _ "s_cwnd s + UDX_MTU"]) (simp add: grow_cwnd_def)
next
  case False
  then show ?thesis
    by (intro exI [of _ "s_cwnd s + max ((UDX_MTU * UDX_MTU) div s_cwnd s) 1"]) (simp add: grow_cwnd_def)
qed

lemma drive_ack:
  assumes inv: "stream_inv s" and s: "awaiting (s\<lparr>s_recv_rx := []\<rparr>)" "s_recv_rx s = [EventPacket p]"
    and p: "hdr_typ (ip_header p) = 0" "incoming_ack p = s_seq s" and less: "s_remote_acked s < s_seq s"
  shows "\<exists>t. stream_driver_poll run_env s = Some (t, Pending) \<and> at_rest t \<and> s_send_tx t = s_send_tx s
    \<and> s_seq t = s_seq s \<and> s_ack t = s_ack s \<and> s_local_id t = s_local_id s"
proof -
  let ?s = "s\<lparr>s_drive_waker := None, s_recv_rx := [],
    s_stats := (s_stats s)\<lparr>st_rx_packets := st_rx_packets (s_stats s) + 1\<rparr>\<rparr>"
  have r: "s_error s = None" "s_state s = Open" "s_send_queue s = []" "s_incoming s = []" "s_recv_open s"
    "s_on_firewall s = None" "s_read_cursor s = s_ack s"
    "\<And>k. k \<noteq> s_remote_acked s \<Longrightarrow> map_of (s_outgoing s) k = None" "s_seq s = s_remote_acked s + 1"
    using s(1) by (simp_all add: awaiting_def calm_def)
  obtain c where c: "grow_cwnd ?s = ?s\<lparr>s_cwnd := c\<rparr>" "s_cwnd s \<le> c" using grow_cwnd_eq [of ?s] by auto
  have "acct (?s\<lparr>s_cwnd := c\<rparr>)" using stream_invD(1) [OF inv] c(2) by (simp add: acct_def)
  then obtain t where t: "handle_incoming_max_remote_ack run_env (s_seq s) (?s\<lparr>s_cwnd := c\<rparr>) = Some t"
    "tx_frame (?s\<lparr>s_cwnd := c\<rparr>) t" "s_remote_acked t = max (s_seq s) (s_remote_acked s)" "s_send_queue t = []"
    "s_send_tx t = s_send_tx s"
    "map_of (s_outgoing t) = (\<lambda>k. if s_remote_acked s \<le> k \<and> k < s_seq s then None else map_of (s_outgoing s) k)"
    by (rule max_remote_ack_total [where env = run_env and ack = "s_seq s"]) (simp add: r(3) cong: if_cong)
  note f = tx_frameD [OF t(2)]
  have "map_of (s_outgoing t) k = None" for k
    unfolding t(6) using r(8) [of k] less by (cases "k = s_remote_acked s") auto
  then have "map_of (s_outgoing t) = Map.empty" by (rule ext)
  then have "s_outgoing t = []" by simp
  moreover have acked: "s_remote_acked t = s_seq t" using t(3) less f(1) by (simp add: max_absorb1)
  ultimately have rest: "at_rest (t\<lparr>s_drive_waker := w\<rparr>)" for w using r f t(4) by (simp add: at_rest_def calm_def)
  have "handle_incoming run_env p ((s\<lparr>s_drive_waker := None\<rparr>)\<lparr>s_recv_rx := []\<rparr>) = Some (?s\<lparr>s_cwnd := c\<rparr>)"
    using r p less c(1) by (simp add: handle_incoming_def has_type_def)
  then have "poll_incoming run_env (s\<lparr>s_drive_waker := None\<rparr>) = Some (t, Inr ())"
    by (rule poll_incoming_one [rotated]) (use s(2) r p t in simp_all)
  moreover have "poll_transmit t = Some t" using t(4) by (rule poll_transmit_none)
  ultimately have "stream_driver_poll run_env s = Some (t\<lparr>s_drive_waker := Some 0\<rparr>, Pending)"
    using r(1) acked by (intro driver_run [of s t] flush_none) simp_all
  then show ?thesis using rest t(5) f by auto
qed


text \<open>The read.\<close>

lemma read_one:
  assumes "s_incoming s = [(s_read_cursor s, p)]" "ip_read_offset p = 0" "s_read_cursor s \<noteq> u32_max"
  shows "poll_read run_env \<lparr>rb_filled = [], rb_capacity = length (ip_buf p)\<rparr> s
    = Some (s\<lparr>s_incoming := [], s_read_cursor := s_read_cursor s + 1\<rparr>,
        \<lparr>rb_filled = ip_buf p, rb_capacity = length (ip_buf p)\<rparr>, Ready (Inr ()))"
  using assms
  by (simp add: poll_read_def read_next.simps u32_inc_def usize_sub_def slice_def put_slice_def rb_remaining_def)

section \<open>Rounds of the two endpoints\<close>

definition two :: "side \<Rightarrow> endpoint \<Rightarrow> endpoint \<Rightarrow> system" where
  "two i a b = (\<lambda>j. if j = i then a else b)"

lemma two_simps [simp]:
  "two i a b i = a" "two i a b (peer i) = b" "(two i a b)(i := x) = two i x b" "(two i a b)(peer i := x) = two i a x"
  "two (peer i) a b = two i b a"
  by (auto simp: two_def fun_eq_iff) (metis side.exhaust peer.simps)+

lemma two_eta: "two i (S i) (S (peer i)) = S"
  by (auto simp: two_def fun_eq_iff) (metis side.exhaust peer.simps)

definition rest_socket :: "u32 \<Rightarrow> udx_socket \<Rightarrow> bool" where
  "rest_socket lid k \<longleftrightarrow> idle_socket k \<and> k_send_rx k = [] \<and> k_streams k = [(lid, 0)] \<and> k_hung_up k = []"

lemma socket_round:
  assumes inv: "sock_inv True BATCH_SIZE_UNIX (ep_socket a)" and idle: "idle_socket (ep_socket a)"
    and len: "length (k_send_rx (ep_socket a)) < 10"
    and ds: "length ds \<le> BATCH_SIZE_UNIX" "list_all (\<lambda>(addr, d). length d \<le> UDX_MTU) ds"
    and wire: "snd ` set ds \<subseteq> set (ep_wire b)"
  defines "ts \<equiv> transmits_of (k_heap (ep_socket a)) (k_send_rx (ep_socket a))"
  shows "\<exists>k' buf. net_step split (two i a b)
      (two i ((after_socket k' a)\<lparr>ep_wire := ep_wire a @ concat (map split ts)\<rparr>) b)
    \<and> idle_socket k' \<and> tx_rel (k_send_rx (ep_socket a)) (length ts) ts
        ((fold accept ds (ep_socket a))\<lparr>k_recv_buf := Some buf\<rparr>) k'"
proof -
  obtain k' p buf where k': "socket_driver_poll (unix_layer_send ex_kernel) (unix_layer_recv (handing ds)) BATCH_SIZE_UNIX
      ex_kenv (ep_socket a) = Some (k', p)" "idle_socket k'"
    "tx_rel (k_send_rx (ep_socket a)) (length ts) ts ((fold accept ds (ep_socket a))\<lparr>k_recv_buf := Some buf\<rparr>) k'"
    using sock_round [OF inv idle len ds] unfolding ts_def by blast
  have "k_sent k' = k_sent (ep_socket a) @ ts"
    using k'(3) accept_all_frame [of "ep_socket a" ds] by (simp add: tx_rel_def Let_def rx_frame_def)
  then have ts: "drop (length (k_sent (ep_socket a))) (k_sent k') = ts" by simp
  have "deliverable (ep_wire b) (unix_arrived (handing ds))"
    using handing_arrived [of ds] wire by (force simp: deliverable_def)
  then have "net_step split (two i a b) ((two i a b)(i := (after_socket k' (two i a b i))
      \<lparr>ep_wire := ep_wire (two i a b i)
         @ concat (map split (drop (length (k_sent (ep_socket (two i a b i)))) (k_sent k')))\<rparr>))"
    using k'(1)
    by (intro net_socket [where kern = ex_kernel and net = "handing ds" and env = ex_kenv and a = ex_bound and p = p])
      (simp_all add: ex_kernel_ok handing_ok [OF ds] ex_kenv_def)
  then show ?thesis using k'(2,3) ts by auto
qed

lemma one_set_transmit:
  assumes "\<not> p_skip (deref h r)"
  shows "packet_set_to_transmit h (one_set s r) = Some \<lparr>t_destination = s_remote_addr s, t_ecn = None,
    t_contents = as_slice (p_buf (deref h r)), t_segment_size = None, t_src_ip = None\<rparr>"
  using assms by (simp add: packet_set_to_transmit_def one_set_def packet_set_new_def)

lemma tx_rel_heap: "tx_rel evs n taken k k' \<Longrightarrow> \<exists>now cs. k_heap k' = foldl (set_now now) (k_heap k) cs"
  unfolding tx_rel_def Let_def by blast

lemma send_round:
  assumes split: "gso_split split" and inv: "sock_inv True BATCH_SIZE_UNIX (ep_socket a)"
    and rest: "rest_socket lid ((ep_socket a)\<lparr>k_send_rx := []\<rparr>)" "k_inbox (ep_socket a) = []"
    and tx: "k_send_rx (ep_socket a) = [Transmit (one_set s r)]" "\<not> p_skip (deref (k_heap (ep_socket a)) r)"
  shows "\<exists>a' h g. net_step split (two i a b) (two i a' b) \<and> rest_socket lid (ep_socket a')
    \<and> ep_wire a' = ep_wire a @ [as_slice (p_buf (deref (k_heap (ep_socket a)) r))] \<and> ep_written a' = ep_written a \<and> ep_read a' = ep_read a
    \<and> ep_stream a' = (ep_stream a)\<lparr>s_heap := h, s_max_gso_segments := g, s_recv_open := True\<rparr>
    \<and> (\<exists>now cs. h = foldl (set_now now) (k_heap (ep_socket a)) cs)"
proof -
  define ps where "ps = one_set s r"
  obtain t where t: "packet_set_to_transmit (k_heap (ep_socket a)) ps = Some t" "t_segment_size t = None"
    "t_contents t = as_slice (p_buf (deref (k_heap (ep_socket a)) r))"
    using one_set_transmit [OF tx(2)] by (simp add: ps_def)
  note tx = tx(1) [folded ps_def] t(1,2)
  have ts: "transmits_of (k_heap (ep_socket a)) (k_send_rx (ep_socket a)) = [t]"
    by (simp add: tx List.map_filter_simps)
  have "split t = [t_contents t]" using split [unfolded gso_split_def, THEN spec, of t] tx(3) by simp
  moreover have "idle_socket (ep_socket a)" using rest(1) by (simp add: rest_socket_def idle_socket_def)
  ultimately obtain k' buf where k': "net_step split (two i a b)
      (two i ((after_socket k' a)\<lparr>ep_wire := ep_wire a @ [t_contents t]\<rparr>) b)" "idle_socket k'"
    "tx_rel [Transmit ps] 1 [t] ((ep_socket a)\<lparr>k_recv_buf := Some buf\<rparr>) k'"
    using socket_round [OF inv, of "[]" b split i] unfolding ts by (auto simp: tx(1))
  have f: "k_send_rx k' = []" "k_streams k' = [(lid, 0)]" "k_hung_up k' = []" "k_inbox k' = []"
    using k'(3) rest tx(1) by (simp_all add: tx_rel_def Let_def rest_socket_def List.map_filter_simps)
  then have "rest_socket lid (k'\<lparr>k_inbox := []\<rparr>)"
    using k'(2) by (simp add: rest_socket_def idle_socket_def)
  moreover have "\<exists>now cs. k_heap k' = foldl (set_now now) (k_heap (ep_socket a)) cs"
    using tx_rel_heap [OF k'(3)] by simp
  ultimately show ?thesis using k'(1) f
    by (intro exI [of _ "(after_socket k' a)\<lparr>ep_wire := ep_wire a @ [t_contents t]\<rparr>"]
        exI [of _ "k_heap k'"] exI [of _ "k_max_gso_segments k'"]) (simp add: after_socket_def t(3))
qed

lemma recv_round:
  assumes inv: "sock_inv True BATCH_SIZE_UNIX (ep_socket a)"
    and rest: "rest_socket lid (ep_socket a)" "k_inbox (ep_socket a) = []"
    and d: "d \<in> set (ep_wire b)" "header_dec d = Some h" "hdr_stream_id h = lid" "length d \<le> UDX_MTU"
  shows "\<exists>a' hp g. net_step split (two i a b) (two i a' b) \<and> rest_socket lid (ep_socket a')
    \<and> ep_wire a' = ep_wire a \<and> ep_written a' = ep_written a \<and> ep_read a' = ep_read a
    \<and> ep_stream a' = (ep_stream a)\<lparr>s_heap := hp, s_max_gso_segments := g,
        s_recv_rx := s_recv_rx (ep_stream a) @ [EventPacket (incoming h ex_bound d)], s_recv_open := True\<rparr>"
proof -
  let ?k = "accept (ex_bound, d) (ep_socket a)"
  have k: "k_streams (ep_socket a) = [(lid, 0)]" "k_hung_up (ep_socket a) = []" "k_send_rx (ep_socket a) = []"
    "idle_socket (ep_socket a)"
    using rest(1) by (simp_all add: rest_socket_def)
  have acc: "k_inbox ?k = [(0, EventPacket (incoming h ex_bound d))]" "k_streams ?k = [(lid, 0)]"
    using d(2,3) k rest(2) by (simp_all add: accept_def route_def count_rx_def)
  have ts: "transmits_of (k_heap (ep_socket a)) (k_send_rx (ep_socket a)) = []"
    by (simp add: k List.map_filter_simps)
  obtain k' buf where k': "net_step split (two i a b) (two i ((after_socket k' a)\<lparr>ep_wire := ep_wire a\<rparr>) b)"
    "idle_socket k'" "tx_rel [] 0 [] (?k\<lparr>k_recv_buf := Some buf\<rparr>) k'"
    using socket_round [OF inv k(4), of "[(ex_bound, d)]" b split i] d(1,4) unfolding ts
    by (auto simp: k(3) BATCH_SIZE_UNIX_def)
  have f: "k_send_rx k' = []" "k_streams k' = [(lid, 0)]" "k_hung_up k' = []"
    "k_inbox k' = [(0, EventPacket (incoming h ex_bound d))]"
    using k'(3) acc k accept_frame [of "ep_socket a" "(ex_bound, d)"]
    by (simp_all add: tx_rel_def Let_def List.map_filter_simps rx_frame_def)
  then have "rest_socket lid (k'\<lparr>k_inbox := []\<rparr>)"
    using k'(2) by (simp add: rest_socket_def idle_socket_def)
  with k'(1) f show ?thesis
    by (intro exI [of _ "(after_socket k' a)\<lparr>ep_wire := ep_wire a\<rparr>"]
        exI [of _ "k_heap k'"] exI [of _ "k_max_gso_segments k'"]) (simp add: after_socket_def)
qed


lemma net_inv_two:
  assumes "net_inv split ids (two i a b)"
  shows "stream_inv (ep_stream a)" "s_send_open (ep_stream a)" "s_send_tx (ep_stream a) = []"
    "s_heap (ep_stream a) = k_heap (ep_socket a)" "k_inbox (ep_socket a) = []"
    "s_remote_id (ep_stream a) = ids (peer i)" "sock_inv True BATCH_SIZE_UNIX (ep_socket a)"
proof -
  obtain chunks where "sys_inv split ids chunks (two i a b)" using assms by (auto simp: net_inv_def)
  then have "end_inv split (ids (peer i)) (chunks i) (chunks (peer i)) (s_ack (ep_stream b)) a"
    unfolding sys_inv_def by (metis two_simps(1,2))
  note d = end_invD [OF this]
  show "stream_inv (ep_stream a)" "s_send_open (ep_stream a)" "s_send_tx (ep_stream a) = []"
    "s_heap (ep_stream a) = k_heap (ep_socket a)" "k_inbox (ep_socket a) = []"
    "s_remote_id (ep_stream a) = ids (peer i)" "sock_inv True BATCH_SIZE_UNIX (ep_socket a)"
    by (fact d(1,2,3,4,5,6,10))+
qed

lemma send_tx_id: "s_send_tx s = [] \<Longrightarrow> s\<lparr>s_send_tx := []\<rparr> = s"
  by (cases s) simp

lemma drive_two:
  "stream_driver_poll env (ep_stream a) = Some (t, r) \<Longrightarrow> net_step split (two i a b) (two i (after_stream t a) b)"
  using net_drive [of env "two i a b" i t r split] by simp

text \<open>One side sends a message.\<close>

lemma send_message:
  assumes split: "gso_split split" and inv: "net_inv split ids (two i a b)"
    and rest: "at_rest (ep_stream a)" "rest_socket lid (ep_socket a)"
    and buf: "buf \<noteq> []" "length buf \<le> 1380" and seq: "unat (s_seq (ep_stream a)) + 1 < 4294967295"
  shows "\<exists>a'. (net_step split)\<^sup>*\<^sup>* (two i a b) (two i a' b) \<and> awaiting (ep_stream a') \<and> rest_socket lid (ep_socket a')
    \<and> as_slice (p_buf (data_packet (ep_stream a) buf)) \<in> set (ep_wire a')
    \<and> s_seq (ep_stream a') = s_seq (ep_stream a) + 1 \<and> s_ack (ep_stream a') = s_ack (ep_stream a)
    \<and> s_local_id (ep_stream a') = s_local_id (ep_stream a) \<and> ep_written a' = ep_written a @ buf
    \<and> in_flight (ep_stream a') (length (s_heap (ep_stream a)))"
proof -
  define s where "s = ep_stream a"
  define k where "k = ep_socket a"
  note n = net_inv_two [OF inv, folded s_def k_def]
  have max: "s_seq s \<noteq> u32_max" using seq by (auto simp: s_def)
  then have max': "s_seq s + 1 \<noteq> u32_max" using seq unat_u32_inc [OF max] by (auto simp: s_def)
  let ?p = "data_packet s buf" and ?c = "length (s_heap s)"
  define a1 where "a1 = a\<lparr>ep_stream := pushed s buf, ep_socket := k\<lparr>k_heap := s_heap s @ [?p]\<rparr>,
    ep_written := ep_written a @ buf\<rparr>"
  have ps: "s_send_tx (pushed s buf) = []" "s_heap (pushed s buf) = s_heap s @ [?p]" "s_seq (pushed s buf) = s_seq s + 1"
    using n(3) by (simp_all add: pushed_def)
  have a1: "a1 = (after_stream (pushed s buf) a)\<lparr>ep_written := ep_written a @ buf\<rparr>"
    by (simp add: after_stream_def a1_def k_def ps send_tx_id)
  have "poll_write run_env buf s = Some (pushed s buf, Ready (Inr (length buf)))"
    using n(1) rest(1) buf max by (intro write_one) (simp_all add: s_def)
  moreover have "packets_for (length buf) = 1" using buf packets_for_step [of "length buf"] by (simp add: packets_for_def)
  ultimately have 1: "net_step split (two i a b) (two i a1 b)"
    using net_write [of "two i a b" i buf run_env "pushed s buf" "Ready (Inr (length buf))" split] seq max'
    by (simp add: a1 ps s_def [symmetric])
  define u where "u = (pushed s buf)\<lparr>s_drive_waker := None\<rparr>"
  define t where "t = u\<lparr>s_send_queue := [], s_send_tx := [Transmit (one_set u (Shared ?c))], s_drive_waker := Some 0\<rparr>"
  have "stream_driver_poll run_env (ep_stream a1) = Some (t, Pending)"
    using drive_pushed [OF n(1,2) _ max, of buf] rest(1) n(3) by (simp add: a1_def t_def u_def s_def)
  from drive_two [OF this] have 2: "net_step split (two i a1 b) (two i (after_stream t a1) b)" .
  define a2 where "a2 = after_stream t a1"
  have a2: "ep_stream a2 = t\<lparr>s_send_tx := []\<rparr>" "ep_written a2 = ep_written a @ buf"
    "ep_socket a2 = k\<lparr>k_heap := s_heap s @ [?p], k_send_rx := [Transmit (one_set u (Shared ?c))]\<rparr>"
    using rest(2) by (simp_all add: a2_def after_stream_def a1_def t_def u_def pushed_def rest_socket_def k_def)
  have "net_inv split ids (two i a2 b)"
    using net_inv_step [OF split net_inv_step [OF split inv 1] 2] by (simp add: a2_def)
  note n2 = net_inv_two [OF this]
  have rest2: "rest_socket lid ((ep_socket a2)\<lparr>k_send_rx := []\<rparr>)"
    using rest(2) by (simp add: a2(3) rest_socket_def idle_socket_def k_def)
  have sr: "k_send_rx (ep_socket a2) = [Transmit (one_set u (Shared ?c))]"
    and kh: "k_heap (ep_socket a2) = s_heap s @ [?p]" by (simp_all add: a2(3))
  obtain a' h g where a': "net_step split (two i a2 b) (two i a' b)" "rest_socket lid (ep_socket a')"
    "ep_wire a' = ep_wire a2 @ [as_slice (p_buf ?p)]" "ep_written a' = ep_written a2"
    "ep_stream a' = (ep_stream a2)\<lparr>s_heap := h, s_max_gso_segments := g, s_recv_open := True\<rparr>"
    "\<exists>now cs. h = foldl (set_now now) (s_heap s @ [?p]) cs"
    using send_round [OF split n2(7) rest2 n2(5) sr, of i b] unfolding kh by (simp add: data_packet_def) blast
  obtain n where "h ! ?c = ?p\<lparr>p_time_sent := n\<rparr>" using a'(6) stamps_nth [of ?c "s_heap s @ [?p]"] by auto
  then have "in_flight (ep_stream a') ?c"
    using rest(1) by (simp add: a'(5) a2(1) t_def u_def pushed_def at_rest_def in_flight_def data_packet_def s_def)
  moreover have "awaiting (ep_stream a')"
    using rest(1) by (auto simp: a'(5) a2(1) t_def u_def pushed_def at_rest_def awaiting_def calm_def s_def)
  moreover have "s_seq (ep_stream a') = s_seq s + 1" "s_ack (ep_stream a') = s_ack s"
    "s_local_id (ep_stream a') = s_local_id s" by (simp_all add: a'(5) a2(1) t_def u_def pushed_def)
  moreover have "(net_step split)\<^sup>*\<^sup>* (two i a b) (two i a' b)"
    using 1 2 a'(1) unfolding a2_def by (meson rtranclp.rtrancl_refl rtranclp.rtrancl_into_rtrancl)
  ultimately show ?thesis using a'(2-4) a2(2) unfolding s_def by auto
qed


text \<open>The other side receives the message, reads it and sends the acknowledgement.\<close>

lemma receive_message:
  assumes split: "gso_split split" and inv: "net_inv split ids (two i a b)"
    and rest: "at_rest (ep_stream a)" "rest_socket lid (ep_socket a)"
    and d: "d \<in> set (ep_wire b)" "header_dec d = Some h" "hdr_stream_id h = lid" "length d \<le> UDX_MTU"
    and h: "hdr_typ h = UDX_HEADER_DATA" "hdr_seq h = s_ack (ep_stream a)" "hdr_ack h \<le> s_seq (ep_stream a)"
    and max: "s_ack (ep_stream a) \<noteq> u32_max"
  shows "\<exists>a'. (net_step split)\<^sup>*\<^sup>* (two i a b) (two i a' b) \<and> at_rest (ep_stream a') \<and> rest_socket lid (ep_socket a')
    \<and> as_slice (p_buf (ack_packet ((ep_stream a)\<lparr>s_ack := s_ack (ep_stream a) + 1\<rparr>))) \<in> set (ep_wire a')
    \<and> s_seq (ep_stream a') = s_seq (ep_stream a) \<and> s_ack (ep_stream a') = s_ack (ep_stream a) + 1
    \<and> s_local_id (ep_stream a') = s_local_id (ep_stream a) \<and> ep_written a' = ep_written a"
proof -
  define s where "s = ep_stream a"
  define p where "p = incoming h ex_bound d"
  note n = net_inv_two [OF inv]
  obtain a1 hp g where a1: "net_step split (two i a b) (two i a1 b)" "rest_socket lid (ep_socket a1)"
    "ep_written a1 = ep_written a"
    "ep_stream a1 = s\<lparr>s_heap := hp, s_max_gso_segments := g, s_recv_rx := [EventPacket p], s_recv_open := True\<rparr>"
    using recv_round [OF n(7) rest(2) n(5) d, of split i] rest(1) by (auto simp: at_rest_def calm_def s_def p_def)
  define s1 where "s1 = ep_stream a1"
  have inv1: "net_inv split ids (two i a1 b)" using net_inv_step [OF split inv a1(1)] .
  note n1 = net_inv_two [OF inv1, folded s1_def]
  have s1: "at_rest (s1\<lparr>s_recv_rx := []\<rparr>)" "s_recv_rx s1 = [EventPacket p]" "s_ack s1 = s_ack s" "s_seq s1 = s_seq s"
    "s_remote_id s1 = s_remote_id s" "s_remote_addr s1 = s_remote_addr s" "s_read_cursor s1 = s_ack s"
    "s_local_id s1 = s_local_id s"
    using rest(1) a1(4) by (simp_all add: at_rest_def calm_def s1_def s_def)
  define u where "u = s1\<lparr>s_ack := s_ack s1 + 1\<rparr>"
  obtain w st where dr: "stream_driver_poll run_env s1 = Some (u\<lparr>s_recv_rx := [], s_incoming := [(s_ack s1, p)],
      s_read_waker := None, s_drive_waker := Some 0, s_woken := w, s_stats := st,
      s_send_tx := [Transmit (one_set u (Owned (ack_packet u)))]\<rparr>, Pending)"
    using drive_data [OF n1(2) s1(1,2)] h max n1(3) by (auto simp: p_def incoming_def s1 s_def u_def)
  define t where "t = u\<lparr>s_recv_rx := [], s_incoming := [(s_ack s1, p)],
      s_read_waker := None, s_drive_waker := Some 0, s_woken := w, s_stats := st,
      s_send_tx := [Transmit (one_set u (Owned (ack_packet u)))]\<rparr>"
  define a2 where "a2 = after_stream t a1"
  have 2: "net_step split (two i a1 b) (two i a2 b)"
    unfolding a2_def using dr [folded t_def] unfolding s1_def by (rule drive_two)
  let ?rb = "\<lparr>rb_filled = [], rb_capacity = length (ip_buf p)\<rparr>"
  define v where "v = t\<lparr>s_send_tx := [], s_incoming := [], s_read_cursor := s_read_cursor s1 + 1\<rparr>"
  have "poll_read run_env ?rb (ep_stream a2) = Some (v, ?rb\<lparr>rb_filled := ip_buf p\<rparr>, Ready (Inr ()))"
    using read_one [of "ep_stream a2" p] max s1
    by (simp add: a2_def after_stream_def t_def u_def v_def p_def incoming_def s_def)
  define a3 where "a3 = (after_stream v a2)\<lparr>ep_read := ep_read a2 @ ip_buf p\<rparr>"
  have 3: "net_step split (two i a2 b) (two i a3 b)"
    using net_read [of run_env ?rb "two i a2 b" i v "?rb\<lparr>rb_filled := ip_buf p\<rparr>" "Ready (Inr ())" split]
      \<open>poll_read run_env ?rb (ep_stream a2) = _\<close> by (simp add: a3_def)
  have a3: "ep_stream a3 = v" "k_send_rx (ep_socket a3) = [Transmit (one_set u (Owned (ack_packet u)))]"
    "rest_socket lid ((ep_socket a3)\<lparr>k_send_rx := []\<rparr>)" "ep_written a3 = ep_written a"
    using a1(2,3)
    by (simp_all add: a3_def a2_def after_stream_def rest_socket_def idle_socket_def v_def t_def)
  have "net_inv split ids (two i a3 b)"
    using net_inv_step [OF split net_inv_step [OF split inv1 2] 3] .
  note n3 = net_inv_two [OF this]
  obtain a' h' g' where a': "net_step split (two i a3 b) (two i a' b)" "rest_socket lid (ep_socket a')"
    "ep_wire a' = ep_wire a3 @ [as_slice (p_buf (ack_packet u))]" "ep_written a' = ep_written a3"
    "ep_stream a' = (ep_stream a3)\<lparr>s_heap := h', s_max_gso_segments := g', s_recv_open := True\<rparr>"
    using send_round [OF split n3(7) a3(3) n3(5) a3(2), of i b] by (auto simp: ack_packet_def)
  have "at_rest (ep_stream a')"
    using s1 by (simp add: a'(5) a3(1) v_def t_def u_def at_rest_def calm_def)
  moreover have "s_seq (ep_stream a') = s_seq s" "s_ack (ep_stream a') = s_ack s + 1"
    "s_local_id (ep_stream a') = s_local_id s" by (simp_all add: a'(5) a3(1) v_def t_def u_def s1)
  moreover have "ack_packet u = ack_packet (s\<lparr>s_ack := s_ack s + 1\<rparr>)" by (simp add: ack_packet_def u_def s1)
  moreover have "(net_step split)\<^sup>*\<^sup>* (two i a b) (two i a' b)"
    using a1(1) 2 3 a'(1) by (meson rtranclp.rtrancl_refl rtranclp.rtrancl_into_rtrancl)
  ultimately show ?thesis using a'(2-4) a3(4) unfolding s_def by auto
qed

text \<open>The first side receives the acknowledgement.\<close>

lemma receive_ack:
  assumes split: "gso_split split" and inv: "net_inv split ids (two i a b)"
    and rest: "awaiting (ep_stream a)" "rest_socket lid (ep_socket a)"
    and d: "d \<in> set (ep_wire b)" "header_dec d = Some h" "hdr_stream_id h = lid" "length d \<le> UDX_MTU"
    and h: "hdr_typ h = 0" "hdr_ack h = s_seq (ep_stream a)"
    and less: "s_remote_acked (ep_stream a) < s_seq (ep_stream a)"
  shows "\<exists>a'. (net_step split)\<^sup>*\<^sup>* (two i a b) (two i a' b) \<and> at_rest (ep_stream a') \<and> rest_socket lid (ep_socket a')
    \<and> s_seq (ep_stream a') = s_seq (ep_stream a) \<and> s_ack (ep_stream a') = s_ack (ep_stream a)
    \<and> s_local_id (ep_stream a') = s_local_id (ep_stream a) \<and> ep_written a' = ep_written a"
proof -
  define s where "s = ep_stream a"
  define p where "p = incoming h ex_bound d"
  note n = net_inv_two [OF inv]
  obtain a1 hp g where a1: "net_step split (two i a b) (two i a1 b)" "rest_socket lid (ep_socket a1)"
    "ep_written a1 = ep_written a"
    "ep_stream a1 = s\<lparr>s_heap := hp, s_max_gso_segments := g, s_recv_rx := [EventPacket p], s_recv_open := True\<rparr>"
    using recv_round [OF n(7) rest(2) n(5) d, of split i] rest(1) by (auto simp: awaiting_def calm_def s_def p_def)
  have inv1: "net_inv split ids (two i a1 b)" using net_inv_step [OF split inv a1(1)] .
  note n1 = net_inv_two [OF inv1]
  have "awaiting ((ep_stream a1)\<lparr>s_recv_rx := []\<rparr>)" "s_recv_rx (ep_stream a1) = [EventPacket p]"
    using rest(1) a1(4) by (simp_all add: awaiting_def calm_def s_def)
  then obtain t where t: "stream_driver_poll run_env (ep_stream a1) = Some (t, Pending)" "at_rest t"
    "s_send_tx t = []" "s_seq t = s_seq s" "s_ack t = s_ack s" "s_local_id t = s_local_id s"
    using drive_ack [OF n1(1)] h less n1(3) by (auto simp: a1(4) p_def incoming_def s_def)
  define a' where "a' = after_stream t a1"
  have 2: "net_step split (two i a1 b) (two i a' b)" unfolding a'_def using t(1) by (rule drive_two)
  have "at_rest (ep_stream a')" "rest_socket lid (ep_socket a')" "ep_written a' = ep_written a"
    "s_seq (ep_stream a') = s_seq s" "s_ack (ep_stream a') = s_ack s" "s_local_id (ep_stream a') = s_local_id s"
    using t a1(2,3) by (simp_all add: a'_def after_stream_def send_tx_id rest_socket_def idle_socket_def)
  moreover have "(net_step split)\<^sup>*\<^sup>* (two i a b) (two i a' b)"
    using a1(1) 2 by (meson rtranclp.rtrancl_refl rtranclp.rtrancl_into_rtrancl)
  ultimately show ?thesis unfolding s_def by blast
qed


text \<open>Both sides are at rest and each has received everything from the other.\<close>

definition settled :: "(side \<Rightarrow> u32) \<Rightarrow> system \<Rightarrow> bool" where
  "settled ids S \<longleftrightarrow> (\<forall>i. at_rest (ep_stream (S i)) \<and> rest_socket (ids i) (ep_socket (S i))
     \<and> s_local_id (ep_stream (S i)) = ids i \<and> s_ack (ep_stream (S i)) = s_seq (ep_stream (S (peer i))))"

lemma net_inv_steps:
  assumes "(net_step split)\<^sup>*\<^sup>* S T" "gso_split split" "net_inv split ids S"
  shows "net_inv split ids T"
  using assms by (induction rule: rtranclp_induct) (auto intro: net_inv_step)

lemma settled_two:
  assumes "at_rest (ep_stream a)" "rest_socket (ids i) (ep_socket a)" "at_rest (ep_stream b)"
    and "rest_socket (ids (peer i)) (ep_socket b)"
    and "s_ack (ep_stream a) = s_seq (ep_stream b)" "s_ack (ep_stream b) = s_seq (ep_stream a)"
    and "s_local_id (ep_stream a) = ids i" "s_local_id (ep_stream b) = ids (peer i)"
  shows "settled ids (two i a b)"
  unfolding settled_def
proof
  fix j
  have "j = i \<or> j = peer i" by (cases i; cases j) simp_all
  then show "at_rest (ep_stream (two i a b j)) \<and> rest_socket (ids j) (ep_socket (two i a b j))
     \<and> s_local_id (ep_stream (two i a b j)) = ids j \<and> s_ack (ep_stream (two i a b j)) = s_seq (ep_stream (two i a b (peer j)))"
    using assms by auto
qed

lemma header_dec_packet:
  "header_fits h \<Longrightarrow> header_dec (as_slice (p_buf (packet_new dest h body))) = Some h"
  using header_from_bytes_header_bytes by (simp add: header_dec_eq_Some)

lemma message_round:
  assumes split: "gso_split split" and inv: "net_inv split ids S" and rest: "settled ids S"
    and buf: "buf \<noteq> []" "length buf \<le> 1380" and seq: "unat (s_seq (ep_stream (S i))) + 1 < 4294967295"
  shows "\<exists>T. (net_step split)\<^sup>*\<^sup>* S T \<and> settled ids T \<and> ep_written (T i) = ep_written (S i) @ buf
    \<and> ep_written (T (peer i)) = ep_written (S (peer i))
    \<and> s_seq (ep_stream (T i)) = s_seq (ep_stream (S i)) + 1
    \<and> s_seq (ep_stream (T (peer i))) = s_seq (ep_stream (S (peer i)))"
proof -
  define a where "a = S i"
  define b where "b = S (peer i)"
  have S: "S = two i a b" by (simp add: a_def b_def two_eta)
  have a: "at_rest (ep_stream a)" "rest_socket (ids i) (ep_socket a)" "s_ack (ep_stream a) = s_seq (ep_stream b)"
      "s_local_id (ep_stream a) = ids i"
    and b: "at_rest (ep_stream b)" "rest_socket (ids (peer i)) (ep_socket b)" "s_ack (ep_stream b) = s_seq (ep_stream a)"
      "s_local_id (ep_stream b) = ids (peer i)"
    using rest unfolding settled_def a_def b_def by (metis peer_peer)+
  note inv = inv [unfolded S]
  have seq: "unat (s_seq (ep_stream a)) + 1 < 4294967295" using seq by (simp add: a_def)
  then have max: "s_seq (ep_stream a) \<noteq> u32_max" by auto
  obtain a1 where a1: "(net_step split)\<^sup>*\<^sup>* (two i a b) (two i a1 b)" "awaiting (ep_stream a1)"
    "rest_socket (ids i) (ep_socket a1)" "as_slice (p_buf (data_packet (ep_stream a) buf)) \<in> set (ep_wire a1)"
    "s_seq (ep_stream a1) = s_seq (ep_stream a) + 1" "s_ack (ep_stream a1) = s_ack (ep_stream a)"
    "s_local_id (ep_stream a1) = s_local_id (ep_stream a)" "ep_written a1 = ep_written a @ buf"
    using send_message [OF split inv a(1,2) buf seq] by blast
  have inv1: "net_inv split ids (two (peer i) b a1)" using net_inv_steps [OF a1(1) split inv] by simp
  let ?h = "\<lparr>hdr_typ = UDX_HEADER_DATA, hdr_data_offset = 0, hdr_stream_id = ids (peer i),
      hdr_recv_win = u32_max, hdr_seq = s_seq (ep_stream a), hdr_ack = s_ack (ep_stream a)\<rparr>"
  let ?d = "as_slice (p_buf (data_packet (ep_stream a) buf))"
  have d: "header_dec ?d = Some ?h" "length ?d \<le> UDX_MTU"
    using net_inv_two(6) [OF inv] buf(2)
    by (simp_all add: data_packet_def header_dec_packet header_fits_def udx_constants del: packet_new_bytes)
      (simp add: packet_new_bytes)
  obtain b1 where b1: "(net_step split)\<^sup>*\<^sup>* (two (peer i) b a1) (two (peer i) b1 a1)" "at_rest (ep_stream b1)"
    "rest_socket (ids (peer i)) (ep_socket b1)"
    "as_slice (p_buf (ack_packet ((ep_stream b)\<lparr>s_ack := s_ack (ep_stream b) + 1\<rparr>))) \<in> set (ep_wire b1)"
    "s_seq (ep_stream b1) = s_seq (ep_stream b)" "s_ack (ep_stream b1) = s_ack (ep_stream b) + 1"
    "s_local_id (ep_stream b1) = s_local_id (ep_stream b)" "ep_written b1 = ep_written b"
    using receive_message [OF split inv1 b(1,2) a1(4) d(1) _ d(2)] a(3) b(3) max by auto
  have inv2: "net_inv split ids (two i a1 b1)" using net_inv_steps [OF b1(1) split inv1] by simp
  let ?g = "\<lparr>hdr_typ = 0, hdr_data_offset = 0, hdr_stream_id = ids i, hdr_recv_win = u32_max,
      hdr_seq = s_seq (ep_stream b), hdr_ack = s_ack (ep_stream b) + 1\<rparr>"
  let ?e = "as_slice (p_buf (ack_packet ((ep_stream b)\<lparr>s_ack := s_ack (ep_stream b) + 1\<rparr>)))"
  have e: "header_dec ?e = Some ?g" "length ?e \<le> UDX_MTU"
    using net_inv_two(6) [OF inv1]
    by (simp_all add: ack_packet_def header_dec_packet header_fits_def udx_constants del: packet_new_bytes)
      (simp add: packet_new_bytes)
  have "s_remote_acked (ep_stream a1) < s_seq (ep_stream a1)"
    using a1(2,5) max by (simp add: awaiting_def word_less_nat_alt unat_u32_inc)
  then obtain a2 where a2: "(net_step split)\<^sup>*\<^sup>* (two i a1 b1) (two i a2 b1)" "at_rest (ep_stream a2)"
    "rest_socket (ids i) (ep_socket a2)" "s_seq (ep_stream a2) = s_seq (ep_stream a1)"
    "s_ack (ep_stream a2) = s_ack (ep_stream a1)" "s_local_id (ep_stream a2) = s_local_id (ep_stream a1)"
    "ep_written a2 = ep_written a1"
    using receive_ack [OF split inv2 a1(2,3) b1(4) e(1) _ e(2)] b(3) a1(5) by auto
  have "(net_step split)\<^sup>*\<^sup>* S (two i a2 b1)" using a1(1) b1(1) a2(1) unfolding S by simp
  moreover have "settled ids (two i a2 b1)"
    by (rule settled_two) (use a2 b1 a1 a b in simp_all)
  ultimately show ?thesis using a1 a2 b1 by (intro exI [of _ "two i a2 b1"]) (simp add: a_def b_def)
qed


section \<open>Any amount of data\<close>

lemma data_round:
  assumes split: "gso_split split"
  shows "net_inv split ids S \<Longrightarrow> settled ids S \<Longrightarrow>
    unat (s_seq (ep_stream (S i))) + packets_for (length data) < 4294967295 \<Longrightarrow>
    \<exists>T. (net_step split)\<^sup>*\<^sup>* S T \<and> settled ids T \<and> ep_written (T i) = ep_written (S i) @ data
      \<and> ep_written (T (peer i)) = ep_written (S (peer i))
      \<and> s_seq (ep_stream (T (peer i))) = s_seq (ep_stream (S (peer i)))"
proof (induction "length data" arbitrary: data S rule: less_induct)
  case less
  show ?case
  proof (cases "data = []")
    case True
    then show ?thesis using less.prems by (intro exI [of _ S]) simp
  next
    case False
    let ?buf = "take 1380 data" and ?rest = "drop 1380 data"
    have pk: "packets_for (length data) = Suc (packets_for (length ?rest))"
      using packets_for_step [of "length data"] False by (auto simp: min_def packets_for_def)
    have seq: "unat (s_seq (ep_stream (S i))) + 1 < 4294967295" using less.prems(3) pk by simp
    then obtain T where T: "(net_step split)\<^sup>*\<^sup>* S T" "settled ids T" "ep_written (T i) = ep_written (S i) @ ?buf"
      "ep_written (T (peer i)) = ep_written (S (peer i))"
      "s_seq (ep_stream (T i)) = s_seq (ep_stream (S i)) + 1"
      "s_seq (ep_stream (T (peer i))) = s_seq (ep_stream (S (peer i)))"
      using message_round [OF split less.prems(1,2), of ?buf i] False by auto
    have "s_seq (ep_stream (S i)) \<noteq> u32_max" using seq by auto
    then have "unat (s_seq (ep_stream (T i))) + packets_for (length ?rest) < 4294967295"
      using less.prems(3) pk T(5) by (simp add: unat_u32_inc)
    moreover have "length ?rest < length data" using False by simp
    ultimately obtain U where "(net_step split)\<^sup>*\<^sup>* T U" "settled ids U"
      "ep_written (U i) = ep_written (T i) @ ?rest" "ep_written (U (peer i)) = ep_written (T (peer i))"
      "s_seq (ep_stream (U (peer i))) = s_seq (ep_stream (T (peer i)))"
      using less.hyps [OF _ net_inv_steps [OF T(1) split less.prems(1)] T(2)] by blast
    with T show ?thesis by (intro exI [of _ U]) (auto dest: rtranclp_trans)
  qed
qed

lemma settled_joined:
  assumes "joined ids S"
  shows "settled ids S" "s_seq (ep_stream (S i)) = 0" "ep_written (S i) = []"
proof -
  have e: "at_rest (ep_stream (S i)) \<and> rest_socket (ids i) (ep_socket (S i)) \<and> s_ack (ep_stream (S i)) = 0
      \<and> s_local_id (ep_stream (S i)) = ids i
      \<and> s_seq (ep_stream (S i)) = 0 \<and> ep_written (S i) = []" for i
  proof -
    obtain k0 env dest k s where i: "socket_bound BATCH_SIZE_UNIX k0"
      "socket_connect env dest (ids i) (ids (peer i)) k0 = Some (k, s)"
      "S i = \<lparr>ep_stream = s, ep_socket = k, ep_written = [], ep_read = [], ep_wire = []\<rparr>"
      using assms unfolding joined_def by blast
    then show ?thesis
      by (auto simp: socket_bound_def socket_bind_def socket_connect_def stream_connect_def at_rest_def calm_def
          rest_socket_def idle_socket_def Let_def split: sum.splits)
  qed
  then show "settled ids S" "s_seq (ep_stream (S i)) = 0" "ep_written (S i) = []" by (simp_all add: settled_def)
qed

lemma all_read:
  assumes "net_inv split ids S" "s_incoming (ep_stream (S (peer i))) = []"
    and "s_ack (ep_stream (S (peer i))) = s_seq (ep_stream (S i))"
  shows "ep_read (S (peer i)) = ep_written (S i)"
proof -
  obtain chunks where "sys_inv split ids chunks S" using assms(1) by (auto simp: net_inv_def)
  then have e: "end_inv split (ids (peer j)) (chunks j) (chunks (peer j)) (s_ack (ep_stream (S (peer j)))) (S j)" for j
    by (simp add: sys_inv_def)
  note d = end_invD [OF e]
  have "avail (ep_stream (S (peer i))) = []"
    using avail_Nil [OF stream_invD(2) [OF d(1) [of "peer i"]]] assms(2) by simp
  moreover have "unat (s_seq (ep_stream (S i))) = length (chunks i)" using d(7) [of i] by (simp add: sent_inv_def)
  ultimately show ?thesis using d(14) [of "peer i"] d(8) [of i] assms(3) by (simp add: rcvd_inv_def)
qed

lemma settled_read:
  assumes "net_inv split ids S" "settled ids S"
  shows "ep_read (S (peer i)) = ep_written (S i)"
proof (rule all_read [OF assms(1)])
  show "s_incoming (ep_stream (S (peer i))) = []" using assms(2) by (simp add: settled_def at_rest_def calm_def)
  show "s_ack (ep_stream (S (peer i))) = s_seq (ep_stream (S i))"
    using assms(2) unfolding settled_def by (metis peer_peer)
qed

lemma deliver_both:
  assumes split: "gso_split split" and S: "joined ids S"
    and len: "\<And>i. packets_for (length (data i)) < 4294967295"
  shows "\<exists>T. (net_step split)\<^sup>*\<^sup>* S T \<and> net_inv split ids T \<and> settled ids T \<and> (\<forall>i. ep_written (T i) = data i)"
proof -
  note inv = net_inv_joined [OF S, of split] and s = settled_joined [OF S]
  obtain T where T: "(net_step split)\<^sup>*\<^sup>* S T" "settled ids T" "ep_written (T Here) = data Here"
    "ep_written (T There) = []" "s_seq (ep_stream (T There)) = 0"
    using data_round [OF split inv s(1), of Here "data Here"] len [of Here] s(2,3) by auto
  have invT: "net_inv split ids T" using T(1) split inv by (rule net_inv_steps)
  obtain U where U: "(net_step split)\<^sup>*\<^sup>* T U" "settled ids U" "ep_written (U There) = data There"
    "ep_written (U Here) = data Here"
    using data_round [OF split invT T(2), of There "data There"] len [of There] T(3-5) by auto
  have "ep_written (U i) = data i" for i using U(3,4) by (cases i) simp_all
  then show ?thesis
    using rtranclp_trans [OF T(1) U(1)] U(2) net_inv_steps [OF U(1) split invT] by blast
qed

end
