(* ===== verification/Udx_Network_Close.thy ===== *)
theory Udx_Network_Close
  imports Udx_Network_Run
begin

text \<open>
  The run that ends a session. One side closes its stream, the other receives the end, and
  both streams finish and leave their sockets.
\<close>

section \<open>Polls of a stream that ends\<close>

lemma end_drive:
  assumes "\<not> closed_and_drained s" "poll_incoming run_env (s\<lparr>s_drive_waker := None\<rparr>) = Some (u, Inr ())"
    and "s_seq u = s_remote_acked u" "s_send_open u" "s_send_queue u = [Owned p]" "0 < packet_buf_len (p_buf p)"
  shows "stream_driver_poll run_env s = Some (u\<lparr>s_send_queue := [],
    s_send_tx := s_send_tx u @ [Transmit (one_set u (Owned p))], s_drive_waker := Some 0\<rparr>, Pending)"
proof -
  have "poll_transmit u = Some (u\<lparr>s_send_queue := [], s_send_tx := s_send_tx u @ [Transmit (one_set u (Owned p))]\<rparr>)"
    using assms(4-6) by (intro poll_transmit_one) simp_all
  moreover have "\<not> closed_and_drained (s\<lparr>s_drive_waker := None\<rparr>)" using assms(1) by (simp add: closed_and_drained_def)
  ultimately show ?thesis
    using assms(2) flush_none [OF assms(3)]
    by (simp add: stream_driver_poll_def poll_drive_def poll_check_timeouts_def run_env_def)
qed

text \<open>\<open>ends\<close>: the next poll sends the packet that announces the end and nothing is left to do.\<close>

definition ends :: "u32 \<Rightarrow> udx_stream \<Rightarrow> udx_stream \<Rightarrow> packet \<Rightarrow> bool" where
  "ends lid s u p \<longleftrightarrow> \<not> closed_and_drained s
     \<and> poll_incoming run_env (s\<lparr>s_drive_waker := None\<rparr>) = Some (u, Inr ())
     \<and> s_seq u = s_remote_acked u \<and> s_send_open u \<and> s_send_queue u = [Owned p] \<and> s_outgoing u = []
     \<and> 0 < packet_buf_len (p_buf p) \<and> \<not> p_skip p \<and> s_send_tx u = [] \<and> s_error u \<noteq> None \<and> s_local_id u = lid
     \<and> s_heap u = s_heap s"

lemma end_rounds:
  assumes split: "gso_split split" and inv: "net_inv split ids (two i a b)"
    and rest: "rest_socket lid (ep_socket a)" and u: "ends lid (ep_stream a) u p"
  shows "\<exists>a'. (net_step split)\<^sup>*\<^sup>* (two i a b) (two i a' b) \<and> as_slice (p_buf p) \<in> set (ep_wire a')
    \<and> k_streams (ep_socket a') = [] \<and> s_error (ep_stream a') = s_error u
    \<and> s_close_sent (ep_stream a') = s_close_sent u @ (case s_on_close u of None \<Rightarrow> [] | Some tx \<Rightarrow> [tx])
    \<and> ep_written a' = ep_written a \<and> ep_read a' = ep_read a"
proof -
  define t where "t = u\<lparr>s_send_queue := [], s_send_tx := [Transmit (one_set u (Owned p))], s_drive_waker := Some 0\<rparr>"
  define a1 where "a1 = after_stream t a"
  have "stream_driver_poll run_env (ep_stream a) = Some (t, Pending)"
    using end_drive [of "ep_stream a" u p] u by (simp add: ends_def t_def)
  then have 1: "net_step split (two i a b) (two i a1 b)" unfolding a1_def by (rule drive_two)
  have "closed_and_drained (ep_stream a1)"
    using u by (simp add: a1_def after_stream_def t_def closed_and_drained_def ends_def)
  note f = driver_finished [OF this]
  define a2 where "a2 = after_stream (finished (ep_stream a1)) a1"
  have 2: "net_step split (two i a1 b) (two i a2 b)" unfolding a2_def using f by (rule drive_two)
  have a2: "k_send_rx (ep_socket a2) = [Transmit (one_set u (Owned p)), StreamDropped lid]"
    "idle_socket (ep_socket a2)" "k_streams (ep_socket a2) = [(lid, 0)]"
    "ep_written a2 = ep_written a" "ep_read a2 = ep_read a" "s_error (ep_stream a2) = s_error u"
    "s_close_sent (ep_stream a2) = s_close_sent u @ (case s_on_close u of None \<Rightarrow> [] | Some tx \<Rightarrow> [tx])"
    using u rest
    by (simp_all add: a2_def a1_def after_stream_def t_def finished_def ends_def rest_socket_def idle_socket_def)
  have "net_inv split ids (two i a2 b)"
    using net_inv_step [OF split net_inv_step [OF split inv 1] 2] .
  note n2 = net_inv_two [OF this]
  obtain tr where tr: "packet_set_to_transmit (k_heap (ep_socket a2)) (one_set u (Owned p)) = Some tr"
    "t_segment_size tr = None" "t_contents tr = as_slice (p_buf p)"
    using one_set_transmit [of "k_heap (ep_socket a2)" "Owned p" u] u by (simp add: ends_def)
  have ts: "transmits_of (k_heap (ep_socket a2)) (k_send_rx (ep_socket a2)) = [tr]"
    by (simp add: a2(1) tr(1) List.map_filter_simps)
  have "split tr = [as_slice (p_buf p)]"
    using split [unfolded gso_split_def, THEN spec, of tr] tr(2,3) by simp
  then obtain k' buf where k': "net_step split (two i a2 b)
      (two i ((after_socket k' a2)\<lparr>ep_wire := ep_wire a2 @ [as_slice (p_buf p)]\<rparr>) b)"
    "tx_rel [Transmit (one_set u (Owned p)), StreamDropped lid] 1 [tr] ((ep_socket a2)\<lparr>k_recv_buf := Some buf\<rparr>) k'"
    using socket_round [OF n2(7) a2(2), of "[]" b split i] unfolding ts by (auto simp: a2(1))
  define a' where "a' = (after_socket k' a2)\<lparr>ep_wire := ep_wire a2 @ [as_slice (p_buf p)]\<rparr>"
  have "k_streams k' = []" using k'(2) a2(3) by (simp add: tx_rel_def Let_def List.map_filter_simps)
  then have "k_streams (ep_socket a') = []" "as_slice (p_buf p) \<in> set (ep_wire a')"
    "s_error (ep_stream a') = s_error (ep_stream a2)" "s_close_sent (ep_stream a') = s_close_sent (ep_stream a2)"
    "ep_written a' = ep_written a2" "ep_read a' = ep_read a2"
    by (simp_all add: a'_def after_socket_def)
  moreover have "(net_step split)\<^sup>*\<^sup>* (two i a b) (two i a' b)"
    using 1 2 k'(1) unfolding a'_def by (meson rtranclp.rtrancl_refl rtranclp.rtrancl_into_rtrancl)
  ultimately show ?thesis using a2(4-7) by (intro exI [of _ a']) simp
qed

section \<open>Closing\<close>

lemma end_packet_simps:
  "0 < packet_buf_len (p_buf (end_packet s))" "\<not> p_skip (end_packet s)"
  "length (as_slice (p_buf (end_packet s))) \<le> UDX_MTU"
  by (simp_all add: end_packet_def UDX_MTU_def)

lemma close_rounds:
  assumes split: "gso_split split" and inv: "net_inv split ids (two i a b)"
    and rest: "at_rest (ep_stream a)" "rest_socket lid (ep_socket a)" and lid: "s_local_id (ep_stream a) = lid"
  shows "\<exists>a'. (net_step split)\<^sup>*\<^sup>* (two i a b) (two i a' b)
    \<and> as_slice (p_buf (end_packet (ep_stream a))) \<in> set (ep_wire a')
    \<and> k_streams (ep_socket a') = [] \<and> s_error (ep_stream a') = Some close_graceful
    \<and> tx \<in> set (s_close_sent (ep_stream a')) \<and> ep_written a' = ep_written a \<and> ep_read a' = ep_read a"
proof -
  define s where "s = ep_stream a"
  define s0 where "s0 = stream_close tx s"
  define a0 where "a0 = after_stream s0 a"
  note n = net_inv_two [OF inv, folded s_def]
  have 0: "net_step split (two i a b) (two i a0 b)"
    using net_close [of split "two i a b" i tx] by (simp add: a0_def s0_def s_def)
  have s0: "s_send_tx s0 = []" "s_send_queue s0 = [Owned (end_packet s)]" "s_outgoing s0 = []" "s_recv_rx s0 = []"
    "s_recv_open s0" "s_seq s0 = s_remote_acked s0" "s_send_open s0" "s_error s0 = Some close_graceful"
    "s_on_close s0 = Some tx" "s_local_id s0 = lid" "s_heap s0 = s_heap s"
    using rest(1) n(2,3) lid by (simp_all add: s0_def stream_close_def terminate_eq at_rest_def calm_def s_def)
  have ep: "ep_stream a0 = s0" by (simp add: a0_def after_stream_def send_tx_id [OF s0(1)])
  have "ends lid (ep_stream a0) (s0\<lparr>s_drive_waker := None\<rparr>) (end_packet s)"
    unfolding ep ends_def using s0 poll_incoming_empty [of "s0\<lparr>s_drive_waker := None\<rparr>"] end_packet_simps
    by (simp add: closed_and_drained_def)
  moreover have "rest_socket lid (ep_socket a0)"
    using rest(2) s0(1) by (simp add: a0_def after_stream_def rest_socket_def idle_socket_def)
  ultimately obtain a' where a': "(net_step split)\<^sup>*\<^sup>* (two i a0 b) (two i a' b)"
    "as_slice (p_buf (end_packet s)) \<in> set (ep_wire a')" "k_streams (ep_socket a') = []"
    "s_error (ep_stream a') = Some close_graceful" "s_close_sent (ep_stream a') = s_close_sent s0 @ [tx]"
    "ep_written a' = ep_written a" "ep_read a' = ep_read a"
    using end_rounds [OF split net_inv_step [OF split inv 0]] s0(8,9) by (fastforce simp: a0_def after_stream_def)
  have "(net_step split)\<^sup>*\<^sup>* (two i a b) (two i a' b)" using 0 a'(1) by (rule converse_rtranclp_into_rtranclp)
  then show ?thesis using a'(2-7) unfolding s_def by (intro exI [of _ a']) simp
qed

lemma end_received:
  assumes s: "s_send_open s" "s_send_tx s = []" "at_rest (s\<lparr>s_recv_rx := []\<rparr>)" "s_recv_rx s = [EventPacket p]"
    and p: "hdr_typ (ip_header p) = UDX_HEADER_END" "incoming_ack p = s_seq s"
  shows "\<exists>u q. ends (s_local_id s) s u q \<and> s_error u = Some closed_by_remote"
proof -
  let ?s = "s\<lparr>s_drive_waker := None, s_recv_rx := [], s_stats := (s_stats s)\<lparr>st_rx_packets := st_rx_packets (s_stats s) + 1\<rparr>\<rparr>"
  let ?s' = "?s\<lparr>s_state := close_remote (s_state ?s)\<rparr>"
  let ?u = "terminate closed_by_remote ?s'"
  have r: "s_error s = None" "s_send_queue s = []" "s_outgoing s = []" "s_recv_open s" "s_on_firewall s = None"
    "s_remote_acked s = s_seq s"
    using s(3) by (simp_all add: at_rest_def calm_def)
  have u: "s_seq ?u = s_seq s" "s_remote_acked ?u = s_seq s" "s_recv_rx ?u = []" "s_recv_open ?u"
    "s_send_open ?u" "s_send_queue ?u = [Owned (end_packet ?s')]" "s_outgoing ?u = []" "s_send_tx ?u = []"
    "s_error ?u = Some closed_by_remote" "s_local_id ?u = s_local_id s" "s_heap ?u = s_heap s"
    using r s(1,2) by (simp_all add: terminate_eq)
  have "has_type p UDX_HEADER_END" "\<not> has_type p UDX_HEADER_SACK" "\<not> has_type p UDX_HEADER_DATA"
    using p(1) by (simp_all add: has_type_def udx_constants)
  then have "handle_incoming run_env p ((s\<lparr>s_drive_waker := None\<rparr>)\<lparr>s_recv_rx := []\<rparr>) = Some ?u"
    using r(5) p(2) u(1,2) by (simp add: handle_incoming_def)
  then have "poll_incoming run_env (s\<lparr>s_drive_waker := None\<rparr>) = Some (?u, Inr ())"
    by (rule poll_incoming_one [rotated]) (use s(4) u p(2) in \<open>simp_all add: handle_incoming_max_remote_ack_def\<close>)
  then show ?thesis
    using u r(1) end_packet_simps [of ?s']
    by (intro exI [of _ ?u] exI [of _ "end_packet ?s'"]) (simp add: ends_def closed_and_drained_def)
qed

lemma closed_rounds:
  assumes split: "gso_split split" and inv: "net_inv split ids (two i a b)"
    and rest: "at_rest (ep_stream a)" "rest_socket lid (ep_socket a)" and lid: "s_local_id (ep_stream a) = lid"
    and d: "d \<in> set (ep_wire b)" "header_dec d = Some h" "hdr_stream_id h = lid" "length d \<le> UDX_MTU"
    and h: "hdr_typ h = UDX_HEADER_END" "hdr_ack h = s_seq (ep_stream a)"
  shows "\<exists>a'. (net_step split)\<^sup>*\<^sup>* (two i a b) (two i a' b) \<and> k_streams (ep_socket a') = []
    \<and> s_error (ep_stream a') = Some closed_by_remote \<and> ep_written a' = ep_written a \<and> ep_read a' = ep_read a"
proof -
  define s where "s = ep_stream a"
  define p where "p = incoming h ex_bound d"
  note n = net_inv_two [OF inv]
  obtain a1 hp g where a1: "net_step split (two i a b) (two i a1 b)" "rest_socket lid (ep_socket a1)"
    "ep_written a1 = ep_written a" "ep_read a1 = ep_read a"
    "ep_stream a1 = s\<lparr>s_heap := hp, s_max_gso_segments := g, s_recv_rx := [EventPacket p], s_recv_open := True\<rparr>"
    using recv_round [OF n(7) rest(2) n(5) d, of split i] rest(1) by (auto simp: at_rest_def calm_def s_def p_def)
  have inv1: "net_inv split ids (two i a1 b)" using net_inv_step [OF split inv a1(1)] .
  note n1 = net_inv_two [OF inv1]
  have "at_rest ((ep_stream a1)\<lparr>s_recv_rx := []\<rparr>)" "s_recv_rx (ep_stream a1) = [EventPacket p]"
    "s_local_id (ep_stream a1) = lid" "incoming_ack p = s_seq (ep_stream a1)" "hdr_typ (ip_header p) = UDX_HEADER_END"
    using rest(1) a1(5) lid h by (simp_all add: at_rest_def calm_def s_def p_def incoming_def)
  then obtain u q where "ends lid (ep_stream a1) u q" "s_error u = Some closed_by_remote"
    using end_received [OF n1(2,3)] by metis
  then obtain a' where a': "(net_step split)\<^sup>*\<^sup>* (two i a1 b) (two i a' b)" "k_streams (ep_socket a') = []"
    "s_error (ep_stream a') = Some closed_by_remote" "ep_written a' = ep_written a" "ep_read a' = ep_read a"
    using end_rounds [OF split inv1 a1(2)] a1(3,4) by fastforce
  have "(net_step split)\<^sup>*\<^sup>* (two i a b) (two i a' b)" using a1(1) a'(1) by (rule converse_rtranclp_into_rtranclp)
  then show ?thesis using a'(2-5) by blast
qed

lemma session_end:
  assumes split: "gso_split split" and inv: "net_inv split ids S" and rest: "settled ids S"
  shows "\<exists>T. (net_step split)\<^sup>*\<^sup>* S T \<and> tx \<in> set (s_close_sent (ep_stream (T i)))
    \<and> s_error (ep_stream (T i)) = Some close_graceful \<and> s_error (ep_stream (T (peer i))) = Some closed_by_remote
    \<and> (\<forall>j. k_streams (ep_socket (T j)) = [] \<and> ep_written (T j) = ep_written (S j) \<and> ep_read (T j) = ep_read (S j))"
proof -
  define a where "a = S i"
  define b where "b = S (peer i)"
  have S: "S = two i a b" by (simp add: a_def b_def two_eta)
  have a: "at_rest (ep_stream a)" "rest_socket (ids i) (ep_socket a)" "s_ack (ep_stream a) = s_seq (ep_stream b)"
      "s_local_id (ep_stream a) = ids i"
    and b: "at_rest (ep_stream b)" "rest_socket (ids (peer i)) (ep_socket b)" "s_local_id (ep_stream b) = ids (peer i)"
    using rest unfolding settled_def a_def b_def by (metis peer_peer)+
  note inv = inv [unfolded S]
  obtain a1 where a1: "(net_step split)\<^sup>*\<^sup>* (two i a b) (two i a1 b)"
    "as_slice (p_buf (end_packet (ep_stream a))) \<in> set (ep_wire a1)" "k_streams (ep_socket a1) = []"
    "s_error (ep_stream a1) = Some close_graceful" "tx \<in> set (s_close_sent (ep_stream a1))"
    "ep_written a1 = ep_written a" "ep_read a1 = ep_read a"
    using close_rounds [OF split inv a(1,2,4), of tx] by blast
  have inv1: "net_inv split ids (two (peer i) b a1)" using net_inv_steps [OF a1(1) split inv] by simp
  let ?h = "\<lparr>hdr_typ = UDX_HEADER_END, hdr_data_offset = 0, hdr_stream_id = ids (peer i),
      hdr_recv_win = u32_max, hdr_seq = s_seq (ep_stream a), hdr_ack = s_ack (ep_stream a)\<rparr>"
  have "header_dec (as_slice (p_buf (end_packet (ep_stream a)))) = Some ?h"
    using net_inv_two(6) [OF inv]
    by (simp add: end_packet_def header_dec_packet header_fits_def udx_constants del: packet_new_bytes)
  then obtain b1 where b1: "(net_step split)\<^sup>*\<^sup>* (two (peer i) b a1) (two (peer i) b1 a1)"
    "k_streams (ep_socket b1) = []" "s_error (ep_stream b1) = Some closed_by_remote"
    "ep_written b1 = ep_written b" "ep_read b1 = ep_read b"
    using closed_rounds [OF split inv1 b a1(2) _ _ end_packet_simps(3)] a(3) by auto
  have "k_streams (ep_socket (two i a1 b1 j)) = [] \<and> ep_written (two i a1 b1 j) = ep_written (S j)
      \<and> ep_read (two i a1 b1 j) = ep_read (S j)" for j
  proof -
    have "j = i \<or> j = peer i" by (cases i; cases j) simp_all
    then show ?thesis using a1 b1 by (auto simp: a_def b_def)
  qed
  moreover have "(net_step split)\<^sup>*\<^sup>* S (two i a1 b1)" using a1(1) b1(1) unfolding S by simp
  ultimately show ?thesis using a1(4,5) b1(3) by (intro exI [of _ "two i a1 b1"]) simp
qed

end
