(* ===== verification/Udx_Network_Loss.thy ===== *)
theory Udx_Network_Loss
  imports Udx_Network_Run
begin

text \<open>
  Recovery from loss. One packet awaits its acknowledgement and everything on the wire is lost: the packet,
  or the acknowledgement, or both. When the timer expires the packet is sent again; the peer
  takes it as new data or answers the duplicate, and both sides come to rest.
\<close>

section \<open>The timer expires\<close>

definition late_env :: env where
  "late_env = run_env\<lparr>e_sleep_ready := (\<lambda>_. True)\<rparr>"

lemma packet_len_buf: "packet_buf_len (p_buf p) = packet_len p"
  by (simp add: packet_len_def)

text \<open>The poll after the timer expired queues the packet again.\<close>

lemma drive_late:
  assumes inv: "stream_inv s" and s: "s_send_open s" "awaiting s" "in_flight s c"
    and len: "0 < packet_len (s_heap s ! c)" "packet_len (s_heap s ! c) \<le> UDX_MTU" and less: "s_remote_acked s < s_seq s"
  shows "\<exists>u t. stream_driver_poll late_env s = Some (t, Pending) \<and> awaiting t
    \<and> s_send_tx t = s_send_tx s @ [Transmit (one_set u (Shared c))] \<and> c < length (s_heap t) \<and> \<not> p_skip (s_heap t ! c)
    \<and> p_buf (s_heap t ! c) = p_buf (s_heap s ! c) \<and> s_seq t = s_seq s \<and> s_ack t = s_ack s
    \<and> s_remote_acked t = s_remote_acked s \<and> s_local_id t = s_local_id s"
proof -
  let ?p = "s_heap s ! c"
  let ?s1 = "s\<lparr>s_drive_waker := None, s_rto_timeout := e_now late_env + 2 * s_rto s,
    s_cwnd := max UDX_MTU (s_cwnd s div 2)\<rparr>"
  let ?p1 = "?p\<lparr>p_transmits := p_transmits ?p + 1, p_waiting := True\<rparr>"
  let ?s2 = "?s1\<lparr>s_heap := (s_heap s)[c := ?p1], s_inflight := 0\<rparr>"
  let ?p2 = "?p1\<lparr>p_waiting := False\<rparr>"
  let ?u = "?s2\<lparr>s_heap := (s_heap s)[c := ?p2], s_inflight := packet_len ?p, s_send_queue := [Shared c]\<rparr>"
  have r: "s_error s = None" "s_send_queue s = []" "s_recv_rx s = []" "s_recv_open s"
    "s_seq s = s_remote_acked s + 1"
    using s(2) by (simp_all add: awaiting_def calm_def)
  have f: "s_outgoing s = [(s_remote_acked s, c)]" "\<not> p_waiting ?p" "\<not> p_skip ?p" "p_transmits ?p \<le> unat UDX_MAX_TRANSMITS"
    using s(3) by (simp_all add: in_flight_def)
  have bk: "books (s_heap s) (s_outgoing s) (s_seq s) (s_inflight s) (st_inflight_bytes (s_stats s))
      (st_inflight_packets (s_stats s))"
    using stream_invD(1) [OF inv] by (simp add: acct_def)
  have c: "c < length (s_heap s)" using booksD(2) [OF bk, of "s_remote_acked s" c] f(1) by simp
  have fl: "s_inflight s = packet_len ?p" using booksD(5) [OF bk] f(1,2) by (simp add: flight_def)
  have range: "u32_range (s_remote_acked s) (s_seq s) = [s_remote_acked s]"
    using u32_range_Cons [OF less] r(5) by simp
  have lens: "packet_len ?p1 = packet_len ?p" "packet_len ?p2 = packet_len ?p" by (simp_all add: packet_len_def)
  have "poll_check_timeouts late_env (s\<lparr>s_drive_waker := None\<rparr>) = Some (?s2, Inr ())"
    using less range f fl by (simp add: poll_check_timeouts_def late_env_def usize_sub_def Let_def)
  moreover have "flush_waiting_packets ?s2 = ?u"
    using range f(1) c len(2) lens r(2) by (simp add: flush_waiting_packets_def Let_def)
  moreover have "poll_transmit ?u = Some (?u\<lparr>s_send_queue := [], s_send_tx := s_send_tx s @ [Transmit (one_set ?u (Shared c))]\<rparr>)"
    using poll_transmit_one [of ?u "Shared c"] s(1) c len(1) lens by (simp add: packet_len_buf)
  moreover have "poll_incoming late_env (s\<lparr>s_drive_waker := None\<rparr>) = Some (s\<lparr>s_drive_waker := None\<rparr>, Inr ())"
    using r(3,4) by (simp add: poll_incoming_def late_env_def run_env_def numeral_2_eq_2 handle_incoming_max_remote_ack_def)
  moreover have "\<not> closed_and_drained (s\<lparr>s_drive_waker := None\<rparr>)" using r(1) by (simp add: closed_and_drained_def)
  ultimately have "stream_driver_poll late_env s = Some (?u\<lparr>s_send_queue := [],
      s_send_tx := s_send_tx s @ [Transmit (one_set ?u (Shared c))], s_drive_waker := Some 0\<rparr>, Pending)"
    by (simp add: stream_driver_poll_def poll_drive_def) (simp add: late_env_def run_env_def)
  then show ?thesis
    using s(2) c f(3)
    by (intro exI [of _ ?u] exI [of _ "?u\<lparr>s_send_queue := [],
      s_send_tx := s_send_tx s @ [Transmit (one_set ?u (Shared c))], s_drive_waker := Some 0\<rparr>"])
      (simp add: awaiting_def calm_def)
qed

text \<open>The sender sends the packet again.\<close>

lemma resend:
  assumes split: "gso_split split" and inv: "net_inv split ids (two i a b)"
    and rest: "awaiting (ep_stream a)" "rest_socket lid (ep_socket a)" "in_flight (ep_stream a) c"
    and len: "0 < packet_len (s_heap (ep_stream a) ! c)" "packet_len (s_heap (ep_stream a) ! c) \<le> UDX_MTU"
    and less: "s_remote_acked (ep_stream a) < s_seq (ep_stream a)"
  shows "\<exists>a'. (net_step split)\<^sup>*\<^sup>* (two i a b) (two i a' b) \<and> awaiting (ep_stream a') \<and> rest_socket lid (ep_socket a')
    \<and> as_slice (p_buf (s_heap (ep_stream a) ! c)) \<in> set (ep_wire a')
    \<and> s_seq (ep_stream a') = s_seq (ep_stream a) \<and> s_ack (ep_stream a') = s_ack (ep_stream a)
    \<and> s_remote_acked (ep_stream a') = s_remote_acked (ep_stream a) \<and> ep_written a' = ep_written a"
proof -
  define s where "s = ep_stream a"
  note n = net_inv_two [OF inv, folded s_def]
  obtain u t where t: "stream_driver_poll late_env s = Some (t, Pending)" "awaiting t"
    "s_send_tx t = [Transmit (one_set u (Shared c))]" "c < length (s_heap t)" "\<not> p_skip (s_heap t ! c)"
    "p_buf (s_heap t ! c) = p_buf (s_heap s ! c)" "s_seq t = s_seq s" "s_ack t = s_ack s"
    "s_remote_acked t = s_remote_acked s"
    using drive_late [OF n(1,2)] rest(1,3) len less n(3) unfolding s_def by fastforce
  define a1 where "a1 = after_stream t a"
  have 1: "net_step split (two i a b) (two i a1 b)" unfolding a1_def using t(1) unfolding s_def by (rule drive_two)
  have a1: "ep_stream a1 = t\<lparr>s_send_tx := []\<rparr>" "k_send_rx (ep_socket a1) = [Transmit (one_set u (Shared c))]"
    "rest_socket lid ((ep_socket a1)\<lparr>k_send_rx := []\<rparr>)" "k_heap (ep_socket a1) = s_heap t" "ep_written a1 = ep_written a"
    using rest(2) t(3) by (simp_all add: a1_def after_stream_def rest_socket_def idle_socket_def)
  note n1 = net_inv_two [OF net_inv_step [OF split inv 1]]
  obtain a' h g where a': "net_step split (two i a1 b) (two i a' b)" "rest_socket lid (ep_socket a')"
    "ep_wire a' = ep_wire a1 @ [as_slice (p_buf (s_heap t ! c))]" "ep_written a' = ep_written a1"
    "ep_stream a' = (ep_stream a1)\<lparr>s_heap := h, s_max_gso_segments := g, s_recv_open := True\<rparr>"
    using send_round [OF split n1(7) a1(3) n1(5) a1(2), of i b] t(5) by (auto simp: a1(4))
  have "awaiting (ep_stream a')" using t(2) by (simp add: a'(5) a1(1) awaiting_def calm_def)
  moreover have "s_seq (ep_stream a') = s_seq s" "s_ack (ep_stream a') = s_ack s"
    "s_remote_acked (ep_stream a') = s_remote_acked s" by (simp_all add: a'(5) a1(1) t)
  moreover have "(net_step split)\<^sup>*\<^sup>* (two i a b) (two i a' b)"
    using 1 a'(1) by (meson rtranclp.rtrancl_refl rtranclp.rtrancl_into_rtrancl)
  ultimately show ?thesis using a'(2-4) a1(5) t(6) unfolding s_def by (intro exI [of _ a']) simp
qed

section \<open>A duplicate arrives\<close>

lemma drive_duplicate:
  assumes s: "s_send_open s" "at_rest (s\<lparr>s_recv_rx := []\<rparr>)" "s_recv_rx s = [EventPacket p]"
    and p: "hdr_typ (ip_header p) = UDX_HEADER_DATA" "incoming_seq p < s_ack s" "incoming_ack p \<le> s_seq s"
  shows "\<exists>w st. stream_driver_poll run_env s = Some (s\<lparr>s_recv_rx := [], s_read_waker := None, s_drive_waker := Some 0,
    s_woken := w, s_stats := st, s_send_tx := s_send_tx s @ [Transmit (one_set s (Owned (ack_packet s)))]\<rparr>, Pending)"
proof -
  let ?s = "s\<lparr>s_drive_waker := None, s_recv_rx := [],
    s_stats := (s_stats s)\<lparr>st_rx_packets := st_rx_packets (s_stats s) + 1\<rparr>\<rparr>"
  have r: "s_error s = None" "s_state s = Open" "s_send_queue s = []" "s_incoming s = []" "s_recv_open s"
    "s_on_firewall s = None" "s_remote_acked s = s_seq s"
    using s(2) by (simp_all add: at_rest_def calm_def)
  have "advance_ack (?s\<lparr>s_stats := st\<rparr>) = Some (?s\<lparr>s_stats := st\<rparr>)" for st
    using r(4) by (simp add: advance_ack.simps)
  moreover have seq: "\<not> s_ack s \<le> incoming_seq p" "incoming_seq p \<le> s_ack s" using p(2) by auto
  ultimately have "\<exists>w st. receive_data p ?s = Some (?s\<lparr>s_read_waker := None, s_drive_waker := None, s_woken := w,
      s_stats := st, s_send_queue := [Owned (ack_packet s)]\<rparr>)"
    using seq r
    by (intro exI [of _ "s_woken s @ waker_list (s_read_waker s)"]
        exI [of _ "tx_packets_inc ((s_stats ?s)\<lparr>st_rx_bytes := st_rx_bytes (s_stats ?s) + incoming_data_len p\<rparr>)"])
      (simp add: receive_data_def send_state_packet_eq wake_eqs ack_packet_def create_packet_def create_header_def
        state_typ_def local_closed_def Let_def)
  then obtain w st where w: "receive_data p ?s = Some (?s\<lparr>s_read_waker := None, s_drive_waker := None, s_woken := w,
      s_stats := st, s_send_queue := [Owned (ack_packet s)]\<rparr>)" by blast
  define v where "v = ?s\<lparr>s_read_waker := None, s_drive_waker := None, s_woken := w,
      s_stats := st, s_send_queue := [Owned (ack_packet s)]\<rparr>"
  note w = w [folded v_def]
  have v: "s_seq v = s_seq s" "s_remote_acked v = s_seq s" "s_send_queue v = [Owned (ack_packet s)]" "s_recv_rx v = []"
    "s_recv_open v" "s_send_open v" "s_send_tx v = s_send_tx s" "s_remote_addr v = s_remote_addr s"
    using r s(1) by (simp_all add: v_def)
  have "handle_incoming run_env p ((s\<lparr>s_drive_waker := None\<rparr>)\<lparr>s_recv_rx := []\<rparr>) = Some v"
    using data_only [OF p(1)] r w p(3) [THEN leD] v(1,2) by (simp add: handle_incoming_def Let_def)
  then have "poll_incoming run_env (s\<lparr>s_drive_waker := None\<rparr>) = Some (v, Inr ())"
    by (rule poll_incoming_one [rotated]) (use s(3) v p(3) in \<open>simp_all add: handle_incoming_max_remote_ack_def\<close>)
  moreover have "poll_transmit v = Some (v\<lparr>s_send_queue := [],
      s_send_tx := s_send_tx s @ [Transmit (one_set s (Owned (ack_packet s)))]\<rparr>)"
    using poll_transmit_one [of v "Owned (ack_packet s)"] v by (simp add: one_set_def ack_packet_def)
  ultimately have "stream_driver_poll run_env s = Some (v\<lparr>s_send_queue := [],
      s_send_tx := s_send_tx s @ [Transmit (one_set s (Owned (ack_packet s)))], s_drive_waker := Some 0\<rparr>, Pending)"
    using r(1) v by (intro driver_run [of s v] flush_none) simp_all
  then show ?thesis using r(3) by (intro exI [of _ w] exI [of _ st]) (simp add: v_def)
qed

lemma receive_duplicate:
  assumes split: "gso_split split" and inv: "net_inv split ids (two i a b)"
    and rest: "at_rest (ep_stream a)" "rest_socket lid (ep_socket a)"
    and d: "d \<in> set (ep_wire b)" "header_dec d = Some h" "hdr_stream_id h = lid" "length d \<le> UDX_MTU"
    and h: "hdr_typ h = UDX_HEADER_DATA" "hdr_seq h < s_ack (ep_stream a)" "hdr_ack h \<le> s_seq (ep_stream a)"
  shows "\<exists>a'. (net_step split)\<^sup>*\<^sup>* (two i a b) (two i a' b) \<and> at_rest (ep_stream a') \<and> rest_socket lid (ep_socket a')
    \<and> as_slice (p_buf (ack_packet (ep_stream a))) \<in> set (ep_wire a')
    \<and> s_seq (ep_stream a') = s_seq (ep_stream a) \<and> s_ack (ep_stream a') = s_ack (ep_stream a)
    \<and> ep_written a' = ep_written a"
proof -
  define s where "s = ep_stream a"
  define p where "p = incoming h ex_bound d"
  note n = net_inv_two [OF inv]
  obtain a1 hp g where a1: "net_step split (two i a b) (two i a1 b)" "rest_socket lid (ep_socket a1)"
    "ep_written a1 = ep_written a"
    "ep_stream a1 = s\<lparr>s_heap := hp, s_max_gso_segments := g, s_recv_rx := [EventPacket p], s_recv_open := True\<rparr>"
    using recv_round [OF n(7) rest(2) n(5) d, of split i] rest(1) by (auto simp: at_rest_def calm_def s_def p_def)
  define s1 where "s1 = ep_stream a1"
  have inv1: "net_inv split ids (two i a1 b)" using net_inv_step [OF split inv a1(1)] .
  note n1 = net_inv_two [OF inv1, folded s1_def]
  have s1: "at_rest (s1\<lparr>s_recv_rx := []\<rparr>)" "s_recv_rx s1 = [EventPacket p]" "s_ack s1 = s_ack s" "s_seq s1 = s_seq s"
    "ack_packet s1 = ack_packet s"
    using rest(1) a1(4) by (simp_all add: at_rest_def calm_def s1_def s_def ack_packet_def)
  obtain w st where dr: "stream_driver_poll run_env s1 = Some (s1\<lparr>s_recv_rx := [], s_read_waker := None,
      s_drive_waker := Some 0, s_woken := w, s_stats := st,
      s_send_tx := [Transmit (one_set s1 (Owned (ack_packet s1)))]\<rparr>, Pending)"
    using drive_duplicate [OF n1(2) s1(1,2)] h n1(3) by (auto simp: p_def incoming_def s1 s_def)
  define t where "t = s1\<lparr>s_recv_rx := [], s_read_waker := None, s_drive_waker := Some 0, s_woken := w, s_stats := st,
      s_send_tx := [Transmit (one_set s1 (Owned (ack_packet s1)))]\<rparr>"
  define a2 where "a2 = after_stream t a1"
  have 2: "net_step split (two i a1 b) (two i a2 b)"
    unfolding a2_def using dr [folded t_def] unfolding s1_def by (rule drive_two)
  have a2: "ep_stream a2 = t\<lparr>s_send_tx := []\<rparr>"
    "k_send_rx (ep_socket a2) = [Transmit (one_set s1 (Owned (ack_packet s1)))]"
    "rest_socket lid ((ep_socket a2)\<lparr>k_send_rx := []\<rparr>)" "ep_written a2 = ep_written a"
    using a1(2,3) by (simp_all add: a2_def after_stream_def rest_socket_def idle_socket_def t_def)
  note n2 = net_inv_two [OF net_inv_step [OF split inv1 2]]
  obtain a' h' g' where a': "net_step split (two i a2 b) (two i a' b)" "rest_socket lid (ep_socket a')"
    "ep_wire a' = ep_wire a2 @ [as_slice (p_buf (ack_packet s1))]" "ep_written a' = ep_written a2"
    "ep_stream a' = (ep_stream a2)\<lparr>s_heap := h', s_max_gso_segments := g', s_recv_open := True\<rparr>"
    using send_round [OF split n2(7) a2(3) n2(5) a2(2), of i b] by (auto simp: ack_packet_def)
  have "at_rest (ep_stream a')" "s_seq (ep_stream a') = s_seq s" "s_ack (ep_stream a') = s_ack s"
    using s1 by (simp_all add: a'(5) a2(1) t_def at_rest_def calm_def)
  moreover have "(net_step split)\<^sup>*\<^sup>* (two i a b) (two i a' b)"
    using a1(1) 2 a'(1) by (meson rtranclp.rtrancl_refl rtranclp.rtrancl_into_rtrancl)
  ultimately show ?thesis using a'(2-4) a2(4) s1(5) unfolding s_def by (intro exI [of _ a']) simp
qed


section \<open>Recovery\<close>

definition lose :: "system \<Rightarrow> system" where
  "lose S = (\<lambda>i. (S i)\<lparr>ep_wire := []\<rparr>)"

lemma end_inv_lose: "end_inv split rid out inp pack e \<Longrightarrow> end_inv split rid out inp pack (e\<lparr>ep_wire := []\<rparr>)"
  by (simp add: end_inv_def Let_def)

lemma net_inv_lose: "net_inv split ids S \<Longrightarrow> net_inv split ids (lose S)"
  using end_inv_lose by (fastforce simp: net_inv_def sys_inv_def lose_def)

text \<open>What the invariant says of two endpoints.\<close>

lemma net_inv_numbers:
  assumes "net_inv split ids (two i a b)"
  shows "s_remote_acked (ep_stream a) \<le> s_ack (ep_stream b)" "s_ack (ep_stream b) \<le> s_seq (ep_stream a)"
proof -
  obtain chunks where S: "sys_inv split ids chunks (two i a b)" using assms by (auto simp: net_inv_def)
  have a: "end_inv split (ids (peer i)) (chunks i) (chunks (peer i)) (s_ack (ep_stream b)) a"
    using S unfolding sys_inv_def by (metis two_simps(1,2))
  have b: "end_inv split (ids i) (chunks (peer i)) (chunks i) (s_ack (ep_stream a)) b"
    using S unfolding sys_inv_def by (metis two_simps(1,2) peer_peer)
  show "s_remote_acked (ep_stream a) \<le> s_ack (ep_stream b)" by (rule end_invD(15) [OF a])
  have "unat (s_seq (ep_stream a)) = length (chunks i)" using end_invD(7) [OF a] by (simp add: sent_inv_def)
  moreover have "unat (s_ack (ep_stream b)) \<le> length (chunks i)" using end_invD(14) [OF b] by (simp add: rcvd_inv_def)
  ultimately show "s_ack (ep_stream b) \<le> s_seq (ep_stream a)" by (simp add: word_le_nat_alt)
qed

lemma flight_packet:
  assumes inv: "net_inv split ids (two i a b)" and c: "in_flight (ep_stream a) c"
  defines "p \<equiv> s_heap (ep_stream a) ! c"
  shows "header_dec (as_slice (p_buf p)) = Some (p_header p)" "hdr_stream_id (p_header p) = ids (peer i)"
    "hdr_seq (p_header p) = s_remote_acked (ep_stream a)" "hdr_ack (p_header p) \<le> s_ack (ep_stream a)"
    "0 < packet_len p" "packet_len p \<le> UDX_MTU" "s_remote_acked (ep_stream a) < s_seq (ep_stream a)"
proof -
  define s where "s = ep_stream a"
  note p_def = p_def [folded s_def] and c = c [folded s_def]
  obtain chunks where S: "sys_inv split ids chunks (two i a b)" using inv by (auto simp: net_inv_def)
  have a: "end_inv split (ids (peer i)) (chunks i) (chunks (peer i)) (s_ack (ep_stream b)) a"
    using S unfolding sys_inv_def by (metis two_simps(1,2))
  note d = end_invD [OF a, folded s_def]
  have out: "map_of (s_outgoing s) (s_remote_acked s) = Some c" and data: "hdr_typ (p_header p) = UDX_HEADER_DATA"
    using c by (simp_all add: in_flight_def p_def)
  have "ref_ok (genuine (s_remote_id s) (s_ack s) (chunks i)) (s_heap s) (Shared c)"
    using d(7) out unfolding sent_inv_def all_refs_def by blast
  then have g: "genuine (ids (peer i)) (s_ack s) (chunks i) p" using d(6) by (simp add: ref_ok_def p_def)
  show "header_dec (as_slice (p_buf p)) = Some (p_header p)" using g by (rule genuine_decodes)
  show "hdr_stream_id (p_header p) = ids (peer i)" "hdr_ack (p_header p) \<le> s_ack (ep_stream a)"
    using g by (simp_all add: genuine_def s_def)
  have bk: "books (s_heap s) (s_outgoing s) (s_seq s) (s_inflight s) (st_inflight_bytes (s_stats s))
      (st_inflight_packets (s_stats s))"
    using stream_invD(1) [OF d(1)] by (simp add: acct_def)
  show "hdr_seq (p_header p) = s_remote_acked (ep_stream a)"
    using booksD(3) [OF bk out] by (simp add: packet_seq_def p_def s_def)
  show "s_remote_acked (ep_stream a) < s_seq (ep_stream a)" using booksD(4) [OF bk out] by (simp add: s_def)
  show "0 < packet_len p" using genuine_len [OF g] by (simp add: packet_len_buf)
  have "\<exists>x \<in> set (chunks i). as_slice (p_buf p) = header_bytes (p_header p) @ x"
    using g data by (auto simp: genuine_def udx_constants)
  then show "packet_len p \<le> UDX_MTU"
    using d(17) by (auto simp: packet_len_def packet_buf_len_def chunk_ok_def udx_constants)
qed

lemma recover:
  assumes split: "gso_split split" and inv: "net_inv split ids (two i a b)"
    and a: "awaiting (ep_stream a)" "rest_socket (ids i) (ep_socket a)" "in_flight (ep_stream a) c"
    and b: "at_rest (ep_stream b)" "rest_socket (ids (peer i)) (ep_socket b)"
  shows "\<exists>a' b'. (net_step split)\<^sup>*\<^sup>* (two i a b) (two i a' b') \<and> at_rest (ep_stream a') \<and> at_rest (ep_stream b')
    \<and> s_ack (ep_stream b') = s_seq (ep_stream a') \<and> ep_written a' = ep_written a \<and> ep_written b' = ep_written b"
proof -
  define p where "p = s_heap (ep_stream a) ! c"
  note fp = flight_packet [OF inv a(3), folded p_def]
  have inv': "net_inv split ids (two (peer i) b a)" using inv by simp
  have eq: "s_ack (ep_stream a) = s_seq (ep_stream b)"
    using net_inv_numbers [OF inv'] b(1) by (simp add: at_rest_def)
  have seq: "s_seq (ep_stream a) = s_remote_acked (ep_stream a) + 1" using a(1) by (simp add: awaiting_def)
  obtain a1 where a1: "(net_step split)\<^sup>*\<^sup>* (two i a b) (two i a1 b)" "awaiting (ep_stream a1)"
    "rest_socket (ids i) (ep_socket a1)" "as_slice (p_buf p) \<in> set (ep_wire a1)"
    "s_seq (ep_stream a1) = s_seq (ep_stream a)" "s_ack (ep_stream a1) = s_ack (ep_stream a)"
    "s_remote_acked (ep_stream a1) = s_remote_acked (ep_stream a)" "ep_written a1 = ep_written a"
    using resend [OF split inv a fp(5,6) [unfolded p_def] fp(7)] unfolding p_def by blast
  have inv1: "net_inv split ids (two (peer i) b a1)" using net_inv_steps [OF a1(1) split inv] by simp
  have data: "hdr_typ (p_header p) = UDX_HEADER_DATA" using a(3) by (simp add: in_flight_def p_def)
  have len: "length (as_slice (p_buf p)) \<le> UDX_MTU" using fp(6) by (simp add: packet_len_def packet_buf_len_def)
  note arrives = split inv1 b a1(4) fp(1,2) len data
  have "s_ack (ep_stream b) = s_remote_acked (ep_stream a) \<or> s_ack (ep_stream b) = s_seq (ep_stream a)"
  proof -
    have "s_remote_acked (ep_stream a) \<noteq> u32_max" using fp(7) u32_max_ge leD by metis
    then show ?thesis
      using net_inv_numbers [OF inv] by (auto simp: seq word_le_nat_alt unat_u32_inc word_unat_eq_iff)
  qed
  then obtain b1 where b1: "(net_step split)\<^sup>*\<^sup>* (two (peer i) b a1) (two (peer i) b1 a1)" "at_rest (ep_stream b1)"
    "as_slice (p_buf (ack_packet ((ep_stream b)\<lparr>s_ack := s_seq (ep_stream a)\<rparr>))) \<in> set (ep_wire b1)"
    "s_ack (ep_stream b1) = s_seq (ep_stream a)" "ep_written b1 = ep_written b"
  proof
    assume n: "s_ack (ep_stream b) = s_remote_acked (ep_stream a)"
    have "s_ack (ep_stream b) \<noteq> u32_max" using fp(7) u32_max_ge leD n by metis
    from receive_message [OF arrives _ _ this] show thesis
      using that fp(3,4) n eq seq by auto
  next
    assume n: "s_ack (ep_stream b) = s_seq (ep_stream a)"
    moreover have "ack_packet ((ep_stream b)\<lparr>s_ack := s_seq (ep_stream a)\<rparr>) = ack_packet (ep_stream b)"
      using n by (simp add: ack_packet_def)
    ultimately show thesis using receive_duplicate [OF arrives] that fp(3,4,7) eq by auto
  qed
  have inv2: "net_inv split ids (two i a1 b1)" using net_inv_steps [OF b1(1) split inv1] by simp
  let ?g = "\<lparr>hdr_typ = 0, hdr_data_offset = 0, hdr_stream_id = ids i, hdr_recv_win = u32_max,
      hdr_seq = s_seq (ep_stream b), hdr_ack = s_seq (ep_stream a)\<rparr>"
  let ?e = "as_slice (p_buf (ack_packet ((ep_stream b)\<lparr>s_ack := s_seq (ep_stream a)\<rparr>)))"
  have e: "header_dec ?e = Some ?g" "length ?e \<le> UDX_MTU"
    using net_inv_two(6) [OF inv1]
    by (simp_all add: ack_packet_def header_dec_packet header_fits_def udx_constants del: packet_new_bytes)
      (simp add: packet_new_bytes)
  obtain a2 where a2: "(net_step split)\<^sup>*\<^sup>* (two i a1 b1) (two i a2 b1)" "at_rest (ep_stream a2)"
    "s_seq (ep_stream a2) = s_seq (ep_stream a1)" "ep_written a2 = ep_written a1"
    using receive_ack [OF split inv2 a1(2,3) b1(3) e(1) _ e(2)] a1(5,7) fp(7) by auto
  have "(net_step split)\<^sup>*\<^sup>* (two i a b) (two i a2 b1)" using a1(1) b1(1) a2(1) by simp
  then show ?thesis using a2 b1 a1 by (intro exI [of _ a2] exI [of _ b1]) simp
qed

end
