(* ===== verification/Udx_Stream_Wake.thy ===== *)
theory Udx_Stream_Wake
  imports Udx_Stream_Props
begin

text \<open>
  How a stream goes on: its life cycle and its wakers. The life cycle states form a semilattice in
  which closing a side is a join, and every operation moves upwards in it. \<open>onward s t\<close> says that
  between \<open>s\<close> and \<open>t\<close> no waker was lost: the task behind it was called, or it is still registered and
  what it waits for has not happened. The relation composes, so it holds of a whole poll because it
  holds of the parts.
\<close>

section \<open>The life cycle as a semilattice\<close>

text \<open>A state is above another one when every side closed in that one is closed in it.\<close>

instantiation stream_state :: order
begin

definition less_eq_stream_state where
  "a \<le> b \<longleftrightarrow> (local_closed a \<longrightarrow> local_closed b) \<and> (remote_closed a \<longrightarrow> remote_closed b)"

definition less_stream_state where
  "a < b \<longleftrightarrow> a \<le> b \<and> \<not> b \<le> (a :: stream_state)"

instance
proof
  fix a b :: stream_state
  show "a \<le> b \<Longrightarrow> b \<le> a \<Longrightarrow> a = b"
    by (cases a; cases b) (simp_all add: less_eq_stream_state_def local_closed_def remote_closed_def)
qed (auto simp: less_eq_stream_state_def less_stream_state_def)

end

instantiation stream_state :: bounded_semilattice_sup_bot
begin

definition bot_stream_state where
  "bot = Open"

definition sup_stream_state where
  "sup a b = (let a = (if local_closed b then close_local a else a)
              in if remote_closed b then close_remote a else a)"

instance
proof
  fix a b c :: stream_state
  show "bot \<le> a" "a \<le> sup a b" "b \<le> sup a b"
    by (cases a; cases b; simp add: less_eq_stream_state_def local_closed_def remote_closed_def
        bot_stream_state_def sup_stream_state_def)+
  show "b \<le> a \<Longrightarrow> c \<le> a \<Longrightarrow> sup b c \<le> a"
    by (cases a; cases b; cases c) (simp_all add: less_eq_stream_state_def local_closed_def
        remote_closed_def sup_stream_state_def)
qed

end

text \<open>Closing a side is the join with the state in which only that side is closed.\<close>

lemma close_sup: "close_local st = sup st LocalClosed" "close_remote st = sup st RemoteClosed"
  by (simp_all add: sup_stream_state_def local_closed_def remote_closed_def)

lemma close_upwards [simp]: "st \<le> close_local st" "st \<le> close_remote st"
  by (simp_all add: close_sup)

lemma state_closed_mono: "a \<le> b \<Longrightarrow> state_closed a \<Longrightarrow> state_closed b"
  by (auto simp: less_eq_stream_state_def state_closed_def)

section \<open>No waker is lost\<close>

text \<open>A waker slot before and after: unchanged, or emptied and its task called.\<close>

definition passed :: "waker option \<Rightarrow> waker option \<Rightarrow> waker list \<Rightarrow> bool" where
  "passed r r' ws \<longleftrightarrow> r' = r \<or> r' = None \<and> set (waker_list r) \<subseteq> set ws"

lemma passed_refl [simp]: "passed r r ws"
  by (simp add: passed_def)

lemma passed_None [simp]: "passed None r ws \<longleftrightarrow> r = None"
  by (auto simp: passed_def)

lemma passed_woken: "set (waker_list r) \<subseteq> set ws \<Longrightarrow> passed r None ws"
  by (simp add: passed_def)

lemma passed_trans: "passed r r1 ws \<Longrightarrow> passed r1 r2 vs \<Longrightarrow> passed r r2 (ws @ vs)"
  by (auto simp: passed_def)

lemma passedD: "passed r r' ws \<Longrightarrow> r = Some w \<Longrightarrow> w \<in> set ws \<or> r' = Some w"
  by (auto simp: passed_def)

definition onward :: "udx_stream \<Rightarrow> udx_stream \<Rightarrow> bool" where
  "onward s t \<longleftrightarrow>
     (\<exists>ws. s_woken t = s_woken s @ ws
        \<and> passed (s_read_waker s) (s_read_waker t) ws
        \<and> passed (s_write_waker s) (s_write_waker t) ws
        \<and> passed (s_drive_waker s) (s_drive_waker t) ws)
     \<and> (s_read_waker t \<noteq> None \<longrightarrow> s_error t = s_error s \<and> s_ack t = s_ack s)
     \<and> (s_write_waker t \<noteq> None \<longrightarrow> s_error t = s_error s)
     \<and> s_state s \<le> s_state t \<and> (s_error s \<noteq> None \<longrightarrow> s_error t \<noteq> None)"

lemma onwardI:
  assumes "s_woken t = s_woken s @ ws" "passed (s_read_waker s) (s_read_waker t) ws"
    "passed (s_write_waker s) (s_write_waker t) ws" "passed (s_drive_waker s) (s_drive_waker t) ws"
    "s_read_waker t \<noteq> None \<Longrightarrow> s_error t = s_error s \<and> s_ack t = s_ack s"
    "s_write_waker t \<noteq> None \<Longrightarrow> s_error t = s_error s"
    "s_state s \<le> s_state t" "s_error s \<noteq> None \<Longrightarrow> s_error t \<noteq> None"
  shows "onward s t"
  using assms unfolding onward_def by blast

lemma onwardE:
  assumes "onward s t"
  obtains ws where "s_woken t = s_woken s @ ws" "passed (s_read_waker s) (s_read_waker t) ws"
    "passed (s_write_waker s) (s_write_waker t) ws" "passed (s_drive_waker s) (s_drive_waker t) ws"
    "s_read_waker t \<noteq> None \<Longrightarrow> s_error t = s_error s \<and> s_ack t = s_ack s"
    "s_write_waker t \<noteq> None \<Longrightarrow> s_error t = s_error s"
    "s_state s \<le> s_state t" "s_error s \<noteq> None \<Longrightarrow> s_error t \<noteq> None"
  using assms unfolding onward_def by blast

lemma onward_upwards:
  assumes "onward s t"
  shows "s_state s \<le> s_state t" "s_error s \<noteq> None \<Longrightarrow> s_error t \<noteq> None"
  using assms unfolding onward_def by blast+

lemma onward_except_driver:
  assumes "onward (s\<lparr>s_drive_waker := v\<rparr>) (t\<lparr>s_drive_waker := v'\<rparr>)"
  obtains ws where "s_woken t = s_woken s @ ws" "passed (s_read_waker s) (s_read_waker t) ws"
    "passed (s_write_waker s) (s_write_waker t) ws"
    "s_read_waker t \<noteq> None \<Longrightarrow> s_error t = s_error s \<and> s_ack t = s_ack s"
    "s_write_waker t \<noteq> None \<Longrightarrow> s_error t = s_error s"
proof -
  define s' t' where "s' = s\<lparr>s_drive_waker := v\<rparr>" and "t' = t\<lparr>s_drive_waker := v'\<rparr>"
  have "onward s' t'" using assms by (simp add: s'_def t'_def)
  then obtain ws where ws: "s_woken t' = s_woken s' @ ws" "passed (s_read_waker s') (s_read_waker t') ws"
    "passed (s_write_waker s') (s_write_waker t') ws"
    "s_read_waker t' \<noteq> None \<Longrightarrow> s_error t' = s_error s' \<and> s_ack t' = s_ack s'"
    "s_write_waker t' \<noteq> None \<Longrightarrow> s_error t' = s_error s'"
    unfolding onward_def by blast
  have f: "s_woken s' = s_woken s" "s_read_waker s' = s_read_waker s" "s_write_waker s' = s_write_waker s"
    "s_error s' = s_error s" "s_ack s' = s_ack s" "s_woken t' = s_woken t" "s_read_waker t' = s_read_waker t"
    "s_write_waker t' = s_write_waker t" "s_error t' = s_error t" "s_ack t' = s_ack t"
    by (simp_all add: s'_def t'_def)
  show thesis using ws unfolding f by (rule that)
qed

lemma onward_trans:
  assumes "onward s t" "onward t u"
  shows "onward s u"
proof -
  obtain ws where a: "s_woken t = s_woken s @ ws" "passed (s_read_waker s) (s_read_waker t) ws"
    "passed (s_write_waker s) (s_write_waker t) ws" "passed (s_drive_waker s) (s_drive_waker t) ws"
    "s_read_waker t \<noteq> None \<Longrightarrow> s_error t = s_error s \<and> s_ack t = s_ack s"
    "s_write_waker t \<noteq> None \<Longrightarrow> s_error t = s_error s"
    "s_state s \<le> s_state t" "s_error s \<noteq> None \<Longrightarrow> s_error t \<noteq> None"
    by (rule onwardE [OF assms(1)]) blast
  obtain vs where b: "s_woken u = s_woken t @ vs" "passed (s_read_waker t) (s_read_waker u) vs"
    "passed (s_write_waker t) (s_write_waker u) vs" "passed (s_drive_waker t) (s_drive_waker u) vs"
    "s_read_waker u \<noteq> None \<Longrightarrow> s_error u = s_error t \<and> s_ack u = s_ack t"
    "s_write_waker u \<noteq> None \<Longrightarrow> s_error u = s_error t"
    "s_state t \<le> s_state u" "s_error t \<noteq> None \<Longrightarrow> s_error u \<noteq> None"
    by (rule onwardE [OF assms(2)]) blast
  have "s_read_waker u \<noteq> None \<Longrightarrow> s_read_waker t \<noteq> None"
    "s_write_waker u \<noteq> None \<Longrightarrow> s_write_waker t \<noteq> None"
    using b(2,3) by (auto simp: passed_def)
  then show ?thesis
    using a(5,6,8) b(5,6,8) passed_trans [OF a(2) b(2)] passed_trans [OF a(3) b(3)]
      passed_trans [OF a(4) b(4)] order_trans [OF a(7) b(7)]
    by (intro onwardI [of u s "ws @ vs"]) (simp_all add: a(1) b(1))
qed

text \<open>A step that leaves the wakers, the life cycle and \<open>ack\<close> alone.\<close>

lemma onward_same:
  assumes "s_woken t = s_woken s" "s_read_waker t = s_read_waker s" "s_write_waker t = s_write_waker s"
    "s_drive_waker t = s_drive_waker s" "s_error t = s_error s" "s_ack t = s_ack s" "s_state s \<le> s_state t"
  shows "onward s t"
  using assms by (intro onwardI [of t s "[]"]) simp_all

lemma onward_refl: "onward s s"
  by (rule onward_same) simp_all

lemma onward_tx:
  assumes "tx_frame s t" "s_write_waker t = s_write_waker s" "s_woken t = s_woken s"
  shows "onward s t"
  using assms(2,3) by (intro onward_same) (simp_all add: tx_frameD [OF assms(1)])

lemma onward_ack: "ack_rel s t \<Longrightarrow> onward s t"
  using onward_tx ack_relD(2,6,7) by blast

section \<open>The parts of a poll\<close>

lemma onward_terminate: "onward s (terminate e s)"
  by (rule onwardI [where ws = "waker_list (s_drive_waker s) @ waker_list (s_read_waker s)
        @ waker_list (s_write_waker s)"])
    (auto simp: terminate_eq intro: passed_woken)

text \<open>The reader is woken whenever data becomes readable: \<open>ack\<close> only moves when the packet at \<open>ack\<close> itself
  arrives.\<close>

lemma receive_data_advances:
  assumes "recv_inv s" "recv_inv (data_received p n s)" "s_ack s \<le> n" "\<not> incoming_seq p \<le> n"
  shows "n = s_ack s"
proof (rule ccontr)
  assume "n \<noteq> s_ack s"
  then have "s_ack s < n" using assms(3) by simp
  moreover have "s_read_cursor s \<le> s_ack s" by (rule recv_invD(2) [OF assms(1)])
  ultimately have "map_of (stored p s) (s_ack s) \<noteq> None"
    using recv_invD(3) [OF assms(2), of "s_ack s"] by (simp add: data_received_def)
  moreover have "map_of (s_incoming s) (s_ack s) = None"
    using recv_invD(5) [OF assms(1), of "s_ack s"] by (cases "map_of (s_incoming s) (s_ack s)") auto
  ultimately have "incoming_seq p = s_ack s"
    by (auto simp: stored_def update_conv' split: if_splits)
  with assms(3,4) show False by simp
qed

lemma onward_receive:
  assumes s: "stream_inv s" and p: "fresh_packet p" and t: "receive_data p s = Some t"
  shows "onward s t"
proof -
  note i = stream_invD [OF s]
  obtain n where n: "receive_data p s = Some (data_received p n s)"
    "recv_inv (data_received p n s)" "s_ack s \<le> n"
    using receive_data_total [OF i(2,3) p] by metis
  have "t = data_received p n s" using n(1) t by simp
  then show ?thesis
    using receive_data_advances [OF i(2) n(2,3)]
    by (intro onwardI [where ws = "(if incoming_seq p \<le> n then waker_list (s_read_waker s) else [])
          @ waker_list (s_drive_waker s)"])
      (auto simp: data_received_def intro: passed_woken split: if_splits)
qed

lemma onward_sacks:
  assumes "acct s" "handle_incoming_sacks env p s = Some t"
  shows "onward s t"
  using sack_loop_total [OF assms(1), of env "ip_buf p" 0] assms(2) onward_ack
  by (auto simp: handle_incoming_sacks_def)

lemma onward_handle_incoming:
  assumes s: "stream_inv s" and p: "fresh_packet p" and t: "handle_incoming env p s = Some t"
  shows "onward s t"
proof (cases "case s_on_firewall s of None \<Rightarrow> True | Some f \<Rightarrow> f (ip_from p)")
  case False
  then have "t = s" using t by (simp add: handle_incoming_def Let_def)
  then show ?thesis by (simp add: onward_refl)
next
  case pass: True
  define s1 where "s1 = s\<lparr>s_stats := (s_stats s)\<lparr>st_rx_packets := st_rx_packets (s_stats s) + 1\<rparr>\<rparr>"
  have r1: "rx_rel p s s1" by (rule rx_rel_quiet [OF s]) (simp_all add: s1_def quiet_def)
  have o1: "onward s s1" by (rule onward_same) (simp_all add: s1_def)
  obtain s2 where s2: "(if has_type p UDX_HEADER_SACK then handle_incoming_sacks env p s1
      else Some s1) = Some s2" and r2: "rx_rel p s1 s2"
    using rx_rel_sacks [OF rx_relD(2) [OF r1], of env p p] rx_rel_refl [OF rx_relD(2) [OF r1]] by metis
  have o2: "onward s1 s2"
    using s2 onward_sacks [OF stream_invD(1) [OF rx_relD(2) [OF r1]]] onward_refl by (auto split: if_splits)
  define u where "u = s2\<lparr>s_state := close_remote (s_state s2)\<rparr>"
  define s3 where "s3 = (if has_type p UDX_HEADER_END then terminate closed_by_remote u else s2)"
  have ru: "rx_rel p s2 u"
    by (rule rx_rel_quiet [OF rx_relD(2) [OF r2]]) (simp_all add: u_def quiet_def)
  have r3: "stream_inv s3"
    using rx_relD(2) [OF rx_rel_terminate [OF rx_relD(2) [OF ru]]] rx_relD(2) [OF r2] by (simp add: s3_def)
  have "onward s2 u" by (rule onward_same) (simp_all add: u_def)
  then have o3: "onward s2 s3"
    using onward_trans [OF _ onward_terminate] onward_refl by (simp add: s3_def)
  obtain s4 where s4: "(if has_type p UDX_HEADER_DATA then receive_data p s3 else Some s3) = Some s4"
    using rx_rel_receive [OF r3 p] by metis
  have o4: "onward s3 s4" using s4 onward_receive [OF r3 p] onward_refl by (auto split: if_splits)
  have "t = (if incoming_ack p > s_seq s4 then s4
    else if incoming_ack p > s_remote_acked s4 then grow_cwnd s4 else s4)"
    using t pass unfolding handle_incoming_def Let_def s1_def [symmetric] s2 bind.bind_lunit
      u_def [symmetric] s3_def [symmetric] s4 by (simp split: if_splits)
  moreover have "onward s4 (grow_cwnd s4)" by (rule onward_same) (simp_all add: grow_cwnd_def)
  ultimately have "onward s4 t" using onward_refl by simp
  then show ?thesis
    by (rule onward_trans [OF o1 onward_trans [OF o2 onward_trans [OF o3 onward_trans [OF o4]]]])
qed

lemma onward_incoming_loop:
  "stream_inv s \<Longrightarrow> incoming_loop env n ack s = Some (t, r) \<Longrightarrow> onward s t"
proof (induction n arbitrary: ack s)
  case 0
  then show ?case by (simp add: onward_refl)
next
  case (Suc n)
  show ?case
  proof (cases "s_recv_rx s")
    case Nil
    then show ?thesis using Suc.prems(2) by (auto simp: onward_refl split: if_splits)
  next
    case (Cons e rest)
    obtain p where e: "e = EventPacket p" by (cases e)
    let ?s = "s\<lparr>s_recv_rx := rest\<rparr>"
    have p: "fresh_packet p" using stream_invD(4) [OF Suc.prems(1), of p] Cons e by simp
    have inv: "stream_inv ?s"
      using Suc.prems(1) recv_inv_cong [of ?s s] Cons by (simp add: stream_inv_def acct_def no_max_def)
    obtain u where u: "handle_incoming env p ?s = Some u" "rx_rel p ?s u"
      using handle_incoming_total [OF inv p] by metis
    have "incoming_loop env n (max ack (incoming_ack p)) u = Some (t, r)"
      using Suc.prems(2) u(1) by (simp add: Cons e Let_def)
    then have "onward u t" by (rule Suc.IH [OF rx_relD(2) [OF u(2)]])
    moreover have "onward s ?s" by (rule onward_same) simp_all
    ultimately show ?thesis
      using onward_handle_incoming [OF inv p u(1)] by (blast intro: onward_trans)
  qed
qed

text \<open>A writer is woken by the acknowledgement that leaves room for a full packet.\<close>

lemma onward_max_remote_ack:
  assumes s: "acct s" and t: "handle_incoming_max_remote_ack env ack s = Some t"
  shows "onward s t"
    "s_remote_acked t \<noteq> s_remote_acked s \<Longrightarrow> s_write_waker t \<noteq> None
       \<Longrightarrow> s_cwnd t < s_inflight t + UDX_MTU"
proof -
  obtain u where u: "ack_loop env ack s = Some u" "ack_rel s u"
    using ack_loop_total [OF s, of env ack] by blast
  have eq: "t = (if ack \<le> s_remote_acked s then s
      else if s_inflight u + UDX_MTU \<le> s_cwnd u
      then u\<lparr>s_write_waker := None, s_woken := s_woken u @ waker_list (s_write_waker u),
             s_rto_timeout := e_now env + s_rto u\<rparr>
      else u\<lparr>s_rto_timeout := e_now env + s_rto u\<rparr>)"
    using t u(1) by (auto simp: handle_incoming_max_remote_ack_def wake_eqs Let_def split: if_splits)
  have "onward u (u\<lparr>s_write_waker := None, s_woken := s_woken u @ waker_list (s_write_waker u),
      s_rto_timeout := e_now env + s_rto u\<rparr>)"
    by (rule onwardI [where ws = "waker_list (s_write_waker u)"]) (auto intro: passed_woken)
  moreover have "onward u (u\<lparr>s_rto_timeout := e_now env + s_rto u\<rparr>)"
    by (rule onward_same) simp_all
  ultimately show "onward s t"
    using onward_trans [OF onward_ack [OF u(2)]] onward_refl unfolding eq by (auto split: if_splits)
  show "s_cwnd t < s_inflight t + UDX_MTU"
    if "s_remote_acked t \<noteq> s_remote_acked s" "s_write_waker t \<noteq> None"
    using that unfolding eq by (auto split: if_splits)
qed

lemma onward_poll_incoming:
  assumes s: "stream_inv s" and t: "poll_incoming env s = Some (t, r)"
  shows "onward s t"
    "s_remote_acked t \<noteq> s_remote_acked s \<Longrightarrow> s_write_waker t \<noteq> None
       \<Longrightarrow> s_cwnd t < s_inflight t + UDX_MTU"
proof -
  obtain u q where u: "incoming_loop env (e_recv_budget env) 0 s = Some (u, q)" "live_rel s u"
    "s_remote_acked u = s_remote_acked s"
    using incoming_loop_total [OF s, of env "e_recv_budget env" 0] by blast
  note i = live_relD(2) [OF u(2)] and o1 = onward_incoming_loop [OF s u(1)]
  have cases: "t = u \<or> (\<exists>ack. handle_incoming_max_remote_ack env ack u = Some t)"
    using t u(1) by (cases q) (auto simp: poll_incoming_def bind_eq_Some_conv)
  with o1 show "onward s t"
    using onward_trans [OF o1 onward_max_remote_ack(1) [OF stream_invD(1) [OF i]]] by blast
  show "s_cwnd t < s_inflight t + UDX_MTU"
    if "s_remote_acked t \<noteq> s_remote_acked s" "s_write_waker t \<noteq> None"
    using cases that onward_max_remote_ack(2) [OF stream_invD(1) [OF i]] u(3) by auto
qed

lemma mark_lost_wakers:
  "mark_lost is s = Some (t, r) \<Longrightarrow> s_write_waker t = s_write_waker s \<and> s_woken t = s_woken s"
proof (induction "is" arbitrary: s)
  case (Cons i "is")
  then show ?case
    by (fastforce simp: Let_def bind_eq_Some_conv split: option.splits if_splits)
qed simp

lemma flush_loop_wakers:
  "s_write_waker (flush_loop is s) = s_write_waker s \<and> s_woken (flush_loop is s) = s_woken s"
proof (induction "is" arbitrary: s)
  case (Cons i "is")
  then show ?case by (simp add: Let_def split: option.split)
qed simp

lemma onward_check_timeouts:
  assumes s: "acct s" and t: "poll_check_timeouts env s = Some (t, r)"
  shows "onward s t"
proof -
  have "tx_frame s t" using check_timeouts_total [OF s, of env] t by (metis option.inject prod.inject)
  moreover have "s_write_waker t = s_write_waker s \<and> s_woken t = s_woken s"
    using t by (auto simp: poll_check_timeouts_def Let_def dest!: mark_lost_wakers split: if_splits)
  ultimately show ?thesis using onward_tx by blast
qed

lemma onward_flush:
  assumes "acct s"
  shows "onward s (flush_waiting_packets s)"
  using flush_loop_acct [OF assms] flush_loop_wakers onward_tx unfolding flush_waiting_packets_def by blast

text \<open>A poll of the driver that does not fail hands everything it has queued to the socket.\<close>

lemma onward_poll_drive:
  assumes s: "stream_inv s" "s_send_open s" and t: "poll_drive env s = Some (t, r)"
  shows "onward s t" "r = Inr c \<Longrightarrow> s_send_queue t = [] \<and> c = False"
proof -
  obtain s1 r1 where 1: "poll_incoming env s = Some (s1, r1)" "live_rel s s1"
    by (rule poll_incoming_total [OF s(1), where env = env])
  obtain s2 r2 where 2: "poll_check_timeouts env s1 = Some (s2, r2)" "live_rel s1 s2"
    by (rule live_rel_check_timeouts [OF live_relD(2) [OF 1(2)], where env = env])
  define s3 where "s3 = flush_waiting_packets s2"
  have 3: "live_rel s s3" unfolding s3_def
    by (rule live_rel_trans [OF 1(2) live_rel_trans [OF 2(2) live_rel_flush [OF live_relD(2) [OF 2(2)]]]])
  have "s_send_open s3" using in_relD(8) [OF live_relD(1) [OF 3]] s(2) by simp
  then obtain sets where 4: "poll_transmit s3 = Some (handed s3 sets)" by (rule poll_transmit_open)
  have "onward s s1" by (rule onward_poll_incoming [OF s(1) 1(1)])
  moreover have "onward s1 s2"
    by (rule onward_check_timeouts [OF stream_invD(1) [OF live_relD(2) [OF 1(2)]] 2(1)])
  moreover have "onward s2 s3"
    unfolding s3_def by (rule onward_flush [OF stream_invD(1) [OF live_relD(2) [OF 2(2)]]])
  moreover have "onward s3 (handed s3 sets)" by (rule onward_same) simp_all
  ultimately have on: "onward s s1" "onward s s2" "onward s (handed s3 sets)"
    by (blast intro: onward_trans)+
  have res: "(t, r) \<in> {(s1, Inl e) | e. r1 = Inl e} \<union> {(s2, Inl e) | e. r2 = Inl e}
      \<union> {(handed s3 sets, Inr False)}"
    using t 1(1) 2(1) 4
    by (cases r1; cases r2) (simp_all add: poll_drive_def s3_def [symmetric] Let_def)
  then show "onward s t" using on by auto
  show "s_send_queue t = [] \<and> c = False" if "r = Inr c" using res that by auto
qed

section \<open>The driver and the application\<close>

text \<open>A poll of the driver as a whole. The driver takes its own waker out first, so that slot is compared
  without it; in the end the waker is registered with nothing left to hand over, or called.\<close>

lemma driver_wakers:
  assumes s: "stream_inv s" "s_send_open s" and t: "stream_driver_poll env s = Some (t, r)"
  shows "onward (s\<lparr>s_drive_waker := None\<rparr>) (t\<lparr>s_drive_waker := None\<rparr>)"
    "s_drive_waker t \<noteq> None \<Longrightarrow> s_send_queue t = []"
    "r = Pending \<Longrightarrow> s_drive_waker t = Some (e_waker env) \<or> e_waker env \<in> set (drop (length (s_woken s)) (s_woken t))"
proof -
  define s0 where "s0 = s\<lparr>s_drive_waker := None\<rparr>"
  consider "t = finished s" "r = Ready ()"
    | u q where "poll_drive env s0 = Some (u, Inl q)" "r = Pending"
        "t = (terminate (udx_error_from_io q) u)\<lparr>s_woken := s_woken (terminate (udx_error_from_io q) u) @ [e_waker env]\<rparr>"
    | u c where "poll_drive env s0 = Some (u, Inr c)" "r = Pending"
        "t = (if c then u\<lparr>s_woken := s_woken u @ [e_waker env]\<rparr> else u\<lparr>s_drive_waker := Some (e_waker env)\<rparr>)"
  proof (cases "closed_and_drained s")
    case True
    then show ?thesis using driver_finished [OF True, of env] t by (intro that(1)) simp_all
  next
    case False
    then have "\<not> closed_and_drained s0" by (simp add: s0_def closed_and_drained_def)
    then obtain u x where u: "poll_drive env s0 = Some (u, x)"
      and "(let (s, should_continue) = (case x of Inr c \<Rightarrow> (u, c) | Inl err \<Rightarrow> (terminate (udx_error_from_io err) u, True))
        in if should_continue then Some (s\<lparr>s_woken := s_woken s @ [e_waker env]\<rparr>, Pending)
           else Some (s\<lparr>s_drive_waker := Some (e_waker env)\<rparr>, Pending)) = Some (t, r)"
      using t unfolding stream_driver_poll_def s0_def [symmetric] Let_def by (auto simp: bind_eq_Some_conv)
    then show ?thesis
      by (cases x) (auto intro: that(2,3) split: if_splits)
  qed
  note cases = this
  have inv: "stream_inv s0" "s_send_open s0"
    using stream_inv_quiet [OF s(1), of s0] s(2) by (simp_all add: s0_def quiet_def)
  show "onward (s\<lparr>s_drive_waker := None\<rparr>) (t\<lparr>s_drive_waker := None\<rparr>)"
    using cases
  proof cases
    case 1
    then show ?thesis by (intro onward_same) (simp_all add: finished_def)
  next
    case (2 u q)
    have "onward (terminate (udx_error_from_io q) u) (t\<lparr>s_drive_waker := None\<rparr>)"
      unfolding 2 by (rule onwardI [where ws = "[e_waker env]"]) (simp_all add: terminate_eq)
    then show ?thesis
      using onward_trans [OF onward_poll_drive(1) [OF inv 2(1)] onward_trans [OF onward_terminate]]
      by (simp add: s0_def)
  next
    case (3 u c)
    have "c = False" using onward_poll_drive(2) [OF inv 3(1), of c] by simp
    moreover have "s_drive_waker u = None"
      by (rule onwardE [OF onward_poll_drive(1) [OF inv 3(1)]]) (simp add: s0_def)
    ultimately have "t\<lparr>s_drive_waker := None\<rparr> = u" by (simp add: 3)
    then show ?thesis using onward_poll_drive(1) [OF inv 3(1)] by (simp add: s0_def)
  qed
  show "s_send_queue t = []" if "s_drive_waker t \<noteq> None"
    using cases
  proof cases
    case (3 u c)
    then show ?thesis using onward_poll_drive(2) [OF inv 3(1), of c] by simp
  qed (use that in \<open>simp_all add: finished_def terminate_eq\<close>)
  show "s_drive_waker t = Some (e_waker env) \<or> e_waker env \<in> set (drop (length (s_woken s)) (s_woken t))"
    if "r = Pending"
    using cases
  proof cases
    case (2 u q)
    obtain ws where "s_woken u = s_woken s0 @ ws" by (rule onwardE [OF onward_poll_drive(1) [OF inv 2(1)]]) blast
    then show ?thesis by (simp add: 2 terminate_eq s0_def)
  next
    case (3 u c)
    then show ?thesis using onward_poll_drive(2) [OF inv 3(1), of c] by simp
  qed (use that in simp)
qed

lemma send_data_wakers:
  assumes "send_data_packet buf s = Some (t, n)"
  shows "onward s t" "s_error t = s_error s" "t = s \<or> s_drive_waker t = None"
proof -
  have eq: "t = s \<or> s_woken t = s_woken s @ waker_list (s_drive_waker s) \<and> s_drive_waker t = None
      \<and> s_read_waker t = s_read_waker s \<and> s_write_waker t = s_write_waker s \<and> s_error t = s_error s
      \<and> s_ack t = s_ack s \<and> s_state t = s_state s"
    using assms by (auto simp: send_data_packet_def Let_def bind_eq_Some_conv wake_eqs split: if_splits)
  then show "s_error t = s_error s" "t = s \<or> s_drive_waker t = None" by auto
  from eq show "onward s t"
  proof
    assume "t = s"
    then show ?thesis by (simp add: onward_refl)
  qed (intro onwardI [of t s "waker_list (s_drive_waker s)"], auto intro: passed_woken)
qed

lemma write_loop_wakers:
  "write_loop env buf n s = Some (t, r) \<Longrightarrow>
     \<exists>u. onward s u \<and> s_error u = s_error s \<and> (u = s \<or> s_drive_waker u = None)
       \<and> (t = u \<and> r \<noteq> Pending \<or> t = u\<lparr>s_write_waker := Some (e_waker env)\<rparr> \<and> r = Pending)"
proof (induction env buf n s rule: write_loop.induct)
  case (1 env buf n s)
  show ?case
  proof (cases "length buf \<le> n")
    case True
    then show ?thesis using 1(2) onward_refl by (auto simp: write_loop.simps [of env buf n s])
  next
    case False
    then obtain u m where u: "send_data_packet (drop n buf) s = Some (u, m)"
      and rest: "(if m = 0 then if n = 0 then Some (u\<lparr>s_write_waker := Some (e_waker env)\<rparr>, Pending)
          else Some (u, Ready (Inr n)) else write_loop env buf (n + m) u) = Some (t, r)"
      using 1(2) by (auto simp: write_loop.simps [of env buf n s] bind_eq_Some_conv)
    note w = send_data_wakers [OF u]
    show ?thesis
    proof (cases "m = 0")
      case True
      then show ?thesis using rest w by (auto split: if_splits)
    next
      case m: False
      then obtain v where v: "onward u v" "s_error v = s_error u" "v = u \<or> s_drive_waker v = None"
        "t = v \<and> r \<noteq> Pending \<or> t = v\<lparr>s_write_waker := Some (e_waker env)\<rparr> \<and> r = Pending"
        using 1(1) [OF False u refl m] rest by auto
      then show ?thesis using onward_trans [OF w(1) v(1)] w(2,3) by auto
    qed
  qed
qed

lemma poll_write_wakers:
  assumes "poll_write env buf s = Some (t, r)"
  obtains u where "onward s u" "s_error u = s_error s" "u = s \<or> s_drive_waker u = None"
    "t = u \<and> r \<noteq> Pending \<or> s_error s = None \<and> t = u\<lparr>s_write_waker := Some (e_waker env)\<rparr> \<and> r = Pending"
  using assms write_loop_wakers [of env buf 0 s t r] onward_refl [of s]
  unfolding poll_write_def by (cases "s_error s") (auto split: if_splits)

lemma poll_read_wakers:
  assumes s: "stream_inv s" and t: "poll_read env rb s = Some (t, rb', r)"
  obtains u where "onward s u" "s_error u = s_error s" "s_drive_waker u = s_drive_waker s" "s_send_queue u = s_send_queue s"
    "t = u \<and> r \<noteq> Pending \<or> s_error s = None \<and> t = u\<lparr>s_read_waker := Some (e_waker env)\<rparr> \<and> r = Pending"
proof -
  obtain u b d where u: "read_next rb False s = Some (u, b, d)" "read_result rb False s (u, b, d)"
    using read_next_queue [OF stream_invD(2) [OF s], of rb False] by (metis surj_pair)
  have eq: "u = s\<lparr>s_incoming := s_incoming u, s_read_cursor := s_read_cursor u\<rparr>"
    using u(2) by (simp add: read_result_def)
  have f: "s_error u = s_error s" "s_drive_waker u = s_drive_waker s" "s_send_queue u = s_send_queue s"
    by (subst eq, simp)+
  have "onward s u" by (rule onward_same) (subst eq, simp)+
  then show thesis
    using t u(1) f by (intro that [of u]) (auto simp: poll_read_def split: if_splits option.splits)
qed

section \<open>The invariant of the wakers\<close>

text \<open>A driver that sleeps has nothing queued, and no task waits on a stream that has ended.\<close>

definition wake_inv :: "udx_stream \<Rightarrow> bool" where
  "wake_inv s \<longleftrightarrow> (s_drive_waker s \<noteq> None \<longrightarrow> s_send_queue s = [])
     \<and> (s_read_waker s \<noteq> None \<or> s_write_waker s \<noteq> None \<longrightarrow> s_error s = None)"

lemma onward_waiting:
  assumes "onward s t" "s_read_waker s \<noteq> None \<or> s_write_waker s \<noteq> None \<longrightarrow> s_error s = None"
  shows "s_read_waker t \<noteq> None \<or> s_write_waker t \<noteq> None \<longrightarrow> s_error t = None"
proof -
  obtain ws where "passed (s_read_waker s) (s_read_waker t) ws" "passed (s_write_waker s) (s_write_waker t) ws"
    "s_read_waker t \<noteq> None \<Longrightarrow> s_error t = s_error s \<and> s_ack t = s_ack s"
    "s_write_waker t \<noteq> None \<Longrightarrow> s_error t = s_error s"
    by (rule onwardE [OF assms(1)]) blast
  with assms(2) show ?thesis by (auto simp: passed_def)
qed

lemma wake_inv_step:
  assumes s: "alive s" "wake_inv s" and st: "stream_step s t"
  shows "wake_inv t" "s_state s \<le> s_state t" "s_error s \<noteq> None \<Longrightarrow> s_error t \<noteq> None"
proof -
  have inv: "stream_inv s" "s_send_open s" using s(1) by (simp_all add: alive_def)
  have "wake_inv t \<and> s_state s \<le> s_state t \<and> (s_error s \<noteq> None \<longrightarrow> s_error t \<noteq> None)"
    using st
  proof cases
    case (do_drive env r)
    note d = driver_wakers [OF inv do_drive]
    have "s_read_waker t \<noteq> None \<or> s_write_waker t \<noteq> None \<longrightarrow> s_error t = None"
      using onward_waiting [OF d(1)] s(2) by (simp add: wake_inv_def)
    then show ?thesis using d(2) onward_upwards [OF d(1)] by (simp add: wake_inv_def)
  next
    case (do_read env rb rb' r)
    obtain u where u: "onward s u" "s_error u = s_error s" "s_drive_waker u = s_drive_waker s"
      "s_send_queue u = s_send_queue s"
      "t = u \<and> r \<noteq> Pending \<or> s_error s = None \<and> t = u\<lparr>s_read_waker := Some (e_waker env)\<rparr> \<and> r = Pending"
      by (rule poll_read_wakers [OF inv(1) do_read])
    have wu: "wake_inv u"
      using u(3,4) s(2) onward_waiting [OF u(1)] by (simp add: wake_inv_def)
    from u(5) show ?thesis
    proof (elim disjE conjE)
      assume "t = u"
      then show ?thesis using wu u(2) onward_upwards(1) [OF u(1)] by simp
    next
      assume "s_error s = None" "t = u\<lparr>s_read_waker := Some (e_waker env)\<rparr>"
      then show ?thesis using wu u(2) onward_upwards(1) [OF u(1)] by (simp add: wake_inv_def)
    qed
  next
    case (do_write buf env r)
    obtain u where u: "onward s u" "s_error u = s_error s" "u = s \<or> s_drive_waker u = None"
      "t = u \<and> r \<noteq> Pending \<or> s_error s = None \<and> t = u\<lparr>s_write_waker := Some (e_waker env)\<rparr> \<and> r = Pending"
      by (rule poll_write_wakers [OF do_write(2)])
    have wu: "wake_inv u"
      using u(3) s(2) onward_waiting [OF u(1)] by (auto simp: wake_inv_def)
    from u(4) show ?thesis
    proof (elim disjE conjE)
      assume "t = u"
      then show ?thesis using wu u(2) onward_upwards(1) [OF u(1)] by simp
    next
      assume "s_error s = None" "t = u\<lparr>s_write_waker := Some (e_waker env)\<rparr>"
      then show ?thesis using wu u(2) onward_upwards(1) [OF u(1)] by (simp add: wake_inv_def)
    qed
  qed (use s(2) in \<open>auto simp: wake_inv_def stream_close_def stream_drop_def terminate_eq\<close>)
  then show "wake_inv t" "s_state s \<le> s_state t" "s_error s \<noteq> None \<Longrightarrow> s_error t \<noteq> None" by blast+
qed

text \<open>A stream that is closed stays closed.\<close>

lemma stream_closed_stays:
  "alive s \<Longrightarrow> wake_inv s \<Longrightarrow> stream_step s t \<Longrightarrow> stream_closed s \<Longrightarrow> stream_closed t"
  using wake_inv_step(2) state_closed_mono unfolding stream_closed_def by blast

interpretation waking: machine connected stream_step "\<lambda>s. alive s \<and> wake_inv s"
proof unfold_locales
  show "alive s \<and> wake_inv s" if "connected s" for s
  proof -
    have "wake_inv s" using that by (auto simp: connected_def wake_inv_def stream_connect_def Let_def)
    then show ?thesis using one_stream.inv_init [OF that] by blast
  qed
  show "alive t \<and> wake_inv t" if "alive s \<and> wake_inv s" "stream_step s t" for s t
    using alive_step [of s t] wake_inv_step(1) [of s t] that by simp
qed

section \<open>A stream that has been idle\<close>

text \<open>Nothing is queued, in flight or to be received, and everything sent is acknowledged.\<close>

definition idle :: "udx_stream \<Rightarrow> bool" where
  "idle s \<longleftrightarrow> s_error s = None \<and> s_send_open s \<and> s_recv_open s \<and> s_recv_rx s = [] \<and> s_outgoing s = []
     \<and> s_send_queue s = [] \<and> s_remote_acked s = s_seq s"

text \<open>Two references of one length go to the socket as one set.\<close>

lemma poll_transmit_two:
  assumes "s_send_open s" "s_send_queue s = [r, r]" "0 < packet_buf_len (p_buf (deref (s_heap s) r))"
    "2 \<le> s_max_gso_segments s"
  shows "poll_transmit s = Some (s\<lparr>s_send_queue := [], s_send_tx := s_send_tx s
     @ [Transmit (packet_set_new (s_remote_addr s) [r, r] (packet_buf_len (p_buf (deref (s_heap s) r))))]\<rparr>)"
  using assms by (simp add: poll_transmit_def transmit_loop.simps MAX_SEGMENTS_def Let_def)

text \<open>The timer that expired while nothing was in flight, seen by the poll after a write: the packet that
  was written a moment ago counts as lost.\<close>

lemma idle_timeout:
  assumes s: "stream_inv s" "idle s" "length buf \<le> 1380" "s_seq s \<noteq> u32_max"
    and ready: "e_sleep_ready env (s_rto_timeout s)"
  defines "c \<equiv> length (s_heap s)" and "p \<equiv> (data_packet s buf)\<lparr>p_transmits := 1, p_waiting := True\<rparr>"
    and "u \<equiv> (pushed s buf)\<lparr>s_drive_waker := None, s_rto_timeout := e_now env + 2 * s_rto s,
      s_cwnd := max UDX_MTU (s_cwnd s div 2)\<rparr>"
  shows "poll_check_timeouts env ((pushed s buf)\<lparr>s_drive_waker := None\<rparr>)
      = Some (u\<lparr>s_heap := s_heap s @ [p], s_inflight := 0\<rparr>, Inr ())"
    "flush_waiting_packets (u\<lparr>s_heap := s_heap s @ [p], s_inflight := 0\<rparr>)
      = u\<lparr>s_heap := s_heap s @ [p\<lparr>p_waiting := False\<rparr>], s_inflight := 20 + length buf,
          s_send_queue := [Shared c, Shared c]\<rparr>"
proof -
  have less: "s_seq s < s_seq s + 1" using s(4) by (simp add: word_less_nat_alt unat_u32_inc)
  have range: "u32_range (s_seq s) (s_seq s + 1) = [s_seq s]" using u32_range_Cons [OF less] by simp
  have r: "s_remote_acked s = s_seq s" "s_outgoing s = []" "s_send_queue s = []"
    using s(2) by (simp_all add: idle_def)
  have i: "s_inflight s = 0" using stream_invD(1) [OF s(1)] r(2) by (simp add: acct_def books_def)
  have len: "packet_len (data_packet s buf) = 20 + length buf" "packet_len p = 20 + length buf"
    by (simp_all add: packet_len_def data_packet_def p_def)
  have w: "\<not> p_waiting (data_packet s buf)" "p_transmits (data_packet s buf) = 0"
    by (simp_all add: data_packet_def)
  show "poll_check_timeouts env ((pushed s buf)\<lparr>s_drive_waker := None\<rparr>)
      = Some (u\<lparr>s_heap := s_heap s @ [p], s_inflight := 0\<rparr>, Inr ())"
    using ready r less range i len(1) w
    by (simp add: poll_check_timeouts_def pushed_def u_def p_def usize_sub_def nth_append Let_def)
  show "flush_waiting_packets (u\<lparr>s_heap := s_heap s @ [p], s_inflight := 0\<rparr>)
      = u\<lparr>s_heap := s_heap s @ [p\<lparr>p_waiting := False\<rparr>], s_inflight := 20 + length buf,
          s_send_queue := [Shared c, Shared c]\<rparr>"
    using r range len(2) s(3)
    by (simp add: flush_waiting_packets_def u_def pushed_def nth_append c_def UDX_MTU_def Let_def)
      (simp add: p_def)
qed

text \<open>A reader waits, task 7, and the packet it waits for has arrived.\<close>

definition ex_waiting :: udx_stream where
  "ex_waiting = ex_stream\<lparr>s_read_waker := Some 7, s_recv_rx := [EventPacket (ex_data 0 [1, 2, 3])]\<rparr>"

lemma ex_waiting_reach: "reach connected stream_step ex_waiting"
proof -
  let ?s = "ex_stream\<lparr>s_read_waker := Some 7\<rparr>"
  have "poll_read (ex_env\<lparr>e_waker := 7\<rparr>) \<lparr>rb_filled = [], rb_capacity = 8\<rparr> ex_stream
      = Some (?s, \<lparr>rb_filled = [], rb_capacity = 8\<rparr>, Pending)"
    by (simp add: poll_read_def read_next_None)
  then have r: "reach connected stream_step ?s" by (rule reach_step [OF ex_reach do_read])
  have "fresh_packet (ex_data 0 [1, 2, 3])"
    by (simp add: fresh_packet_def ex_data_def u32_max_def)
  then have "reach connected stream_step (?s\<lparr>s_recv_rx := s_recv_rx ?s @ [EventPacket (ex_data 0 [1, 2, 3])]\<rparr>)"
    by (rule reach_step [OF r do_deliver])
  then show ?thesis by (simp add: ex_waiting_def)
qed

lemma ex_env_fields:
  "e_recv_budget ex_env = Suc (Suc (Suc (Suc 0)))" "\<not> e_sleep_ready ex_env (s_rto_timeout ex_stream)"
  "s_on_firewall ex_stream = None"
  by (simp_all add: ex_env_def ex_stream_def stream_connect_def from_millis_def Let_def)

lemma ex_waiting_drive: "map_option (\<lambda>(t, r). (s_ack t, r)) (stream_driver_poll ex_env ex_waiting) = Some (1, Pending)"
  unfolding ex_waiting_def
  by (simp add: stream_driver_poll_def closed_and_drained_def poll_drive_def poll_incoming_def ex_env_fields
      handle_incoming_def receive_data_def ex_data_def has_type_def udx_constants advance_ack.simps u32_inc_def
      u32_max_def handle_incoming_max_remote_ack_def poll_check_timeouts_def flush_waiting_packets_def
      poll_transmit_def transmit_loop.simps send_state_packet_eq wake_eqs Let_def)

section \<open>Properties\<close>



text \<open>C25: A stream that was idle for longer than its timer sends the next packet twice. The timer is set
  by acknowledgements and by expiring, never by sending, so it has expired long ago when data is
  written again. The poll that follows the write takes the packet for lost before it has been handed
  to the socket: it halves the window, counts a retransmission and hands the packet over in two copies.\<close>

theorem idle_write_sent_twice:
  assumes "stream_inv s" "idle s" "buf \<noteq> []" "length buf \<le> UDX_MAX_DATA_SIZE" "s_seq s \<noteq> u32_max"
    and "2 \<le> s_max_gso_segments s" "e_sleep_ready env (s_rto_timeout s)"
  shows "\<exists>u t. poll_write env buf s = Some (u, Ready (Inr (length buf)))
     \<and> stream_driver_poll env u = Some (t, Pending)
     \<and> s_send_tx t = s_send_tx s @ [Transmit (packet_set_new (s_remote_addr s)
          [Shared (length (s_heap s)), Shared (length (s_heap s))] (UDX_HEADER_SIZE + length buf))]
     \<and> drop UDX_HEADER_SIZE (as_slice (p_buf (s_heap t ! length (s_heap s)))) = buf
     \<and> p_transmits (s_heap t ! length (s_heap s)) = 1
     \<and> s_cwnd t = max UDX_MTU (s_cwnd s div 2)"
proof -
  define p where "p = (data_packet s buf)\<lparr>p_transmits := 1, p_waiting := True\<rparr>"
  define c where "c = length (s_heap s)"
  define u where "u = (pushed s buf)\<lparr>s_drive_waker := None, s_rto_timeout := e_now env + 2 * s_rto s,
    s_cwnd := max UDX_MTU (s_cwnd s div 2)\<rparr>"
  define v where "v = u\<lparr>s_heap := s_heap s @ [p\<lparr>p_waiting := False\<rparr>], s_inflight := 20 + length buf,
    s_send_queue := [Shared c, Shared c]\<rparr>"
  define t where "t = v\<lparr>s_send_queue := [], s_send_tx := s_send_tx s @ [Transmit (packet_set_new
    (s_remote_addr s) [Shared c, Shared c] (20 + length buf))], s_drive_waker := Some (e_waker env)\<rparr>"
  have len: "length buf \<le> 1380" using assms(4) by (simp add: udx_constants)
  have r: "s_error s = None" "s_send_open s" "s_recv_open s" "s_recv_rx s = []"
    using assms(2) by (simp_all add: idle_def)
  note time = idle_timeout [OF assms(1,2) len assms(5,7), folded p_def c_def u_def]
  have inc: "poll_incoming env ((pushed s buf)\<lparr>s_drive_waker := None\<rparr>)
      = Some ((pushed s buf)\<lparr>s_drive_waker := None\<rparr>, Inr ())"
    using r(3,4) by (intro poll_incoming_nothing) (simp_all add: pushed_def)
  have cell: "s_heap v ! c = p\<lparr>p_waiting := False\<rparr>" by (simp add: v_def c_def)
  then have buf: "packet_buf_len (p_buf (deref (s_heap v) (Shared c))) = 20 + length buf"
    by (simp add: p_def data_packet_def)
  have "poll_transmit v = Some (v\<lparr>s_send_queue := [], s_send_tx := s_send_tx v @ [Transmit (packet_set_new
      (s_remote_addr v) [Shared c, Shared c] (packet_buf_len (p_buf (deref (s_heap v) (Shared c)))))]\<rparr>)"
    using r(2) assms(6) buf by (intro poll_transmit_two) (simp_all add: v_def u_def pushed_def)
  then have tr: "(poll_transmit v \<bind> (\<lambda>s. Some (s\<lparr>s_drive_waker := Some (e_waker env)\<rparr>, Pending))) = Some (t, Pending :: unit poll)"
    unfolding buf by (simp add: t_def v_def u_def pushed_def)
  have "\<not> closed_and_drained ((pushed s buf)\<lparr>s_drive_waker := None\<rparr>)"
    using r(1) by (simp add: closed_and_drained_def pushed_def)
  then have "stream_driver_poll env (pushed s buf) = Some (t, Pending)"
    using tr by (simp add: stream_driver_poll_def poll_drive_def inc time v_def [symmetric] Let_def bind_assoc)
  moreover have "s_cwnd t = max UDX_MTU (s_cwnd s div 2)" "p_transmits (s_heap t ! c) = 1"
    "drop 20 (as_slice (p_buf (s_heap t ! c))) = buf"
    using cell by (simp_all add: t_def v_def u_def p_def data_packet_def)
  ultimately show ?thesis
    using poll_write_one [OF assms(1) r(1) _ assms(3) len assms(5), of env] assms(2)
    by (intro exI [of _ "pushed s buf"] exI [of _ t]) (simp add: t_def c_def idle_def udx_constants)
qed

theorem idle_write_sent_twice_witness:
  "\<exists>u t. poll_write (ex_env\<lparr>e_sleep_ready := (\<lambda>_. True)\<rparr>) [1, 2, 3] ex_stream = Some (u, Ready (Inr 3))
     \<and> stream_driver_poll (ex_env\<lparr>e_sleep_ready := (\<lambda>_. True)\<rparr>) u = Some (t, Pending)
     \<and> s_send_tx t = s_send_tx ex_stream @ [Transmit (packet_set_new (s_remote_addr ex_stream) [Shared 0, Shared 0] 23)]
     \<and> s_cwnd t = 1400"
proof -
  have "idle ex_stream" by (simp add: idle_def)
  then show ?thesis
    using idle_write_sent_twice [of ex_stream "[1, 2, 3]" "ex_env\<lparr>e_sleep_ready := (\<lambda>_. True)\<rparr>"] ex_stream_inv(1)
    by (auto simp: udx_constants u32_max_def)
qed

end
