(* ===== verification/Udx_Mutex.thy ===== *)
theory Udx_Mutex
  imports Udx_Packet
begin

text \<open>
  Model of \<open>src/mutex.rs\<close>: the wrapper around the lock that every operation of a stream and of a
  socket takes, with and without the feature \<open>lock_tracking\<close>. While a guard exists it has
  exclusive access to what the lock protects, so a guard holds the protected value and
  dropping it gives the value back. The clock readings are arguments; a flag says whether a
  warning was logged. With tracking, the lock remembers its last owners and changes nothing else.
\<close>

section \<open>With tracking\<close>

definition MAX_LOCK_OWNERS :: usize where "MAX_LOCK_OWNERS = 20"

record 'a mutex_inner =
  mx_last_lock_owner :: "(string \<times> duration) list"
  mx_value :: 'a

record 'a mutex_guard =
  mg_inner :: "'a mutex_inner"
  mg_start_time :: instant
  mg_purpose :: string

definition mutex_new :: "'a \<Rightarrow> 'a mutex_inner" where
  "mutex_new value = \<lparr>mx_last_lock_owner = [], mx_value = value\<rparr>"

definition mutex_lock :: "string \<Rightarrow> instant \<Rightarrow> instant \<Rightarrow> 'a mutex_inner \<Rightarrow> 'a mutex_guard \<times> bool" where
  "mutex_lock purpose now lock_time m =
     (let elapsed = lock_time - now in
      (\<lparr>mg_inner = m, mg_start_time = lock_time, mg_purpose = purpose\<rparr>, elapsed > from_millis 2))"

definition guard_deref :: "'a mutex_guard \<Rightarrow> 'a" where
  "guard_deref g = mx_value (mg_inner g)"

definition guard_deref_mut :: "('a \<Rightarrow> 'a) \<Rightarrow> 'a mutex_guard \<Rightarrow> 'a mutex_guard" where
  "guard_deref_mut f g = g\<lparr>mg_inner := (mg_inner g)\<lparr>mx_value := f (mx_value (mg_inner g))\<rparr>\<rparr>"

definition guard_drop :: "instant \<Rightarrow> 'a mutex_guard \<Rightarrow> 'a mutex_inner \<times> bool" where
  "guard_drop now g =
     (let m = mg_inner g;
          m = (if length (mx_last_lock_owner m) = MAX_LOCK_OWNERS
               then m\<lparr>mx_last_lock_owner := butlast (mx_last_lock_owner m)\<rparr> else m);
          duration = now - mg_start_time g;
          m = m\<lparr>mx_last_lock_owner := (mg_purpose g, duration) # mx_last_lock_owner m\<rparr>
      in (m, duration > from_millis 2))"

section \<open>Without tracking\<close>

record 'a plain_guard =
  pg_guard :: 'a

definition plain_new :: "'a \<Rightarrow> 'a" where
  "plain_new value = value"

definition plain_lock :: "string \<Rightarrow> 'a \<Rightarrow> 'a plain_guard" where
  "plain_lock purpose m = \<lparr>pg_guard = m\<rparr>"

definition plain_deref :: "'a plain_guard \<Rightarrow> 'a" where
  "plain_deref g = pg_guard g"

definition plain_deref_mut :: "('a \<Rightarrow> 'a) \<Rightarrow> 'a plain_guard \<Rightarrow> 'a plain_guard" where
  "plain_deref_mut f g = g\<lparr>pg_guard := f (pg_guard g)\<rparr>"

definition plain_drop :: "'a plain_guard \<Rightarrow> 'a" where
  "plain_drop g = pg_guard g"

section \<open>Critical sections\<close>

text \<open>A critical section: its purpose, the clock before, at and after holding the lock, and what it does.\<close>

type_synonym 'a critical = "string \<times> instant \<times> instant \<times> instant \<times> ('a \<Rightarrow> 'a)"

fun tracked_section :: "'a critical \<Rightarrow> 'a mutex_inner \<Rightarrow> 'a mutex_inner" where
  "tracked_section (purpose, t0, t1, t2, f) m =
     fst (guard_drop t2 (guard_deref_mut f (fst (mutex_lock purpose t0 t1 m))))"

fun plain_section :: "'a critical \<Rightarrow> 'a \<Rightarrow> 'a" where
  "plain_section (purpose, t0, t1, t2, f) m = plain_drop (plain_deref_mut f (plain_lock purpose m))"

fun owner_of :: "'a critical \<Rightarrow> string \<times> duration" where
  "owner_of (purpose, t0, t1, t2, f) = (purpose, t2 - t1)"

text \<open>The contract of either lock: a section does to the protected value what it says.\<close>

locale lock =
  fixes fresh :: "'a \<Rightarrow> 'm" and run :: "'a critical \<Rightarrow> 'm \<Rightarrow> 'm" and content :: "'m \<Rightarrow> 'a"
  assumes content_fresh: "content (fresh v) = v"
    and content_run: "content (run (p, t0, t1, t2, f) m) = f (content m)"
begin

lemma content_runs: "content (fold run ss (fresh v)) = fold (\<lambda>(p, t0, t1, t2, f). f) ss v"
proof -
  have "content (fold run ss m) = fold (\<lambda>(p, t0, t1, t2, f). f) ss (content m)" for m
    by (induction ss arbitrary: m) (auto simp: content_run)
  then show ?thesis by (simp add: content_fresh)
qed

end

lemma tracked_section_eq:
  "tracked_section (p, t0, t1, t2, f) m =
     \<lparr>mx_last_lock_owner = (p, t2 - t1) # (if length (mx_last_lock_owner m) = 20
        then butlast (mx_last_lock_owner m) else mx_last_lock_owner m), mx_value = f (mx_value m)\<rparr>"
  by (simp add: mutex_lock_def guard_deref_mut_def guard_drop_def MAX_LOCK_OWNERS_def Let_def)

interpretation tracked: lock mutex_new tracked_section mx_value
  by unfold_locales (simp_all only: tracked_section_eq mutex_new_def mutex_inner.simps)

interpretation plain: lock plain_new plain_section "\<lambda>v. v"
  by unfold_locales (simp_all add: plain_new_def plain_lock_def plain_deref_mut_def plain_drop_def)

lemma pop_oldest:
  "(if length (take 20 xs) = 20 then butlast (take 20 xs) else take 20 xs) = take 19 xs"
  by (cases "length xs < 20") (simp_all add: butlast_take)

lemma tracked_owners:
  "mx_last_lock_owner (fold tracked_section ss (mutex_new v)) = take 20 (rev (map owner_of ss))"
proof (induction ss rule: rev_induct)
  case Nil
  then show ?case by (simp add: mutex_new_def)
next
  case (snoc s ss)
  obtain p t0 t1 t2 f where s: "s = (p, t0, t1, t2, f)" by (cases s)
  have "mx_last_lock_owner (fold tracked_section (ss @ [s]) (mutex_new v))
      = (p, t2 - t1) # take 19 (rev (map owner_of ss))"
    unfolding fold_append fold_simps comp_apply s tracked_section_eq mutex_inner.simps snoc pop_oldest ..
  then show ?case by (simp add: s)
qed

section \<open>Property\<close>

text \<open>C40: tracking is transparent. After any sequence of critical sections the tracking lock protects
  the same value as the plain one, and it remembers the last 20 owners, the latest first.\<close>

theorem lock_tracking_equiv:
  "mx_value (fold tracked_section ss (mutex_new v)) = fold plain_section ss (plain_new v)
    \<and> mx_last_lock_owner (fold tracked_section ss (mutex_new v))
        = take MAX_LOCK_OWNERS (rev (map owner_of ss))"
  using tracked_owners [of ss v] tracked.content_runs [of ss v] plain.content_runs [of ss v]
  by (simp add: MAX_LOCK_OWNERS_def)

end
