(* ===== verification/Udx_Handle.thy ===== *)
theory Udx_Handle
  imports Udx_Stream_Wake Udx_Socket Udx_Mutex
begin

text \<open>
  The public handles \<open>UdxStream\<close> and \<open>UdxSocket\<close> of \<open>src/stream.rs\<close> and \<open>src/socket.rs\<close>: each call takes
  the lock of \<open>src/mutex.rs\<close> for a purpose, runs an operation on what it protects and gives the lock back.
  The operations of a handle are written over the call \<open>with_lock\<close> of either lock; its law is the locale
  \<open>lock_calls\<close>, interpreted for both. Under it a sequence of calls on a handle gives the replies of the
  operations on the stream itself, one after the other.
\<close>

section \<open>One call under the lock\<close>

text \<open>Lock, operate on the protected value, drop the guard. An operation that panics is \<open>None\<close>. The
  clock readings of the tracking lock are those before and after acquiring it and at the drop.\<close>

definition plain_with :: "unit \<Rightarrow> string \<Rightarrow> ('a \<Rightarrow> ('a \<times> 'r) option) \<Rightarrow> 'a \<Rightarrow> ('a \<times> 'r) option" where
  "plain_with clock purpose f m = do {
     let g = plain_lock purpose m;
     (v, r) \<leftarrow> f (plain_deref g);
     let g = plain_deref_mut (\<lambda>_. v) g;
     Some (plain_drop g, r)
   }"

definition tracked_with ::
  "instant \<times> instant \<times> instant \<Rightarrow> string \<Rightarrow> ('a \<Rightarrow> ('a \<times> 'r) option) \<Rightarrow> 'a mutex_inner
     \<Rightarrow> ('a mutex_inner \<times> 'r) option" where
  "tracked_with = (\<lambda>(t0, t1, t2) purpose f m. do {
     let g = fst (mutex_lock purpose t0 t1 m);
     (v, r) \<leftarrow> f (guard_deref g);
     let g = guard_deref_mut (\<lambda>_. v) g;
     Some (fst (guard_drop t2 g), r)
   })"

section \<open>The stream handle\<close>

type_synonym ('c, 'a, 'm, 'r) locking = "'c \<Rightarrow> string \<Rightarrow> ('a \<Rightarrow> ('a \<times> 'r) option) \<Rightarrow> 'm \<Rightarrow> ('m \<times> 'r) option"

datatype reply =
    Done
  | Flag bool
  | Address socket_addr
  | Statistics stream_stats
  | ReadReply read_buf "(io_error + unit) poll"
  | WriteReply "(io_error + usize) poll"
  | UnitReply "(io_error + unit) poll"

definition inner_stats :: "udx_stream \<Rightarrow> stream_stats" where
  "inner_stats s = s_stats s"

definition handle_close ::
  "('c, udx_stream, 'm, reply) locking \<Rightarrow> 'c \<Rightarrow> oneshot \<Rightarrow> 'm \<Rightarrow> ('m \<times> reply) option" where
  "handle_close with_lock c tx m = with_lock c ''UdxStream::close'' (\<lambda>s. Some (stream_close tx s, Done)) m"

definition handle_closed ::
  "('c, udx_stream, 'm, reply) locking \<Rightarrow> 'c \<Rightarrow> 'm \<Rightarrow> ('m \<times> reply) option" where
  "handle_closed with_lock c m = with_lock c ''UdxStream::close'' (\<lambda>s. Some (s, Flag (stream_closed s))) m"

definition handle_remote_addr ::
  "('c, udx_stream, 'm, reply) locking \<Rightarrow> 'c \<Rightarrow> 'm \<Rightarrow> ('m \<times> reply) option" where
  "handle_remote_addr with_lock c m =
     with_lock c ''UdxStream::remote_addr'' (\<lambda>s. Some (s, Address (s_remote_addr s))) m"

definition handle_stats ::
  "('c, udx_stream, 'm, reply) locking \<Rightarrow> 'c \<Rightarrow> 'm \<Rightarrow> ('m \<times> reply) option" where
  "handle_stats with_lock c m = with_lock c ''UdxStream::stats'' (\<lambda>s. Some (s, Statistics (inner_stats s))) m"

definition handle_poll_read ::
  "('c, udx_stream, 'm, reply) locking \<Rightarrow> 'c \<Rightarrow> env \<Rightarrow> read_buf \<Rightarrow> 'm \<Rightarrow> ('m \<times> reply) option" where
  "handle_poll_read with_lock c env buf m = with_lock c ''UdxStream::poll_read''
     (\<lambda>s. do { (s, buf, r) \<leftarrow> poll_read env buf s; Some (s, ReadReply buf r) }) m"

definition handle_poll_write ::
  "('c, udx_stream, 'm, reply) locking \<Rightarrow> 'c \<Rightarrow> env \<Rightarrow> u8 list \<Rightarrow> 'm \<Rightarrow> ('m \<times> reply) option" where
  "handle_poll_write with_lock c env buf m = with_lock c ''UdxStream::poll_write''
     (\<lambda>s. do { (s, r) \<leftarrow> poll_write env buf s; Some (s, WriteReply r) }) m"

text \<open>Flushing and shutting down through a handle do not lock.\<close>

definition handle_poll_flush :: "'m \<Rightarrow> ('m \<times> reply) option" where
  "handle_poll_flush m = Some (m, UnitReply (Ready (Inr ())))"

definition handle_poll_shutdown :: "'m \<Rightarrow> ('m \<times> reply) option" where
  "handle_poll_shutdown m = Some (m, UnitReply (Ready (Inr ())))"

text \<open>Dropping a handle when \<open>strong_count\<close> references are left, this one included.\<close>

definition handle_drop ::
  "('c, udx_stream, 'm, reply) locking \<Rightarrow> 'c \<Rightarrow> nat \<Rightarrow> 'm \<Rightarrow> ('m \<times> reply) option" where
  "handle_drop with_lock c strong_count m =
     (if strong_count \<le> 2
      then with_lock c ''UdxStream::drop'' (\<lambda>s. Some (terminate close_graceful s, Done)) m
      else Some (m, Done))"

section \<open>Sequences of calls\<close>

datatype call =
    Close oneshot
  | Closed
  | RemoteAddr
  | Stats
  | PollRead env read_buf
  | PollWrite env "u8 list"
  | PollFlush
  | PollShutdown
  | DropHandle nat

fun handle_call ::
  "('c, udx_stream, 'm, reply) locking \<Rightarrow> 'c \<Rightarrow> call \<Rightarrow> 'm \<Rightarrow> ('m \<times> reply) option" where
  "handle_call w c (Close tx) m = handle_close w c tx m"
| "handle_call w c Closed m = handle_closed w c m"
| "handle_call w c RemoteAddr m = handle_remote_addr w c m"
| "handle_call w c Stats m = handle_stats w c m"
| "handle_call w c (PollRead env buf) m = handle_poll_read w c env buf m"
| "handle_call w c (PollWrite env buf) m = handle_poll_write w c env buf m"
| "handle_call w c PollFlush m = handle_poll_flush m"
| "handle_call w c PollShutdown m = handle_poll_shutdown m"
| "handle_call w c (DropHandle n) m = handle_drop w c n m"

text \<open>The same calls on the stream itself.\<close>

fun inner_call :: "call \<Rightarrow> udx_stream \<Rightarrow> (udx_stream \<times> reply) option" where
  "inner_call (Close tx) s = Some (stream_close tx s, Done)"
| "inner_call Closed s = Some (s, Flag (stream_closed s))"
| "inner_call RemoteAddr s = Some (s, Address (s_remote_addr s))"
| "inner_call Stats s = Some (s, Statistics (s_stats s))"
| "inner_call (PollRead env buf) s = map_option (\<lambda>(s, buf, r). (s, ReadReply buf r)) (poll_read env buf s)"
| "inner_call (PollWrite env buf) s = map_option (\<lambda>(s, r). (s, WriteReply r)) (poll_write env buf s)"
| "inner_call PollFlush s = (let (s, r) = poll_flush s in Some (s, UnitReply r))"
| "inner_call PollShutdown s = (let (s, r) = poll_shutdown s in Some (s, UnitReply r))"
| "inner_call (DropHandle n) s = Some (stream_drop n s, Done)"

fun run_calls :: "('k \<Rightarrow> 's \<Rightarrow> ('s \<times> 'r) option) \<Rightarrow> 'k list \<Rightarrow> 's \<Rightarrow> ('s \<times> 'r list) option" where
  "run_calls f [] s = Some (s, [])"
| "run_calls f (k # ks) s = do {
     (s, r) \<leftarrow> f k s;
     (s, rs) \<leftarrow> run_calls f ks s;
     Some (s, r # rs)
   }"

section \<open>The socket handle\<close>

datatype socket_reply =
    Sent
  | LocalAddress "io_error + socket_addr"
  | Connected udx_stream
  | SocketStatistics socket_stats
  | Datagram "(socket_addr \<times> u8 list) poll"

text \<open>\<open>UdxSocket::bind\<close> puts the bound socket under a fresh lock; the driver it spawns only logs the error
  that ends it.\<close>

definition handle_bind :: "(udx_socket \<Rightarrow> 'm) \<Rightarrow> (io_error + udx_socket) option \<Rightarrow> (io_error + 'm) option" where
  "handle_bind fresh bound =
     map_option (\<lambda>res. case res of Inl e \<Rightarrow> Inl e | Inr inner \<Rightarrow> Inr (fresh inner)) bound"

definition socket_local_addr :: "socket_env \<Rightarrow> udx_socket \<Rightarrow> io_error + socket_addr" where
  "socket_local_addr env k = kv_local_addr env"

definition handle_local_addr ::
  "('c, udx_socket, 'm, socket_reply) locking \<Rightarrow> 'c \<Rightarrow> socket_env \<Rightarrow> 'm \<Rightarrow> ('m \<times> socket_reply) option" where
  "handle_local_addr with_lock c env m =
     with_lock c ''UdxSocket::local_addr'' (\<lambda>k. Some (k, LocalAddress (socket_local_addr env k))) m"

definition handle_connect ::
  "('c, udx_socket, 'm, socket_reply) locking \<Rightarrow> 'c \<Rightarrow> socket_env \<Rightarrow> socket_addr \<Rightarrow> u32 \<Rightarrow> u32
     \<Rightarrow> 'm \<Rightarrow> ('m \<times> socket_reply) option" where
  "handle_connect with_lock c env dest local_id remote_id m = with_lock c ''UdxSocket::connect''
     (\<lambda>k. do { (k, stream) \<leftarrow> socket_connect env dest local_id remote_id k; Some (k, Connected stream) }) m"

definition handle_socket_stats ::
  "('c, udx_socket, 'm, socket_reply) locking \<Rightarrow> 'c \<Rightarrow> 'm \<Rightarrow> ('m \<times> socket_reply) option" where
  "handle_socket_stats with_lock c m =
     with_lock c ''UdxSocket::stats'' (\<lambda>k. Some (k, SocketStatistics (k_stats k))) m"

definition handle_send ::
  "('c, udx_socket, 'm, socket_reply) locking \<Rightarrow> 'c \<Rightarrow> socket_addr \<Rightarrow> u8 list \<Rightarrow> 'm \<Rightarrow> ('m \<times> socket_reply) option" where
  "handle_send with_lock c dest buf m =
     with_lock c ''UdxSocket::send'' (\<lambda>k. Some (socket_send dest buf k, Sent)) m"

text \<open>\<open>recv\<close> returns a future that holds the handle; each poll of it takes the lock.\<close>

definition handle_recv ::
  "('c, udx_socket, 'm, socket_reply) locking \<Rightarrow> 'c \<Rightarrow> waker \<Rightarrow> 'm \<Rightarrow> ('m \<times> socket_reply) option" where
  "handle_recv with_lock c w m = with_lock c ''UdxSocket::recv''
     (\<lambda>k. let (k, d) = recv_future_poll w k in Some (k, Datagram d)) m"

datatype socket_call =
    LocalAddr socket_env
  | Connect socket_env socket_addr u32 u32
  | SocketStats
  | Send socket_addr "u8 list"
  | Recv waker

fun handle_socket_call ::
  "('c, udx_socket, 'm, socket_reply) locking \<Rightarrow> 'c \<Rightarrow> socket_call \<Rightarrow> 'm \<Rightarrow> ('m \<times> socket_reply) option" where
  "handle_socket_call w c (LocalAddr env) m = handle_local_addr w c env m"
| "handle_socket_call w c (Connect env dest lid rid) m = handle_connect w c env dest lid rid m"
| "handle_socket_call w c SocketStats m = handle_socket_stats w c m"
| "handle_socket_call w c (Send dest buf) m = handle_send w c dest buf m"
| "handle_socket_call w c (Recv waker) m = handle_recv w c waker m"

fun inner_socket_call :: "socket_call \<Rightarrow> udx_socket \<Rightarrow> (udx_socket \<times> socket_reply) option" where
  "inner_socket_call (LocalAddr env) k = Some (k, LocalAddress (kv_local_addr env))"
| "inner_socket_call (Connect env dest lid rid) k =
     map_option (\<lambda>(k, s). (k, Connected s)) (socket_connect env dest lid rid k)"
| "inner_socket_call SocketStats k = Some (k, SocketStatistics (k_stats k))"
| "inner_socket_call (Send dest buf) k = Some (socket_send dest buf k, Sent)"
| "inner_socket_call (Recv waker) k = (let (k, d) = recv_future_poll waker k in Some (k, Datagram d))"

section \<open>The contract of the lock\<close>

text \<open>A call under the lock does to the protected value, and returns, what the operation does and returns.
  What one call does carries over to a sequence of calls.\<close>

locale lock_calls =
  fixes with_lock :: "('c, 'a, 'm, 'r) locking" and content :: "'m \<Rightarrow> 'a"
  assumes with_lock: "map_option (\<lambda>(m, r). (content m, r)) (with_lock c purpose f m) = f (content m)"
begin

lemma sequence:
  assumes one: "\<And>c k m. map_option (\<lambda>(m, r). (content m, r)) (call c k m) = inner k (content m)"
  shows "map_option (\<lambda>(m, rs). (content m, rs)) (run_calls (\<lambda>(c, k). call c k) cks m)
     = run_calls inner (map snd cks) (content m)"
proof (induction cks arbitrary: m)
  case (Cons ck cks)
  obtain c k where ck: "ck = (c, k)" by (cases ck)
  note inner = one [of c k m, symmetric]
  show ?case
  proof (cases "call c k m")
    case None
    with inner show ?thesis by (simp add: ck)
  next
    case (Some mr)
    obtain m' r where mr: "mr = (m', r)" by (cases mr)
    have "inner k (content m) = Some (content m', r)" using inner Some mr by simp
    with Some mr Cons [of m', symmetric] show ?thesis
      by (cases "run_calls (\<lambda>(c, k). call c k) cks m'") (auto simp: ck)
  qed
qed simp

end

locale stream_handle = lock_calls with_lock content
  for with_lock :: "('c, udx_stream, 'm, reply) locking" and content :: "'m \<Rightarrow> udx_stream"
begin

lemma call_inner:
  "map_option (\<lambda>(m, r). (content m, r)) (handle_call with_lock c k m) = inner_call k (content m)"
  by (cases k) (auto simp: handle_close_def handle_closed_def handle_remote_addr_def handle_stats_def
      handle_poll_read_def handle_poll_write_def handle_poll_flush_def handle_poll_shutdown_def handle_drop_def
      inner_stats_def poll_flush_def poll_shutdown_def stream_drop_def with_lock
      simp del: map_option_eq_Some split: Option.bind_split option.split)

lemmas calls_inner = sequence [of "handle_call with_lock" inner_call, OF call_inner]

end

locale socket_handle = lock_calls with_lock content
  for with_lock :: "('c, udx_socket, 'm, socket_reply) locking" and content :: "'m \<Rightarrow> udx_socket"
begin

lemma socket_call_inner:
  "map_option (\<lambda>(m, r). (content m, r)) (handle_socket_call with_lock c k m) = inner_socket_call k (content m)"
  by (cases k) (auto simp: handle_local_addr_def handle_connect_def handle_socket_stats_def handle_send_def
      handle_recv_def socket_local_addr_def with_lock
      simp del: map_option_eq_Some split: Option.bind_split option.split)

lemmas socket_calls_inner = sequence [of "handle_socket_call with_lock" inner_socket_call, OF socket_call_inner]

end

lemma plain_with_law: "map_option (\<lambda>(m, r). (m, r)) (plain_with c purpose f m) = f m"
  by (auto simp: plain_with_def plain_lock_def plain_deref_def plain_deref_mut_def plain_drop_def
      option.map_id split: Option.bind_splits)

lemma tracked_with_law: "map_option (\<lambda>(m, r). (mx_value m, r)) (tracked_with c purpose f m) = f (mx_value m)"
  by (cases c) (auto simp: tracked_with_def mutex_lock_def guard_deref_def guard_deref_mut_def guard_drop_def
      Let_def split: Option.bind_splits)

interpretation plain_stream: stream_handle plain_with "\<lambda>v. v"
  by unfold_locales (rule plain_with_law)

interpretation tracked_stream: stream_handle tracked_with mx_value
  by unfold_locales (rule tracked_with_law)

interpretation plain_socket: socket_handle plain_with "\<lambda>v. v"
  by unfold_locales (rule plain_with_law)

interpretation tracked_socket: socket_handle tracked_with mx_value
  by unfold_locales (rule tracked_with_law)

text \<open>On a stream that follows \<open>stream_step\<close> the calls of a handle are such steps, or change nothing.\<close>

lemma inner_call_step:
  assumes "inner_call k s = Some (t, r)"
    "\<And>env buf. k = PollWrite env buf \<Longrightarrow> unat (s_seq s) + packets_for (length buf) \<le> 4294967295"
  shows "t = s \<or> stream_step s t"
proof (cases k)
  case (PollRead env buf)
  then show ?thesis using assms(1) by (auto intro: do_read)
next
  case (PollWrite env buf)
  then show ?thesis using assms by (auto intro: do_write)
next
  case (Close tx)
  then show ?thesis using assms(1) do_close by auto
next
  case (DropHandle n)
  then show ?thesis using assms(1) do_drop_handle by auto
qed (use assms(1) in \<open>auto simp: poll_flush_def poll_shutdown_def\<close>)

end
