(* ===== verification/Udx_Constants.thy ===== *)
theory Udx_Constants
  imports Udx_Packet
begin

text \<open>
  The constants of \<open>src/constants.rs\<close> that the crate exports without using them itself. Most are the flag
  sets of the C implementation whose protocol this crate speaks. The constants in use are in
  \<open>Udx_Packet\<close>.
\<close>

definition UDX_HEADER_MESSAGE :: u32 where "UDX_HEADER_MESSAGE = 8"
definition UDX_HEADER_DESTROY :: u32 where "UDX_HEADER_DESTROY = 16"

definition UDX_DEFAULT_TTL :: u32 where "UDX_DEFAULT_TTL = 64"
definition UDX_MSS :: usize where "UDX_MSS = 1460"
definition UDX_DATA_MTU :: usize where "UDX_DATA_MTU = UDX_MTU - UDX_HEADER_SIZE"

definition UDX_SOCKET_RECEIVING :: u32 where "UDX_SOCKET_RECEIVING = 1"
definition UDX_SOCKET_BOUND :: u32 where "UDX_SOCKET_BOUND = 2"
definition UDX_SOCKET_CLOSING :: u32 where "UDX_SOCKET_CLOSING = 4"
definition UDX_SOCKET_CLOSING_HANDLES :: u32 where "UDX_SOCKET_CLOSING_HANDLES = 8"

definition UDX_PACKET_STREAM_STATE :: u32 where "UDX_PACKET_STREAM_STATE = 1"
definition UDX_PACKET_STREAM_WRITE :: u32 where "UDX_PACKET_STREAM_WRITE = 2"
definition UDX_PACKET_STREAM_SEND :: u32 where "UDX_PACKET_STREAM_SEND = 4"
definition UDX_PACKET_STREAM_DESTROY :: u32 where "UDX_PACKET_STREAM_DESTROY = 8"
definition UDX_PACKET_SEND :: u32 where "UDX_PACKET_SEND = 16"

definition UDX_PACKET_CALLBACK :: u32 where
  "UDX_PACKET_CALLBACK = UDX_PACKET_STREAM_SEND OR UDX_PACKET_STREAM_DESTROY OR UDX_PACKET_SEND"
definition UDX_PACKET_FREE_ON_SEND :: u32 where
  "UDX_PACKET_FREE_ON_SEND = UDX_PACKET_STREAM_STATE OR UDX_PACKET_STREAM_DESTROY"

definition UDX_HEADER_DATA_OR_END :: u32 where
  "UDX_HEADER_DATA_OR_END = UDX_HEADER_DATA OR UDX_HEADER_END"

definition UDX_STREAM_CONNECTED :: u32 where "UDX_STREAM_CONNECTED = 1"
definition UDX_STREAM_RECEIVING :: u32 where "UDX_STREAM_RECEIVING = 2"
definition UDX_STREAM_READING :: u32 where "UDX_STREAM_READING = 4"
definition UDX_STREAM_ENDING :: u32 where "UDX_STREAM_ENDING = 8"
definition UDX_STREAM_ENDING_REMOTE :: u32 where "UDX_STREAM_ENDING_REMOTE = 16"
definition UDX_STREAM_ENDED :: u32 where "UDX_STREAM_ENDED = 32"
definition UDX_STREAM_ENDED_REMOTE :: u32 where "UDX_STREAM_ENDED_REMOTE = 64"
definition UDX_STREAM_DESTROYING :: u32 where "UDX_STREAM_DESTROYING = 128"
definition UDX_STREAM_DESTROYED :: u32 where "UDX_STREAM_DESTROYED = 256"
definition UDX_STREAM_DESTROYED_REMOTE :: u32 where "UDX_STREAM_DESTROYED_REMOTE = 512"
definition UDX_STREAM_CLOSED :: u32 where "UDX_STREAM_CLOSED = 1024"

definition UDX_STREAM_ALL_DESTROYED :: u32 where
  "UDX_STREAM_ALL_DESTROYED = UDX_STREAM_DESTROYED OR UDX_STREAM_DESTROYED_REMOTE"
definition UDX_STREAM_ALL_ENDED :: u32 where
  "UDX_STREAM_ALL_ENDED = UDX_STREAM_ENDED OR UDX_STREAM_ENDED_REMOTE"
definition UDX_STREAM_DEAD :: u32 where
  "UDX_STREAM_DEAD = UDX_STREAM_ALL_DESTROYED OR UDX_STREAM_DESTROYING OR UDX_STREAM_CLOSED"
definition UDX_STREAM_SHOULD_READ :: u32 where
  "UDX_STREAM_SHOULD_READ = UDX_STREAM_ENDED_REMOTE OR UDX_STREAM_DEAD"
definition UDX_STREAM_READ :: u32 where "UDX_STREAM_READ = 0"
definition UDX_STREAM_SHOULD_END :: u32 where
  "UDX_STREAM_SHOULD_END = UDX_STREAM_ENDING OR UDX_STREAM_ENDED OR UDX_STREAM_DEAD"
definition UDX_STREAM_END :: u32 where "UDX_STREAM_END = UDX_STREAM_ENDING"
definition UDX_STREAM_SHOULD_END_REMOTE :: u32 where
  "UDX_STREAM_SHOULD_END_REMOTE = UDX_STREAM_ENDED_REMOTE OR UDX_STREAM_DEAD OR UDX_STREAM_ENDING_REMOTE"
definition UDX_STREAM_END_REMOTE :: u32 where "UDX_STREAM_END_REMOTE = UDX_STREAM_ENDING_REMOTE"

lemmas udx_flags = UDX_HEADER_MESSAGE_def UDX_HEADER_DESTROY_def UDX_STREAM_CONNECTED_def
  UDX_STREAM_RECEIVING_def UDX_STREAM_READING_def UDX_STREAM_ENDING_def UDX_STREAM_ENDING_REMOTE_def
  UDX_STREAM_ENDED_def UDX_STREAM_ENDED_REMOTE_def UDX_STREAM_DESTROYING_def UDX_STREAM_DESTROYED_def
  UDX_STREAM_DESTROYED_REMOTE_def UDX_STREAM_CLOSED_def UDX_STREAM_ALL_DESTROYED_def
  UDX_STREAM_ALL_ENDED_def UDX_STREAM_DEAD_def UDX_STREAM_SHOULD_READ_def UDX_STREAM_READ_def
  UDX_STREAM_SHOULD_END_def UDX_STREAM_END_def UDX_STREAM_SHOULD_END_REMOTE_def UDX_STREAM_END_REMOTE_def

text \<open>The flags of a header are different bits, so a set of them can be read back flag by flag.\<close>

lemma header_flags_bits:
  "map (\<lambda>i. push_bit i (1 :: u32)) [0..<5]
     = [UDX_HEADER_DATA, UDX_HEADER_END, UDX_HEADER_SACK, UDX_HEADER_MESSAGE, UDX_HEADER_DESTROY]"
  by (simp add: udx_flags udx_constants upt_rec)

text \<open>So are the flags of a stream; a stream is dead when it is destroyed, being destroyed or closed.\<close>

lemma stream_flags_bits:
  "map (\<lambda>i. push_bit i (1 :: u32)) [0..<11]
     = [UDX_STREAM_CONNECTED, UDX_STREAM_RECEIVING, UDX_STREAM_READING, UDX_STREAM_ENDING,
        UDX_STREAM_ENDING_REMOTE, UDX_STREAM_ENDED, UDX_STREAM_ENDED_REMOTE, UDX_STREAM_DESTROYING,
        UDX_STREAM_DESTROYED, UDX_STREAM_DESTROYED_REMOTE, UDX_STREAM_CLOSED]"
  by (simp add: udx_flags upt_rec)

lemma stream_dead_flags: "UDX_STREAM_DEAD = 128 + 256 + 512 + 1024"
  by (simp add: udx_flags)

text \<open>What \<open>UDX_DATA_MTU\<close> leaves for data is the data limit that the streams use.\<close>

lemma data_mtu: "UDX_DATA_MTU = UDX_MAX_DATA_SIZE"
  by (simp add: UDX_DATA_MTU_def udx_constants)

end
