(* ===== verification/Udx_Examples.thy ===== *)
theory Udx_Examples
  imports Udx_Constants Udx_Socket_Props
begin

text \<open>
  The programs of \<open>examples/\<close> as clients of the model: the loops of \<open>rw.rs\<close> that write and read until a
  limit is passed, the loops of \<open>multi_stream.rs\<close> and \<open>bench.rs\<close> that connect pairs of streams on two
  sockets, and how \<open>bench.rs\<close> reads its parameters. The operations of \<open>tokio\<close> that the loops call are
  arguments: \<open>write_all\<close> and \<open>read\<close> act on the state of the stream they are given.
\<close>

section \<open>rw.rs\<close>

text \<open>The loops print what they did; a failure is returned at once. They end only when the limit is
  passed, so each is a partial function.\<close>

partial_function (option) rw_read_loop ::
  "('r \<Rightarrow> usize \<Rightarrow> 'r \<times> (io_error + usize)) \<Rightarrow> usize \<Rightarrow> usize \<Rightarrow> 'r \<Rightarrow> ('r \<times> (io_error + usize)) option" where
  "rw_read_loop read limit len stream =
     (case read stream (UDX_DATA_MTU * 8) of
        (stream, Inl e) \<Rightarrow> Some (stream, Inl e)
      | (stream, Inr n) \<Rightarrow>
          let len = len + n in
          if len > limit then Some (stream, Inr len)
          else rw_read_loop read limit len stream)"

partial_function (option) rw_write_loop ::
  "('w \<Rightarrow> u8 list \<Rightarrow> 'w \<times> (io_error + unit)) \<Rightarrow> u8 list \<Rightarrow> usize \<Rightarrow> nat \<Rightarrow> usize \<Rightarrow> 'w
     \<Rightarrow> ('w \<times> (io_error + usize \<times> nat)) option" where
  "rw_write_loop write_all msg limit i written stream =
     (case write_all stream msg of
        (stream, Inl e) \<Rightarrow> Some (stream, Inl e)
      | (stream, Inr _) \<Rightarrow>
          let written = written + length msg; i = i + 1 in
          if written > limit then Some (stream, Inr (written, i))
          else rw_write_loop write_all msg limit i written stream)"

definition rw_max_len :: usize where
  "rw_max_len = UDX_DATA_MTU * 64"

definition rw_msg :: "u8 list" where
  "rw_msg = replicate (UDX_DATA_MTU * 8) 1"

section \<open>bench.rs: parameters\<close>

text \<open>\<open>str::parse::<usize>\<close>: an optional sign, then at least one digit, and no overflow.\<close>

definition digit :: "char \<Rightarrow> nat option" where
  "digit c = (let n = of_char c :: nat in if 48 \<le> n \<and> n \<le> 57 then Some (n - 48) else None)"

definition parse_usize :: "string \<Rightarrow> usize option" where
  "parse_usize x = do {
     let x = (case x of CHR ''+'' # cs \<Rightarrow> cs | _ \<Rightarrow> x);
     ds \<leftarrow> those (map digit x);
     let n = foldl (\<lambda>n d. 10 * n + d) 0 ds;
     if ds = [] \<or> n \<ge> 2 ^ 64 then None else Some n
   }"

text \<open>A variable that is not set gives the default, one that is not a number ends the program.\<close>

definition usize_from_env :: "string option \<Rightarrow> usize \<Rightarrow> usize option" where
  "usize_from_env var dflt = (case var of None \<Rightarrow> Some dflt | Some x \<Rightarrow> parse_usize x)"

section \<open>Pairs of streams\<close>

text \<open>A stream that a program holds, with the bytes of its buffer and its number; \<open>bench.rs\<close> does not keep the
  number.\<close>

type_synonym held = "udx_stream \<times> u8 list \<times> u32"

record pairs =
  pr_socka :: udx_socket
  pr_sockb :: udx_socket
  pr_readers :: "held list"
  pr_writers :: "held list"

definition MSGSIZE :: usize where
  "MSGSIZE = UDX_DATA_MTU * 64"

text \<open>The loop bodies for the number \<open>i\<close>; \<open>addra\<close> and \<open>addrb\<close> are the addresses of the two sockets.\<close>

definition multi_connect ::
  "socket_env \<Rightarrow> socket_env \<Rightarrow> socket_addr \<Rightarrow> socket_addr \<Rightarrow> u32 \<Rightarrow> pairs \<Rightarrow> pairs option" where
  "multi_connect enva envb addra addrb i pr = do {
     (socka, streama) \<leftarrow> socket_connect enva addrb (1000 + i) i (pr_socka pr);
     (sockb, streamb) \<leftarrow> socket_connect envb addra i (1000 + i) (pr_sockb pr);
     let read_buf = replicate MSGSIZE 0;
     let write_buf = replicate MSGSIZE (ucast i);
     let (reader, writer) = (if i mod 2 = 0 then (streama, streamb) else (streamb, streama));
     Some \<lparr>pr_socka = socka, pr_sockb = sockb, pr_readers = pr_readers pr @ [(reader, read_buf, i)],
       pr_writers = pr_writers pr @ [(writer, write_buf, i)]\<rparr>
   }"

definition bench_connect ::
  "socket_env \<Rightarrow> socket_env \<Rightarrow> socket_addr \<Rightarrow> socket_addr \<Rightarrow> usize \<Rightarrow> u32 \<Rightarrow> pairs \<Rightarrow> pairs option" where
  "bench_connect enva envb addra addrb len i pr = do {
     (socka, streama) \<leftarrow> socket_connect enva addrb i i (pr_socka pr);
     (sockb, streamb) \<leftarrow> socket_connect envb addra i i (pr_sockb pr);
     let read_buf = replicate len 0;
     let write_buf = replicate len (ucast i);
     let pr = pr\<lparr>pr_socka := socka, pr_sockb := sockb\<rparr>;
     if i mod 2 = 0 then
       Some (pr\<lparr>pr_readers := pr_readers pr @ [(streama, read_buf, i)],
                pr_writers := pr_writers pr @ [(streamb, write_buf, i)]\<rparr>)
     else
       Some (pr\<lparr>pr_readers := pr_readers pr @ [(streamb, write_buf, i)],
                pr_writers := pr_writers pr @ [(streama, read_buf, i)]\<rparr>)
   }"

fun connect_all :: "(u32 \<Rightarrow> pairs \<Rightarrow> pairs option) \<Rightarrow> u32 list \<Rightarrow> pairs \<Rightarrow> pairs option" where
  "connect_all body [] pr = Some pr"
| "connect_all body (i # is) pr = do { pr \<leftarrow> body i pr; connect_all body is pr }"

definition multi_streams ::
  "socket_env \<Rightarrow> socket_env \<Rightarrow> socket_addr \<Rightarrow> socket_addr \<Rightarrow> udx_socket \<Rightarrow> udx_socket \<Rightarrow> pairs option" where
  "multi_streams enva envb addra addrb socka sockb =
     (let num_streams = 8 in
      connect_all (multi_connect enva envb addra addrb) (map word_of_nat [1..<num_streams + 1])
        \<lparr>pr_socka = socka, pr_sockb = sockb, pr_readers = [], pr_writers = []\<rparr>)"

text \<open>Up to its loop \<open>run\<close> divides the bytes among the streams; without streams that is a division by
  zero, a panic.\<close>

definition bench_streams ::
  "socket_env \<Rightarrow> socket_env \<Rightarrow> socket_addr \<Rightarrow> socket_addr \<Rightarrow> usize \<Rightarrow> usize \<Rightarrow> udx_socket \<Rightarrow> udx_socket
     \<Rightarrow> pairs option" where
  "bench_streams enva envb addra addrb bytes num_streams socka sockb =
     (if num_streams = 0 then None
      else let len = bytes div num_streams; n = word_of_nat num_streams in
      connect_all (bench_connect enva envb addra addrb len) (if n = 0 then [] else u32_range 1 n @ [n])
        \<lparr>pr_socka = socka, pr_sockb = sockb, pr_readers = [], pr_writers = []\<rparr>)"

section \<open>The loops of rw.rs end\<close>

text \<open>As long as writing succeeds, the message is written until the limit is passed for the first time.\<close>

lemma rw_write_loop_from:
  assumes msg: "msg \<noteq> []" and ok: "\<And>w. snd (write_all w msg) = Inr ()"
  shows "written \<le> limit \<Longrightarrow> \<exists>w'. rw_write_loop write_all msg limit i written w
     = Some (w', Inr (written + ((limit - written) div length msg + 1) * length msg,
         i + (limit - written) div length msg + 1))"
proof (induction "limit - written" arbitrary: i written w rule: less_induct)
  case less
  obtain v where v: "write_all w msg = (v, Inr ())" using ok [of w] by (cases "write_all w msg") auto
  let ?n = "length msg"
  have n: "0 < ?n" using msg by simp
  show ?case
  proof (cases "written + ?n > limit")
    case True
    then have "(limit - written) div ?n = 0" using less.prems by simp
    then show ?thesis using True v by (subst rw_write_loop.simps) (simp add: Let_def)
  next
    case False
    let ?d = "(limit - (written + ?n)) div ?n"
    from False n have "limit - (written + ?n) < limit - written" "written + ?n \<le> limit" by linarith+
    from less.hyps [OF this, of "i + 1" v] obtain w' where
      w': "rw_write_loop write_all msg limit (i + 1) (written + ?n) v
        = Some (w', Inr (written + ?n + (?d + 1) * ?n, i + 1 + ?d + 1))" by blast
    have "(limit - written) div ?n = ?d + 1"
      using False n div_add_self2 [of ?n "limit - (written + ?n)"] by simp
    then show ?thesis using False v w' by (subst rw_write_loop.simps) (simp add: Let_def)
  qed
qed

lemma rw_write_loop_ends:
  assumes "\<And>w. snd (write_all w rw_msg) = Inr ()"
  shows "\<exists>w'. rw_write_loop write_all rw_msg rw_max_len 0 0 w = Some (w', Inr (9 * length rw_msg, 9))"
proof -
  have n: "length rw_msg = 11040" "rw_max_len = 88320"
    by (simp_all add: rw_msg_def rw_max_len_def UDX_DATA_MTU_def udx_constants)
  then have "rw_msg \<noteq> []" by auto
  from rw_write_loop_from [where write_all = write_all, OF this assms, of 0 rw_max_len 0 w] show ?thesis
    by (simp add: n)
qed

text \<open>Reading ends once more than the limit is there to be read, whatever pieces it comes in. What
  \<open>read\<close> documents: while bytes are pending it returns at least one of them.\<close>

lemma rw_read_loop_ends:
  assumes step: "\<And>r. 0 < pending r \<Longrightarrow> \<exists>r' n. read r (UDX_DATA_MTU * 8) = (r', Inr n) \<and> 0 < n
      \<and> n + pending r' = pending r"
  shows "len \<le> limit \<Longrightarrow> limit < len + pending r \<Longrightarrow>
    \<exists>r' n. rw_read_loop read limit len r = Some (r', Inr n) \<and> limit < n \<and> n \<le> len + pending r"
proof (induction "pending r" arbitrary: len r rule: less_induct)
  case less
  then have "0 < pending r" by linarith
  from step [OF this] obtain r' n where r: "read r (UDX_DATA_MTU * 8) = (r', Inr n)" "0 < n"
    "n + pending r' = pending r" by blast
  show ?case
  proof (cases "len + n > limit")
    case True
    then show ?thesis using r by (subst rw_read_loop.simps) (simp add: Let_def)
  next
    case False
    with less.prems r have "pending r' < pending r" "len + n \<le> limit" "limit < len + n + pending r'" by linarith+
    from less.hyps [OF this] obtain r'' m where "rw_read_loop read limit (len + n) r' = Some (r'', Inr m)"
      "limit < m" "m \<le> len + n + pending r'" by blast
    then show ?thesis using False r by (subst rw_read_loop.simps) (auto simp: Let_def)
  qed
qed

text \<open>The two programs of \<open>rw.rs\<close> together: what one writes is enough for the other to end.\<close>

lemma rw_finishes:
  assumes "\<And>r. 0 < pending r \<Longrightarrow> \<exists>r' n. read r (UDX_DATA_MTU * 8) = (r', Inr n) \<and> 0 < n
      \<and> n + pending r' = pending r"
    and "\<And>w. snd (write_all w rw_msg) = Inr ()"
  shows "\<exists>w' written i. rw_write_loop write_all rw_msg rw_max_len 0 0 w = Some (w', Inr (written, i))
    \<and> (pending r = written \<longrightarrow> (\<exists>r' n. rw_read_loop read rw_max_len 0 r = Some (r', Inr n)))"
proof -
  obtain w' where w': "rw_write_loop write_all rw_msg rw_max_len 0 0 w = Some (w', Inr (9 * length rw_msg, 9))"
    using rw_write_loop_ends [where write_all = write_all, OF assms(2)] by blast
  have "rw_max_len < 9 * length rw_msg"
    by (simp add: rw_msg_def rw_max_len_def UDX_DATA_MTU_def udx_constants)
  then have "\<exists>r' n. rw_read_loop read rw_max_len 0 r = Some (r', Inr n)" if "pending r = 9 * length rw_msg"
    using rw_read_loop_ends [of pending read 0 rw_max_len r, OF assms(1)] that by auto
  with w' show ?thesis by blast
qed

section \<open>Every reader has its writer\<close>

text \<open>Two streams, one on each socket, that address each other, and the entries under which the sockets
  find them.\<close>

definition linked :: "socket_addr \<Rightarrow> socket_addr \<Rightarrow> pairs \<Rightarrow> udx_stream \<Rightarrow> udx_stream \<Rightarrow> bool" where
  "linked addra addrb pr sa sb \<longleftrightarrow>
     s_remote_addr sa = addrb \<and> s_remote_addr sb = addra
     \<and> s_remote_id sa = s_local_id sb \<and> s_remote_id sb = s_local_id sa
     \<and> map_of (k_streams (pr_socka pr)) (s_local_id sa) \<noteq> None
     \<and> map_of (k_streams (pr_sockb pr)) (s_local_id sb) \<noteq> None"

definition all_linked :: "socket_addr \<Rightarrow> socket_addr \<Rightarrow> pairs \<Rightarrow> bool" where
  "all_linked addra addrb pr \<longleftrightarrow>
     list_all2 (\<lambda>(r, _, i) (w, _, j). i = j \<and> (linked addra addrb pr r w \<or> linked addra addrb pr w r))
       (pr_readers pr) (pr_writers pr)"

text \<open>What the body of such a loop does, whichever numbers it gives to the two ends of the pair \<open>i\<close>.\<close>

locale pairing =
  fixes addra addrb :: socket_addr and fa fb :: "u32 \<Rightarrow> u32" and body :: "u32 \<Rightarrow> pairs \<Rightarrow> pairs option"
  assumes body: "body i pr = Some pr' \<Longrightarrow> \<exists>sa sb ca cb x y.
      k_streams (pr_socka pr') = AList.update (fa i) ca (k_streams (pr_socka pr))
      \<and> k_streams (pr_sockb pr') = AList.update (fb i) cb (k_streams (pr_sockb pr))
      \<and> s_local_id sa = fa i \<and> s_remote_id sa = fb i \<and> s_remote_addr sa = addrb
      \<and> s_local_id sb = fb i \<and> s_remote_id sb = fa i \<and> s_remote_addr sb = addra
      \<and> (pr_readers pr' = pr_readers pr @ [(sa, x, i)] \<and> pr_writers pr' = pr_writers pr @ [(sb, y, i)]
         \<or> pr_readers pr' = pr_readers pr @ [(sb, x, i)] \<and> pr_writers pr' = pr_writers pr @ [(sa, y, i)])"
begin

lemma all_linked_body:
  assumes pr: "all_linked addra addrb pr" and b: "body i pr = Some pr'"
  shows "all_linked addra addrb pr'"
proof -
  obtain sa sb ca cb x y where k: "k_streams (pr_socka pr') = AList.update (fa i) ca (k_streams (pr_socka pr))"
      "k_streams (pr_sockb pr') = AList.update (fb i) cb (k_streams (pr_sockb pr))"
    and s: "s_local_id sa = fa i" "s_remote_id sa = fb i" "s_remote_addr sa = addrb"
      "s_local_id sb = fb i" "s_remote_id sb = fa i" "s_remote_addr sb = addra"
    and rw: "pr_readers pr' = pr_readers pr @ [(sa, x, i)] \<and> pr_writers pr' = pr_writers pr @ [(sb, y, i)]
      \<or> pr_readers pr' = pr_readers pr @ [(sb, x, i)] \<and> pr_writers pr' = pr_writers pr @ [(sa, y, i)]"
    using body [OF b] by blast
  have new: "linked addra addrb pr' sa sb" using k s by (simp add: linked_def update_conv')
  have old: "linked addra addrb pr' u v" if "linked addra addrb pr u v" for u v
    using that by (auto simp: linked_def k update_conv')
  have "list_all2 (\<lambda>(r, _, i) (w, _, j). i = j \<and> (linked addra addrb pr' r w \<or> linked addra addrb pr' w r))
      (pr_readers pr) (pr_writers pr)"
    using pr old unfolding all_linked_def by (auto elim!: list_all2_mono)
  with new rw show ?thesis by (auto simp: all_linked_def intro: list_all2_appendI)
qed

lemma all_linked_loop:
  "all_linked addra addrb pr \<Longrightarrow> connect_all body is pr = Some pr' \<Longrightarrow> all_linked addra addrb pr'"
  by (induction "is" arbitrary: pr) (auto simp: bind_eq_Some_conv intro: all_linked_body)

end

lemma socket_connect_stream:
  assumes "socket_connect env dest lid rid k = Some (k', s)"
  shows "k_streams k' = AList.update lid (k_next_chan k) (k_streams k)" "s_local_id s = lid" "s_remote_id s = rid"
    "s_remote_addr s = dest"
  using assms by (auto simp: socket_connect_def stream_connect_def Let_def split: sum.splits)

interpretation multi: pairing addra addrb "\<lambda>i. 1000 + i" "\<lambda>i. i" "multi_connect enva envb addra addrb"
  for addra addrb enva envb
proof unfold_locales
  fix i pr pr'
  assume "multi_connect enva envb addra addrb i pr = Some pr'"
  then obtain ka sa kb sb where a: "socket_connect enva addrb (1000 + i) i (pr_socka pr) = Some (ka, sa)"
    and b: "socket_connect envb addra i (1000 + i) (pr_sockb pr) = Some (kb, sb)"
    and pr': "pr_socka pr' = ka" "pr_sockb pr' = kb"
      "pr_readers pr' = pr_readers pr @ [(if even i then sa else sb, replicate MSGSIZE 0, i)]"
      "pr_writers pr' = pr_writers pr @ [(if even i then sb else sa, replicate MSGSIZE (ucast i), i)]"
    unfolding multi_connect_def even_iff_mod_2_eq_zero [symmetric]
    by (cases "even i") (auto simp: bind_eq_Some_conv Let_def)
  show "\<exists>sa sb ca cb x y.
      k_streams (pr_socka pr') = AList.update (1000 + i) ca (k_streams (pr_socka pr))
      \<and> k_streams (pr_sockb pr') = AList.update i cb (k_streams (pr_sockb pr))
      \<and> s_local_id sa = 1000 + i \<and> s_remote_id sa = i \<and> s_remote_addr sa = addrb
      \<and> s_local_id sb = i \<and> s_remote_id sb = 1000 + i \<and> s_remote_addr sb = addra
      \<and> (pr_readers pr' = pr_readers pr @ [(sa, x, i)] \<and> pr_writers pr' = pr_writers pr @ [(sb, y, i)]
         \<or> pr_readers pr' = pr_readers pr @ [(sb, x, i)] \<and> pr_writers pr' = pr_writers pr @ [(sa, y, i)])"
    using socket_connect_stream [OF a] socket_connect_stream [OF b]
    by (intro exI [of _ sa] exI [of _ sb] exI [of _ "k_next_chan (pr_socka pr)"] exI [of _ "k_next_chan (pr_sockb pr)"]
        exI [of _ "replicate MSGSIZE 0"] exI [of _ "replicate MSGSIZE (ucast i)"]) (simp add: pr')
qed

interpretation bench: pairing addra addrb "\<lambda>i. i" "\<lambda>i. i" "bench_connect enva envb addra addrb len"
  for addra addrb enva envb len
proof unfold_locales
  fix i pr pr'
  assume "bench_connect enva envb addra addrb len i pr = Some pr'"
  then obtain ka sa kb sb where a: "socket_connect enva addrb i i (pr_socka pr) = Some (ka, sa)"
    and b: "socket_connect envb addra i i (pr_sockb pr) = Some (kb, sb)"
    and pr': "pr_socka pr' = ka" "pr_sockb pr' = kb"
      "pr_readers pr' = pr_readers pr @ [(if even i then sa else sb, (if even i then replicate len 0 else replicate len (ucast i)), i)]"
      "pr_writers pr' = pr_writers pr @ [(if even i then sb else sa, (if even i then replicate len (ucast i) else replicate len 0), i)]"
    unfolding bench_connect_def even_iff_mod_2_eq_zero [symmetric]
    by (cases "even i") (auto simp: bind_eq_Some_conv Let_def)
  show "\<exists>sa sb ca cb x y.
      k_streams (pr_socka pr') = AList.update i ca (k_streams (pr_socka pr))
      \<and> k_streams (pr_sockb pr') = AList.update i cb (k_streams (pr_sockb pr))
      \<and> s_local_id sa = i \<and> s_remote_id sa = i \<and> s_remote_addr sa = addrb
      \<and> s_local_id sb = i \<and> s_remote_id sb = i \<and> s_remote_addr sb = addra
      \<and> (pr_readers pr' = pr_readers pr @ [(sa, x, i)] \<and> pr_writers pr' = pr_writers pr @ [(sb, y, i)]
         \<or> pr_readers pr' = pr_readers pr @ [(sb, x, i)] \<and> pr_writers pr' = pr_writers pr @ [(sa, y, i)])"
    using socket_connect_stream [OF a] socket_connect_stream [OF b]
    by (intro exI [of _ sa] exI [of _ sb] exI [of _ "k_next_chan (pr_socka pr)"] exI [of _ "k_next_chan (pr_sockb pr)"]
        exI [of _ "(if even i then replicate len 0 else replicate len (ucast i))"] exI [of _ "(if even i then replicate len (ucast i) else replicate len 0)"]) (simp add: pr')
qed

lemma connect_all_total:
  assumes "\<And>i pr. body i pr \<noteq> None"
  shows "\<exists>pr'. connect_all body is pr = Some pr'"
proof (induction "is" arbitrary: pr)
  case (Cons i "is")
  obtain pr1 where "body i pr = Some pr1" using assms [of i pr] by auto
  with Cons [of pr1] show ?case by simp
qed simp

text \<open>With both local addresses known, \<open>multi_stream.rs\<close> gets its streams, and the streams of each pair
  address each other.\<close>

lemma multi_streams_linked:
  assumes "kv_local_addr enva = Inr addra" "kv_local_addr envb = Inr addrb"
  shows "\<exists>pr. multi_streams enva envb addra addrb socka sockb = Some pr \<and> all_linked addra addrb pr"
proof -
  let ?pr = "\<lparr>pr_socka = socka, pr_sockb = sockb, pr_readers = [], pr_writers = []\<rparr>"
  have "multi_connect enva envb addra addrb i pr \<noteq> None" for i pr
    using assms by (simp add: multi_connect_def socket_connect_def Let_def)
  from connect_all_total [of "multi_connect enva envb addra addrb", OF this] obtain pr where
    pr: "multi_streams enva envb addra addrb socka sockb = Some pr"
    unfolding multi_streams_def Let_def by blast
  have "all_linked addra addrb ?pr" by (simp add: all_linked_def)
  then have "all_linked addra addrb pr"
    using pr unfolding multi_streams_def Let_def by (rule multi.all_linked_loop)
  with pr show ?thesis by blast
qed

lemma bench_streams_linked:
  assumes "kv_local_addr enva = Inr addra" "kv_local_addr envb = Inr addrb"
  shows "bench_streams enva envb addra addrb n m socka sockb = None \<longleftrightarrow> m = 0"
    "bench_streams enva envb addra addrb n m socka sockb = Some pr \<Longrightarrow> all_linked addra addrb pr"
proof -
  let ?pr = "\<lparr>pr_socka = socka, pr_sockb = sockb, pr_readers = [], pr_writers = []\<rparr>"
  have "bench_connect enva envb addra addrb len i pr \<noteq> None" for len i pr
    using assms by (simp add: bench_connect_def socket_connect_def Let_def)
  from connect_all_total [of "bench_connect enva envb addra addrb _", OF this]
  show "bench_streams enva envb addra addrb n m socka sockb = None \<longleftrightarrow> m = 0"
    unfolding bench_streams_def Let_def by (metis option.distinct(1))
  show "all_linked addra addrb pr" if "bench_streams enva envb addra addrb n m socka sockb = Some pr"
  proof -
    have "\<exists>is. connect_all (bench_connect enva envb addra addrb (n div m)) is ?pr = Some pr"
      using that unfolding bench_streams_def Let_def by (metis option.distinct(1))
    then obtain "is" where "connect_all (bench_connect enva envb addra addrb (n div m)) is ?pr = Some pr" by blast
    moreover have "all_linked addra addrb ?pr" by (simp add: all_linked_def)
    ultimately show ?thesis by (rule bench.all_linked_loop [rotated])
  qed
qed

text \<open>In \<open>bench.rs\<close> a stream with an odd number is given the wrong buffer: its writer sends the zeros that
  were meant to be read into, and its reader reads into the bytes that were meant to be sent.\<close>

lemma bench_odd_sends_zeros:
  assumes "bench_connect enva envb addra addrb len i pr = Some pr'" "i mod 2 \<noteq> 0"
  shows "fst (snd (last (pr_writers pr'))) = replicate len 0 \<and> fst (snd (last (pr_readers pr'))) = replicate len (ucast i)"
  using assms unfolding bench_connect_def even_iff_mod_2_eq_zero [symmetric]
  by (auto simp: bind_eq_Some_conv Let_def)

section \<open>Parameters\<close>

lemma parse_usize_examples:
  "parse_usize ''64'' = Some 64" "parse_usize ''+8'' = Some 8" "parse_usize '''' = None" "parse_usize ''+'' = None"
  "parse_usize ''4k'' = None"
  by (simp_all add: parse_usize_def digit_def Let_def)

lemma usize_from_env_default: "usize_from_env None n = Some n"
  by (simp add: usize_from_env_def)

end
