(* ===== verification/Spec2Isabelle.thy ===== *)
theory Spec2Isabelle
  imports Udx_Network_Close Udx_Network_Loss Udx_Handle Udx_Examples
begin

text \<open>
  Verification of \<open>async-udx\<close>, an implementation of the UDX protocol: reliable, ordered byte streams
  multiplexed over one UDP socket.

  \<^bold>\<open>The program and its parts.\<close> A \<open>UdxSocket\<close> (\<open>src/socket.rs\<close>) owns a UDP socket and a driver task. Its
  streams (\<open>UdxStream\<close>, \<open>src/stream.rs\<close>) each have a driver task of their own. A stream cuts what the application
  writes into packets (\<open>src/packet.rs\<close>) and passes them in packet sets through a channel to the socket, which hands
  them to the kernel through the crate \<open>udx-udp\<close> in batches, several packets in one transmit where the kernel
  segments. In the other direction the socket receives datagrams in batches into one shared buffer,
  decodes their headers and passes them through a channel to the stream they are addressed to. The stream
  reassembles them, acknowledges them, and wakes the reader. Lost packets are sent again when a timer
  expires. A mutex with optional tracking of its owners (\<open>src/mutex.rs\<close>) guards both.

  \<^bold>\<open>Theories.\<close>
  \<^item> \<open>Udx_Prelude\<close>: machine integers, checked arithmetic, slices, dictionaries, and the contracts \<open>dictionary\<close>,
    \<open>prefix_codec\<close> and \<open>machine\<close> (initial states, steps, invariant).
  \<^item> \<open>Udx_Error\<close>, \<open>Udx_Proto\<close>: \<open>src/error.rs\<close>; the types of \<open>udx-udp/src/proto.rs\<close> and \<open>udx-udp/src/lib.rs\<close>.
  \<^item> \<open>Udx_Packet\<close>: \<open>src/packet.rs\<close> and the constants in use. The header codec is an instance of \<open>prefix_codec\<close>.
    \<open>Udx_Constants\<close>: the other constants of \<open>src/constants.rs\<close>, their bits and how the masks are composed of them.
  \<^item> \<open>Udx_Stream\<close>: \<open>src/stream.rs\<close>, one definition per function: \<open>create_packet\<close>, \<open>send_data_packet\<close>, \<open>poll_write\<close>,
    \<open>poll_read\<close>, \<open>handle_incoming\<close>, \<open>handle_incoming_sacks\<close>, \<open>handle_incoming_max_remote_ack\<close>, \<open>poll_check_timeouts\<close>,
    \<open>flush_waiting_packets\<close>, \<open>poll_transmit\<close>, \<open>poll_drive\<close>, \<open>terminate\<close>, the driver's poll \<open>stream_driver_poll\<close>, and
    \<open>stream_connect\<close>, \<open>stream_close\<close>, \<open>stream_drop\<close> of the handle.
  \<^item> \<open>Udx_Stream_Acct\<close>, \<open>Udx_Stream_Recv\<close>, \<open>Udx_Stream_Drive\<close>, \<open>Udx_Stream_Poll\<close>, \<open>Udx_Stream_Write\<close>, \<open>Udx_Stream_Timers\<close>: the
    invariants of a stream and what each operation does to them. \<open>acct\<close> ties the counters to the unacknowledged packets,
    \<open>recv_inv\<close> and \<open>avail\<close> describe the reassembly buffer as a byte queue, \<open>sent_inv\<close> and \<open>rcvd_inv\<close> relate the
    stream to the chunks it sent and received.
  \<^item> \<open>Udx_Stream_Props\<close>: the properties of one stream under any environment (\<open>stream_step\<close>).
  \<^item> \<open>Udx_Stream_Wake\<close>: the life cycle of a stream as an order with least upper bounds on \<open>stream_state\<close>, along which every
    operation moves upwards, and who sleeps and who is woken (\<open>wake_inv\<close>, \<open>onward\<close>).
  \<^item> \<open>Udx_Udp\<close>: \<open>udx-udp/src/unix.rs\<close>, \<open>cmsg.rs\<close> and \<open>fallback.rs\<close>, and the platform state of \<open>lib.rs\<close>. \<open>Udx_Udp_Props\<close>: the contracts \<open>udp_layer\<close> (what
    sending promises) and \<open>udp_receiver\<close> (what receiving promises), interpreted for the platforms.
  \<^item> \<open>Udx_Socket\<close>: \<open>src/socket.rs\<close>. \<open>Udx_Socket_Props\<close>: the socket proved once over any platform that keeps both contracts
    (the locale \<open>udp_socket\<close>), and its properties. \<open>accept\<close> is the specification of receiving, \<open>tx_rel\<close> of transmitting.
  \<^item> \<open>Udx_Mutex\<close>: \<open>src/mutex.rs\<close>, with the contract \<open>lock\<close> for both variants.
  \<^item> \<open>Udx_Handle\<close>: the calls of the public handles \<open>UdxStream\<close> and \<open>UdxSocket\<close>, each an operation run under the lock. The
    contract \<open>lock_calls\<close> holds for both locks; under it any sequence of calls gives the replies and the state of the
    operations themselves.
  \<^item> \<open>Udx_Examples\<close>: the loops of \<open>examples/rw.rs\<close>, \<open>multi_stream.rs\<close> and \<open>bench.rs\<close> as clients. The loops of \<open>rw.rs\<close> end when
    writing and reading behave as \<open>tokio\<close> documents; the pairs of streams that the other two connect address each other.
  \<^item> \<open>Udx_Network\<close>: two endpoints, each a stream on a socket, and the network between them (\<open>net_step\<close>), with the
    invariant that every packet on the wire is genuine. \<open>Udx_Network_Run\<close> and \<open>Udx_Network_Close\<close> construct runs without
    loss that deliver any data and end a session, \<open>Udx_Network_Loss\<close> runs that recover from the loss of what is on the wire.
    This theory states the properties of the composition.

  \<^bold>\<open>How state and effects correspond.\<close> A struct is a record; its fields have the names of the source with a prefix
  (\<open>s_\<close> for a stream, \<open>k_\<close> for a socket, \<open>p_\<close> for a packet, \<open>hdr_\<close> for a header). A function that may panic returns an
  \<open>option\<close> whose \<open>None\<close> is the panic, or a call that never returns; a \<open>Result\<close> is a sum with the error on the left.
  \<open>u32\<close> keeps its width and its increments are checked; \<open>usize\<close> is a natural number with checked subtraction.
  \<open>HashMap\<close> and \<open>BTreeMap\<close> are association lists accessed by key. An \<open>Arc<Packet>\<close> is an index into a heap of cells that the
  stream and its socket share. Channels are lists, wakers, listeners and channel ends are numbers. What the
  runtime decides (clock, timers, how many messages a channel yields, the length of a slice of a ring buffer) is an
  argument, and so is what the kernel does. Times are nanoseconds.

  \<^bold>\<open>What is assumed.\<close> \<open>unix_kernel_ok\<close>, \<open>unix_network_ok\<close> and \<open>abi_ok\<close> state what is documented of \<open>sendmmsg\<close>, \<open>recvmmsg\<close> and the
  control message macros: counts within the request, finitely many interruptions, datagrams no longer than their
  buffer, sizes of the macros. \<open>gso_split\<close> states how segmentation offload cuts a transmit into datagrams. The network may
  lose, duplicate, delay and reorder what was sent, and may deliver anything that is not a packet of the
  protocol; it does not forge packets. (A single stream is also studied with forged packets, in \<open>Udx_Stream_Props\<close>.)

  \<^bold>\<open>What is shown.\<close>
  \<^item> The composition: the data read is a prefix of the data written, an acknowledgement is never premature, no
    interleaving panics, every packet sent is well-formed and fits the peer's buffer, any session can be
    completed, and a packet or an acknowledgement that was lost is recovered from.
  \<^item> A stream: it never panics on any packets; its counters balance; receiving, reading and writing refine a
    byte queue; the send queue is handed over in order; timeouts retransmit, boundedly; cumulative acknowledgements
    terminate; closing completes; no wake-up of a reader, a writer or the driver is lost; estimates stay in their bounds; selective acknowledgements equal a reference decoding
    except for the last range.
  \<^item> The codec round trips. The control buffer suffices, and iterating over it gives the messages back. Sending takes only what it was given and in order; received
    metadata is what the kernel handed over. The socket never panics, its batched receive refines handling datagrams one
    by one, packets reach the stream they are addressed to, and datagrams are queued up to the bound. Tracking the lock
    changes nothing that it protects.
  \<^item> Deviations: a small read reports \<open>Pending\<close> after consuming bytes, the last selective range is dropped, an
    acknowledgement beyond what was sent is accepted, a packet written after an idle time is sent twice, the poll that drains a
    closed stream does not schedule the one that reports it, an orphaned stream spins, transmitting panics when the socket is gone and
    the queue is long, packets are stamped before they are sent, and the end of an old stream removes the handle of a new
    one.

  \<^bold>\<open>Bounds.\<close> There is no fuel. The loops of the code are recursive functions with termination proofs; the receive loop of the
  socket runs at most 59 rounds as in the code, and the loops over channels stop after the number of messages that
  the environment yields. Data written over a stream is limited to the 32-bit sequence numbers: the code overflows
  beyond them, so the properties on writing ask for room (\<open>packets_for\<close>).

  \<^bold>\<open>Not modelled.\<close> Log messages and \<open>Debug\<close> output, which change no state. The pointers in the message headers for the kernel, of
  which only sizes and contents are visible. The scheduler of tokio, of which only the polls are visible. In the examples
  the spawning and joining of tasks, timings and what is printed; \<open>examples/simple.rs\<close>, the benchmark \<open>benches/throughput.rs\<close>, the
  end-to-end pipe and the tests consist of these and of calls to the interface modelled here. \<open>src/lib.rs\<close> and \<open>src/udx.rs\<close> declare modules and re-export names. One stream
  per socket is composed over the network; several streams on a socket are covered by the properties of the socket alone.
\<close>

section \<open>Example values\<close>

definition ex_split :: "transmit \<Rightarrow> u8 list list" where
  "ex_split t = (case t_segment_size t of None \<Rightarrow> [t_contents t] | Some g \<Rightarrow> chunks_mut g (t_contents t))"

definition ex_ids :: "side \<Rightarrow> u32" where
  "ex_ids i = (case i of Here \<Rightarrow> 1 | There \<Rightarrow> 2)"

definition ex_system :: system where
  "ex_system i = (case socket_connect ex_kenv ex_bound (ex_ids i) (ex_ids (peer i)) ex_socket of
     Some (k, s) \<Rightarrow> \<lparr>ep_stream = s, ep_socket = k, ep_written = [], ep_read = [], ep_wire = []\<rparr>)"

lemma chunks_mut_cut:
  "concat (chunks_mut (Suc g) buf) = buf
   \<and> (\<forall>d \<in> set (chunks_mut (Suc g) buf). d \<noteq> [] \<and> length d \<le> Suc g)
   \<and> (\<forall>d \<in> set (butlast (chunks_mut (Suc g) buf)). length d = Suc g)"
proof (induction "length buf" arbitrary: buf rule: less_induct)
  case less
  show ?case
  proof (cases buf)
    case (Cons b bs)
    let ?cs = "chunks_mut (Suc g) (drop g bs)"
    have "length (drop g bs) < length buf" by (simp add: Cons)
    then have ih: "concat ?cs = drop g bs" "\<forall>d \<in> set ?cs. d \<noteq> [] \<and> length d \<le> Suc g"
      "\<forall>d \<in> set (butlast ?cs). length d = Suc g"
      using less [of "drop g bs"] by blast+
    have eq: "chunks_mut (Suc g) buf = take (Suc g) buf # ?cs" by (simp add: Cons)
    have "length (take (Suc g) buf) = Suc g" if "?cs \<noteq> []"
      using that by (cases "g < length bs") (simp_all add: Cons)
    moreover have "concat (take (Suc g) buf # ?cs) = buf" using ih(1) by (simp add: Cons)
    moreover have "take (Suc g) buf \<noteq> []" by (simp add: Cons)
    ultimately show ?thesis using ih(2,3) unfolding eq by (cases "?cs = []") auto
  qed simp
qed

lemma ex_split_gso: "gso_split ex_split"
  unfolding gso_split_def
proof
  fix t
  show "case t_segment_size t of None \<Rightarrow> ex_split t = [t_contents t]
    | Some g \<Rightarrow> 0 < g \<longrightarrow> concat (ex_split t) = t_contents t
       \<and> (\<forall>d \<in> set (ex_split t). d \<noteq> [] \<and> length d \<le> g) \<and> (\<forall>d \<in> set (butlast (ex_split t)). length d = g)"
  proof (cases "t_segment_size t")
    case (Some g)
    then show ?thesis using chunks_mut_cut [of "g - 1" "t_contents t"] by (cases g) (simp_all add: ex_split_def)
  qed (simp add: ex_split_def)
qed

lemma ex_joined: "joined ex_ids ex_system"
  unfolding joined_def
proof
  fix i
  show "\<exists>k0 env dest k s. socket_bound BATCH_SIZE_UNIX k0
      \<and> socket_connect env dest (ex_ids i) (ex_ids (peer i)) k0 = Some (k, s)
      \<and> ex_system i = \<lparr>ep_stream = s, ep_socket = k, ep_written = [], ep_read = [], ep_wire = []\<rparr>"
    by (rule exI [of _ ex_socket], rule exI [of _ ex_kenv], rule exI [of _ ex_bound])
      (simp add: ex_socket_bound ex_system_def socket_connect_def ex_kenv_def)
qed

lemma reach_steps:
  assumes "step\<^sup>*\<^sup>* S T" "reach init step S"
  shows "reach init step T"
  using assms by (induction rule: rtranclp_induct) (auto intro: reach_step)

text \<open>A run in which both sides have sent and received.\<close>

definition ex_messages :: "side \<Rightarrow> u8 list" where
  "ex_messages i = (case i of Here \<Rightarrow> [1, 2, 3] | There \<Rightarrow> [4])"

lemma ex_messages_fits: "packets_for (length (ex_messages i)) < 4294967295"
  by (cases i) (simp_all add: ex_messages_def packets_for_def)

lemma ex_run:
  "\<exists>T. reach (joined ex_ids) (net_step ex_split) T \<and> settled ex_ids T \<and> (\<forall>i. ep_written (T i) = ex_messages i)
     \<and> (\<forall>i. ep_read (T (peer i)) = ex_messages i)"
proof -
  obtain T where T: "(net_step ex_split)\<^sup>*\<^sup>* ex_system T" "net_inv ex_split ex_ids T" "settled ex_ids T"
    "\<forall>i. ep_written (T i) = ex_messages i"
    using deliver_both [of ex_split ex_ids ex_system ex_messages] ex_split_gso ex_joined ex_messages_fits by blast
  have "reach (joined ex_ids) (net_step ex_split) T"
    using T(1) by (rule reach_steps) (rule reach_init, rule ex_joined)
  then show ?thesis using T settled_read [OF T(2,3)] by auto
qed

section \<open>Properties\<close>



text \<open>C2: an acknowledgement is never premature. At every moment the packets that one side holds
  acknowledged are at most those the other side has received in sequence, which are at most those
  the one side numbered. When every packet is acknowledged, the other side has every accepted
  byte: what it has read and can read is what was written.\<close>

theorem acked_data_arrived:
  assumes "gso_split split" "reach (joined ids) (net_step split) S"
  shows "s_remote_acked (ep_stream (S i)) \<le> s_ack (ep_stream (S (peer i)))
    \<and> s_ack (ep_stream (S (peer i))) \<le> s_seq (ep_stream (S i))
    \<and> (if s_remote_acked (ep_stream (S i)) = s_seq (ep_stream (S i))
       then ep_read (S (peer i)) @ avail (ep_stream (S (peer i))) = ep_written (S i) else True)"
proof -
  obtain chunks where e: "\<forall>i. end_inv split (ids (peer i)) (chunks i) (chunks (peer i))
      (s_ack (ep_stream (S (peer i)))) (S i)" using net_reach [OF assms] by blast
  note d = end_invD [OF e [rule_format]]
  have r: "ep_read (S (peer i)) @ avail (ep_stream (S (peer i)))
      = concat (take (unat (s_ack (ep_stream (S (peer i))))) (chunks i))"
    "unat (s_ack (ep_stream (S (peer i)))) \<le> length (chunks i)"
    using d(14) [of "peer i"] by (simp_all add: rcvd_inv_def)
  moreover have "unat (s_seq (ep_stream (S i))) = length (chunks i)"
    using d(7) [of i] by (simp add: sent_inv_def)
  moreover have "concat (chunks i) = ep_written (S i)" by (rule d(8))
  ultimately show ?thesis using d(15) [of i] by (auto simp: word_le_nat_alt)
qed

theorem acked_data_arrived_witness:
  "\<exists>T. reach (joined ex_ids) (net_step ex_split) T
     \<and> s_remote_acked (ep_stream (T Here)) = s_seq (ep_stream (T Here))
     \<and> ep_read (T (peer Here)) @ avail (ep_stream (T (peer Here))) = ep_written (T Here)
     \<and> ep_written (T Here) = [1, 2, 3]"
proof -
  obtain T where T: "reach (joined ex_ids) (net_step ex_split) T" "settled ex_ids T"
    "\<forall>i. ep_written (T i) = ex_messages i"
    using ex_run by blast
  have "s_remote_acked (ep_stream (T Here)) = s_seq (ep_stream (T Here))"
    using T(2) by (simp add: settled_def at_rest_def)
  with T(1,3) show ?thesis
    using acked_data_arrived [OF ex_split_gso T(1), of Here] by (intro exI [of _ T]) (simp add: ex_messages_def)
qed






text \<open>C5: loss is recovered from. Let one packet of data await its acknowledgement, with nothing else to
  do on either side, and let everything on the wire be lost, the packet or its acknowledgement. Then
  there is a run, in which the timer expires and the packet is sent again, after which the peer
  has read every accepted byte exactly once and both sides are at rest.\<close>

theorem loss_recovered:
  assumes "gso_split split" "reach (joined ids) (net_step split) S"
    and "awaiting (ep_stream (S i))" "rest_socket (ids i) (ep_socket (S i))" "in_flight (ep_stream (S i)) c"
    and "at_rest (ep_stream (S (peer i)))" "rest_socket (ids (peer i)) (ep_socket (S (peer i)))"
  shows "\<exists>T. (net_step split)\<^sup>*\<^sup>* (lose S) T \<and> at_rest (ep_stream (T i)) \<and> at_rest (ep_stream (T (peer i)))
    \<and> ep_written (T i) = ep_written (S i) \<and> ep_read (T (peer i)) = ep_written (S i)"
proof -
  let ?a = "lose S i" and ?b = "lose S (peer i)"
  have inv: "net_inv split ids (lose S)"
    using net_inv_lose [OF machine.reach_inv [OF network_machine [OF assms(1)] assms(2)]] .
  then have "net_inv split ids (two i ?a ?b)" by (simp add: two_eta)
  then obtain a' b' where t: "(net_step split)\<^sup>*\<^sup>* (two i ?a ?b) (two i a' b')" "at_rest (ep_stream a')"
    "at_rest (ep_stream b')" "s_ack (ep_stream b') = s_seq (ep_stream a')" "ep_written a' = ep_written ?a"
    using recover [OF assms(1), of ids i ?a ?b c] assms(3-7) by (auto simp: lose_def)
  let ?T = "two i a' b'"
  have steps: "(net_step split)\<^sup>*\<^sup>* (lose S) ?T" using t(1) by (simp add: two_eta)
  have "ep_read (?T (peer i)) = ep_written (?T i)"
    by (rule all_read [OF net_inv_steps [OF steps assms(1) inv]]) (use t in \<open>simp_all add: at_rest_def calm_def\<close>)
  with steps t show ?thesis by (intro exI [of _ ?T]) (simp add: lose_def)
qed

theorem loss_recovered_witness:
  "\<exists>S T. reach (joined ex_ids) (net_step ex_split) S \<and> ep_written (S Here) = [1, 2, 3] \<and> ep_read (S There) = []
    \<and> (net_step ex_split)\<^sup>*\<^sup>* (lose S) T \<and> ep_read (T There) = [1, 2, 3]"
proof -
  let ?b = "ex_system There"
  note r = settled_joined [OF ex_joined]
  have inv: "net_inv ex_split ex_ids (two Here (ex_system Here) ?b)"
    using net_inv_joined [OF ex_joined] two_eta [of Here ex_system] by simp
  have rest: "at_rest (ep_stream (ex_system j))" "rest_socket (ex_ids j) (ep_socket (ex_system j))" for j
    using r(1) by (simp_all add: settled_def)
  obtain a where a: "(net_step ex_split)\<^sup>*\<^sup>* (two Here (ex_system Here) ?b) (two Here a ?b)" "awaiting (ep_stream a)"
    "rest_socket (ex_ids Here) (ep_socket a)" "ep_written a = [1, 2, 3]"
    "in_flight (ep_stream a) (length (s_heap (ep_stream (ex_system Here))))"
    using send_message [OF ex_split_gso inv rest(1,2) [of Here], of "[1, 2, 3]"] r(2,3) by auto
  let ?S = "two Here a ?b"
  have S: "?S Here = a" "?S There = ?b" by (simp_all add: two_def)
  have "(net_step ex_split)\<^sup>*\<^sup>* ex_system ?S" using a(1) two_eta [of Here ex_system] by simp
  then have "reach (joined ex_ids) (net_step ex_split) ?S"
    by (rule reach_steps) (rule reach_init, rule ex_joined)
  moreover from this obtain T where "(net_step ex_split)\<^sup>*\<^sup>* (lose ?S) T" "ep_read (T (peer Here)) = ep_written (?S Here)"
    using loss_recovered [OF ex_split_gso, of ex_ids ?S Here "length (s_heap (ep_stream (ex_system Here)))"]
      a(2,3,5) rest [of There] by (auto simp: S)
  moreover have "ep_read (ex_system There) = []"
    by (simp add: ex_system_def socket_connect_def ex_kenv_def)
  ultimately show ?thesis using a(4) by (intro exI [of _ ?S] exI [of _ T]) (simp add: S)
qed



end
